(* ===== verification/Prelude.thy ===== *)
theory Prelude
  imports Main "HOL-Library.Multiset" "HOL-Library.List_Lexorder" "HOL-Library.Char_ord"
begin

text \<open>
  Shared vocabulary of the development: the theorem collections the components fill, and the
  generic facts on lists, options and folds that several components use.

  \<^item> \<open>clock_simps\<close>: the vector-clock algebra (order, join, equality).
  \<^item> \<open>rwf_simps\<close>: the checks of the remove-win framework.
  \<^item> \<open>db_simps\<close>: reads after writes in the key space.
\<close>

named_theorems clock_simps
named_theorems rwf_simps
named_theorems db_simps

type_synonym sds = string
type_synonym addr = nat

section \<open>Options and lists\<close>

definition onth :: "'a list \<Rightarrow> int \<Rightarrow> 'a option" where
  "onth xs i = (if 0 \<le> i \<and> i < int (length xs) then Some (xs ! nat i) else None)"

lemma onth_Some_iff: "onth xs i = Some x \<longleftrightarrow> 0 \<le> i \<and> i < int (length xs) \<and> xs ! nat i = x"
  by (auto simp: onth_def)

lemma onth_in_range [simp]: "0 \<le> i \<Longrightarrow> i < int (length xs) \<Longrightarrow> onth xs i = Some (xs ! nat i)"
  by (simp add: onth_def)

section \<open>Counting loops that may fail\<close>

primrec for_loop :: "(nat \<Rightarrow> 's \<Rightarrow> 's option) \<Rightarrow> nat \<Rightarrow> nat \<Rightarrow> 's \<Rightarrow> 's option" where
  "for_loop f i 0 s = Some s"
| "for_loop f i (Suc n) s = Option.bind (f i s) (for_loop f (Suc i) n)"

text \<open>\<open>for_range f a b s\<close> runs \<open>f i\<close> for \<open>i = a, ..., b - 1\<close>.\<close>

definition for_range :: "(nat \<Rightarrow> 's \<Rightarrow> 's option) \<Rightarrow> nat \<Rightarrow> nat \<Rightarrow> 's \<Rightarrow> 's option" where
  "for_range f a b s = for_loop f a (b - a) s"

lemma for_loop_states:
  assumes "\<And>i. a \<le> i \<Longrightarrow> i < a + n \<Longrightarrow> f i (S i) = Some (S (Suc i))"
  shows "for_loop f a n (S a) = Some (S (a + n))"
  using assms
proof (induction n arbitrary: a)
  case (Suc n)
  then show ?case using Suc.prems[of a] Suc.IH[of "Suc a"] by simp
qed simp

text \<open>A loop whose state before round \<open>i\<close> is \<open>S i\<close> ends in \<open>S b\<close>.\<close>

lemma for_range_states:
  assumes "a \<le> b" and "\<And>i. a \<le> i \<Longrightarrow> i < b \<Longrightarrow> f i (S i) = Some (S (Suc i))"
  shows "for_range f a b (S a) = Some (S b)"
  using for_loop_states[of a "b - a" f S] assms by (simp add: for_range_def)

section \<open>Folding operations over a history\<close>

lemma fold_snoc [simp]: "fold f (xs @ [x]) s = f x (fold f xs s)"
  by simp

lemma filter_mset_cong_mset: "mset xs = mset ys \<Longrightarrow> mset (filter P xs) = mset (filter P ys)"
  by simp

lemma concat_map_mset: "mset xs = mset ys \<Longrightarrow> mset (concat (map f xs)) = mset (concat (map f ys))"
  by (simp add: mset_concat) (metis mset_map sum_mset_sum_list)

lemma set_eq_of_mset_eq: "mset xs = mset ys \<Longrightarrow> set xs = set ys"
  by (metis set_mset_mset)

end
