(* ===== verification/CDouble.thy ===== *)
theory CDouble
  imports Prelude Complex_Main "HOL-Library.Log_Nat"
begin

text \<open>
  The C type \<open>double\<close> as the sorted-set code uses it: addition, negation, the comparisons and
  \<open>isnan\<close>. A value is NaN, an infinity or a finite binary64 number, given by the rational it
  denotes; \<open>dround\<close> is the rounding of IEEE 754 (to nearest, ties to even, 53 bits of
  precision, exponents from -1074 to 971). The two zeros are one value. Addition commutes but is
  not associative; \<open>dsum_exact\<close> says when a sum of increments does not depend on its order.
\<close>

section \<open>Values and rounding\<close>

datatype dbl = NaN | MInf | PInf | Fin rat

definition rne :: "rat \<Rightarrow> int" where
  "rne r = (let f = \<lfloor>r\<rfloor>; d = r - of_int f in
     if d < 1/2 then f else if d > 1/2 then f + 1 else if even f then f else f + 1)"

definition pow2 :: "int \<Rightarrow> rat" where
  "pow2 e = (if 0 \<le> e then 2 ^ nat e else 1 / 2 ^ nat (- e))"

definition dexp :: "rat \<Rightarrow> int" where
  "dexp r = (let (p, q) = quotient_of \<bar>r\<bar>; k = bitlen p - bitlen q in
     max (if \<bar>r\<bar> < pow2 k then k - 53 else k - 52) (-1074))"

definition dround :: "rat \<Rightarrow> dbl" where
  "dround r = (if r = 0 then Fin 0 else
     let e = dexp r; v = of_int (rne (r / pow2 e)) * pow2 e in
     if pow2 1024 \<le> v then PInf else if v \<le> - pow2 1024 then MInf else Fin v)"

section \<open>Operations\<close>

fun isnan :: "dbl \<Rightarrow> bool" where
  "isnan NaN = True"
| "isnan _ = False"

fun dadd :: "dbl \<Rightarrow> dbl \<Rightarrow> dbl" where
  "dadd NaN _ = NaN"
| "dadd _ NaN = NaN"
| "dadd PInf MInf = NaN"
| "dadd MInf PInf = NaN"
| "dadd PInf _ = PInf"
| "dadd _ PInf = PInf"
| "dadd MInf _ = MInf"
| "dadd _ MInf = MInf"
| "dadd (Fin a) (Fin b) = dround (a + b)"

fun dneg :: "dbl \<Rightarrow> dbl" where
  "dneg NaN = NaN"
| "dneg PInf = MInf"
| "dneg MInf = PInf"
| "dneg (Fin a) = Fin (- a)"

fun dlt :: "dbl \<Rightarrow> dbl \<Rightarrow> bool" where
  "dlt NaN _ = False"
| "dlt _ NaN = False"
| "dlt (Fin a) (Fin b) = (a < b)"
| "dlt MInf MInf = False"
| "dlt MInf _ = True"
| "dlt _ MInf = False"
| "dlt PInf _ = False"
| "dlt _ PInf = True"

definition deq :: "dbl \<Rightarrow> dbl \<Rightarrow> bool" where
  "deq a b \<longleftrightarrow> a = b \<and> \<not> isnan a"

definition dabs :: "dbl \<Rightarrow> dbl" where
  "dabs v = (if dlt (Fin 0) v then v else dneg v)"

abbreviation dzero :: dbl where
  "dzero \<equiv> Fin 0"

definition dsum :: "dbl \<Rightarrow> dbl list \<Rightarrow> dbl" where
  "dsum a vs = foldl dadd a vs"

section \<open>Order\<close>

lemma dlt_irrefl [simp]: "\<not> dlt a a"
  by (cases a) auto

lemma dlt_trans: "dlt a b \<Longrightarrow> dlt b c \<Longrightarrow> dlt a c"
  by (cases a; cases b; cases c) auto

lemma dlt_asym: "dlt a b \<Longrightarrow> \<not> dlt b a"
  by (cases a; cases b) auto

lemma dlt_total: "\<not> isnan a \<Longrightarrow> \<not> isnan b \<Longrightarrow> dlt a b \<or> a = b \<or> dlt b a"
  by (cases a; cases b) auto

lemma dlt_not_nan: "dlt a b \<Longrightarrow> \<not> isnan a \<and> \<not> isnan b"
  by (cases a; cases b) auto

lemma isnan_iff [simp]: "isnan a \<longleftrightarrow> a = NaN"
  by (cases a) auto

lemma dadd_commute: "dadd a b = dadd b a"
  by (cases a; cases b) (auto simp: add.commute)

section \<open>Integers up to 2^53 are exact\<close>

lemma rne_of_int [simp]: "rne (of_int n) = n"
  by (simp add: rne_def)

lemma pow2_pos [simp]: "0 < pow2 e"
  by (simp add: pow2_def)

lemma pow2_neg_mult: "e \<le> 0 \<Longrightarrow> of_int n / pow2 e = of_int (n * 2 ^ nat (- e))"
  by (cases "e = 0") (simp_all add: pow2_def)

lemma pow2_nonzero [simp]: "pow2 e \<noteq> 0"
  using pow2_pos[of e] by linarith

lemma pow2_mult_div [simp]: "r / pow2 e * pow2 e = r"
  by simp

lemma quotient_of_abs_int: "quotient_of \<bar>rat_of_int n\<bar> = (\<bar>n\<bar>, 1)"
proof -
  have "\<bar>rat_of_int n\<bar> = Fract \<bar>n\<bar> 1"
    by (simp add: Fract_of_int_eq)
  then show ?thesis by (simp add: quotient_of_Fract Rat.normalize_def)
qed

lemma bitlen_abs_bounds:
  assumes "n \<noteq> 0"
  shows "2 ^ nat (bitlen \<bar>n\<bar> - 1) \<le> \<bar>n\<bar>" and "\<bar>n\<bar> < 2 ^ nat (bitlen \<bar>n\<bar>)"
  using bitlen_bounds[of "\<bar>n\<bar>"] assms by auto

lemma bitlen_one: "bitlen 1 = 1"
  by (simp add: bitlen_alt_def)

lemma dexp_of_int:
  assumes "n \<noteq> 0"
  shows "dexp (of_int n) = bitlen \<bar>n\<bar> - 53"
proof -
  let ?b = "bitlen \<bar>n\<bar>"
  have b1: "1 \<le> ?b"
    using assms bitlen_ge_iff_power[of 1 "\<bar>n\<bar>"] by simp
  have "pow2 (?b - 1) = of_int (2 ^ nat (?b - 1))"
    using b1 by (simp add: pow2_def)
  also have "\<dots> \<le> rat_of_int \<bar>n\<bar>"
    using bitlen_abs_bounds(1)[OF assms] by (simp only: of_int_le_iff)
  finally have "\<not> \<bar>rat_of_int n\<bar> < pow2 (?b - 1)"
    by simp
  then show ?thesis
    using b1 by (simp add: dexp_def quotient_of_abs_int bitlen_one del: of_int_abs)
qed

lemma div_pow2_is_int:
  assumes "\<bar>n\<bar> \<le> 2 ^ 53" and "n \<noteq> 0"
  shows "\<exists>m. rat_of_int n / pow2 (bitlen \<bar>n\<bar> - 53) = of_int m"
proof (cases "bitlen \<bar>n\<bar> \<le> 53")
  case True
  then have "rat_of_int n / pow2 (bitlen \<bar>n\<bar> - 53) = of_int (n * 2 ^ nat (- (bitlen \<bar>n\<bar> - 53)))"
    by (intro pow2_neg_mult) simp
  then show ?thesis by blast
next
  case False
  then have "2 ^ 53 \<le> \<bar>n\<bar>"
    using bitlen_le_iff_power[of "\<bar>n\<bar>" 53] by simp
  with assms have "\<bar>n\<bar> = 2 ^ 53" by simp
  then have n: "n = 2 ^ 53 \<or> n = - (2 ^ 53)" by arith
  have "bitlen \<bar>n\<bar> = 54"
    using \<open>\<bar>n\<bar> = 2 ^ 53\<close> bitlen_pow2[of 1 53] by (simp add: bitlen_one)
  then have "pow2 (bitlen \<bar>n\<bar> - 53) = 2" by (simp add: pow2_def)
  with n show ?thesis
    by (intro exI[of _ "n div 2"]) auto
qed

lemma dround_of_int:
  assumes "\<bar>n\<bar> \<le> 2 ^ 53"
  shows "dround (of_int n) = Fin (of_int n)"
proof (cases "n = 0")
  case True
  then show ?thesis by (simp add: dround_def)
next
  case False
  let ?e = "bitlen \<bar>n\<bar> - 53"
  from div_pow2_is_int[OF assms False]
  obtain m where m: "rat_of_int n / pow2 ?e = of_int m" by blast
  have v: "of_int (rne (rat_of_int n / pow2 ?e)) * pow2 ?e = of_int n"
    by (simp only: m rne_of_int) (simp only: m[symmetric] pow2_mult_div)
  have "rat_of_int \<bar>n\<bar> \<le> of_int (2 ^ 53)"
    using assms by (simp only: of_int_le_iff)
  moreover have "rat_of_int (2 ^ 53) < pow2 1024"
    by (simp add: pow2_def)
  ultimately have "\<bar>rat_of_int n\<bar> < pow2 1024" by simp
  then have "\<not> pow2 1024 \<le> rat_of_int n" "\<not> rat_of_int n \<le> - pow2 1024"
    by linarith+
  with False v show ?thesis
    by (simp add: dround_def dexp_of_int Let_def)
qed

text \<open>
  A sum of integer-valued doubles whose absolute values total at most \<open>2 ^ 53\<close> is exact,
  whatever the order of the additions.
\<close>

lemma dsum_exact:
  assumes "vs = map (\<lambda>k. Fin (of_int k)) ks" and "\<bar>a\<bar> + (\<Sum>k\<leftarrow>ks. \<bar>k\<bar>) \<le> 2 ^ 53"
  shows "dsum (Fin (of_int a)) vs = Fin (of_int (a + sum_list ks))"
  using assms
proof (induction ks arbitrary: a vs)
  case Nil
  then show ?case by (simp add: dsum_def)
next
  case (Cons k ks)
  have nonneg: "0 \<le> (\<Sum>k\<leftarrow>ks. \<bar>k\<bar>)"
    by (rule sum_list_nonneg) auto
  have "\<bar>a + k\<bar> \<le> \<bar>a\<bar> + \<bar>k\<bar>" by (rule abs_triangle_ineq)
  with Cons.prems(2) nonneg have b: "\<bar>a + k\<bar> \<le> 2 ^ 53"
    and b': "\<bar>a + k\<bar> + (\<Sum>k\<leftarrow>ks. \<bar>k\<bar>) \<le> 2 ^ 53" by simp_all
  have "dadd (Fin (of_int a)) (Fin (of_int k)) = Fin (of_int (a + k))"
    using dround_of_int[OF b] by simp
  with Cons.IH[OF refl b'] Cons.prems(1) show ?case
    by (simp add: dsum_def add.assoc)
qed

definition exact_values :: "dbl list \<Rightarrow> bool" where
  "exact_values vs \<longleftrightarrow>
     (\<exists>ks. vs = map (\<lambda>k. Fin (of_int k)) ks \<and> (\<Sum>k\<leftarrow>ks. \<bar>k\<bar>) \<le> 2 ^ 53)"

text \<open>The order in which exact values are added does not matter.\<close>

fun int_of_dbl :: "dbl \<Rightarrow> int" where
  "int_of_dbl (Fin r) = \<lfloor>r\<rfloor>"
| "int_of_dbl _ = 0"

lemma exact_values_perm:
  assumes "exact_values vs" and perm: "mset ws = mset vs"
  shows "exact_values ws \<and> dsum dzero ws = dsum dzero vs"
proof -
  let ?f = "\<lambda>k. Fin (rat_of_int k)"
  obtain ks where ks: "vs = map ?f ks" "(\<Sum>k\<leftarrow>ks. \<bar>k\<bar>) \<le> 2 ^ 53"
    using assms(1) by (auto simp: exact_values_def)
  let ?ls = "map int_of_dbl ws"
  have "mset ?ls = mset (map int_of_dbl vs)"
    using perm by simp
  then have ls: "mset ?ls = mset ks"
    by (simp add: ks(1) multiset.map_comp comp_def)
  have "set ws = set vs"
    using perm by (rule set_eq_of_mset_eq)
  then have ws: "ws = map ?f ?ls"
    by (auto simp: ks(1) intro!: map_idI[symmetric])
  have "(\<Sum>k\<leftarrow>?ls. \<bar>k\<bar>) = (\<Sum>k\<leftarrow>ks. \<bar>k\<bar>)" "sum_list ?ls = sum_list ks"
    using ls by (metis mset_map sum_mset_sum_list)+
  then show ?thesis
    using ws ks dsum_exact[of ws ?ls 0] dsum_exact[of vs ks 0]
    by (auto simp: exact_values_def intro!: exI[of _ ?ls])
qed

lemma exact_values_sub:
  assumes "exact_values vs" and sub: "mset ws \<subseteq># mset vs"
  shows "exact_values ws"
proof -
  let ?f = "\<lambda>k. Fin (rat_of_int k)"
  obtain ks where ks: "vs = map ?f ks" "(\<Sum>k\<leftarrow>ks. \<bar>k\<bar>) \<le> 2 ^ 53"
    using assms(1) by (auto simp: exact_values_def)
  let ?ls = "map int_of_dbl ws"
  have "set ws \<subseteq> set vs" using set_mset_mono[OF sub] by simp
  then have ws: "ws = map ?f ?ls" by (auto simp: ks(1) intro!: map_idI[symmetric])
  have "mset ?ls \<subseteq># mset (map int_of_dbl vs)" using image_mset_subseteq_mono[OF sub] by simp
  then have "mset ?ls \<subseteq># mset ks" by (simp add: ks(1) multiset.map_comp comp_def)
  then have "image_mset abs (mset ?ls) \<subseteq># image_mset abs (mset ks)" by (rule image_mset_subseteq_mono)
  then obtain M where M: "image_mset abs (mset ks) = image_mset abs (mset ?ls) + M"
    using subset_mset.le_iff_add by blast
  then have "set_mset M \<subseteq> set_mset (image_mset abs (mset ks))" by simp
  then have "\<forall>x \<in># M. 0 \<le> x" by auto
  then have "0 \<le> sum_mset M" by (induction M) auto
  then have "(\<Sum>k\<leftarrow>?ls. \<bar>k\<bar>) \<le> (\<Sum>k\<leftarrow>ks. \<bar>k\<bar>)"
    using arg_cong[OF M, of sum_mset] by (simp add: sum_mset_sum_list[symmetric] multiset.map_comp)
  then show ?thesis using ws ks(2) unfolding exact_values_def by (intro exI[of _ ?ls]) linarith
qed

lemma exact_values_dadd:
  assumes "exact_values (v # ws)"
  shows "dadd v (dsum dzero ws) \<noteq> NaN"
proof -
  obtain k ks where ks: "v = Fin (rat_of_int k)" "ws = map (\<lambda>k. Fin (rat_of_int k)) ks" "\<bar>k\<bar> + (\<Sum>k\<leftarrow>ks. \<bar>k\<bar>) \<le> 2 ^ 53"
    using assms by (auto simp: exact_values_def Cons_eq_map_conv)
  have "\<bar>sum_list ks\<bar> \<le> (\<Sum>k\<leftarrow>ks. \<bar>k\<bar>)" by (rule sum_list_abs)
  with ks(3) have b: "\<bar>k + sum_list ks\<bar> \<le> 2 ^ 53" "(\<Sum>k\<leftarrow>ks. \<bar>k\<bar>) \<le> 2 ^ 53" by simp_all
  then show ?thesis using dsum_exact[OF ks(2), of 0] dround_of_int[OF b(1)] ks(1) by simp
qed

lemma exact_values_Nil [simp]: "exact_values []"
  by (simp add: exact_values_def)

lemma exact_values_zero: "exact_values ws \<Longrightarrow> exact_values (dzero # ws)"
  unfolding exact_values_def
proof (elim exE conjE)
  fix ks
  assume "ws = map (\<lambda>k. Fin (rat_of_int k)) ks" "(\<Sum>k\<leftarrow>ks. \<bar>k\<bar>) \<le> 2 ^ 53"
  then show "\<exists>ks. dzero # ws = map (\<lambda>k. Fin (rat_of_int k)) ks \<and> (\<Sum>k\<leftarrow>ks. \<bar>k\<bar>) \<le> 2 ^ 53"
    by (intro exI[of _ "0 # ks"]) simp
qed

end
