(* ===== verification/CStrings.thy ===== *)
theory CStrings
  imports CDouble
begin

text \<open>
  The string primitives the CRDT code rests on: \<open>%d\<close> and \<open>atoi\<close> (the wire format
  of clocks and identifiers), \<open>string2ll\<close> and \<open>string2d\<close> of \<open>util.c\<close>
  (the arguments of the commands), \<open>sdscmp\<close> and \<open>sdstolower\<close> of \<open>sds.c\<close>.
  Strings are byte sequences, as \<open>sds\<close> values are.
\<close>

section \<open>Characters\<close>

definition chr_code :: "char \<Rightarrow> nat" where
  "chr_code c = of_char c"

definition is_digit :: "char \<Rightarrow> bool" where
  "is_digit c \<longleftrightarrow> 48 \<le> chr_code c \<and> chr_code c \<le> 57"

definition digit_val :: "char \<Rightarrow> nat" where
  "digit_val c = chr_code c - 48"

definition digit_chr :: "nat \<Rightarrow> char" where
  "digit_chr n = char_of (48 + n)"

definition isspace :: "char \<Rightarrow> bool" where
  "isspace c \<longleftrightarrow> chr_code c = 32 \<or> 9 \<le> chr_code c \<and> chr_code c \<le> 13"

definition tolower :: "char \<Rightarrow> char" where
  "tolower c = (if 65 \<le> chr_code c \<and> chr_code c \<le> 90 then char_of (chr_code c + 32) else c)"

definition cstr :: "sds \<Rightarrow> string" where
  "cstr s = takeWhile (\<lambda>c. chr_code c \<noteq> 0) s"

definition sdstolower :: "sds \<Rightarrow> sds" where
  "sdstolower s = map tolower s"

fun sdscmp :: "sds \<Rightarrow> sds \<Rightarrow> int" where
  "sdscmp [] [] = 0"
| "sdscmp [] (_ # _) = -1"
| "sdscmp (_ # _) [] = 1"
| "sdscmp (a # as) (b # bs) =
     (if chr_code a = chr_code b then sdscmp as bs
      else int (chr_code a) - int (chr_code b))"

section \<open>Decimal integers\<close>

fun show_nat :: "nat \<Rightarrow> string" where
  "show_nat n = (if n < 10 then [digit_chr n] else show_nat (n div 10) @ [digit_chr (n mod 10)])"

declare show_nat.simps [simp del]

definition show_int :: "int \<Rightarrow> string" where
  "show_int i = (if i < 0 then CHR ''-'' # show_nat (nat (- i)) else show_nat (nat i))"

fun digits_val :: "nat \<Rightarrow> string \<Rightarrow> nat" where
  "digits_val acc [] = acc"
| "digits_val acc (c # cs) =
     (if is_digit c then digits_val (10 * acc + digit_val c) cs else acc)"

definition signed_val :: "string \<Rightarrow> int" where
  "signed_val s = (case s of
       [] \<Rightarrow> 0
     | c # cs \<Rightarrow>
         if c = CHR ''-'' then - int (digits_val 0 cs)
         else if c = CHR ''+'' then int (digits_val 0 cs)
         else int (digits_val 0 (c # cs)))"

definition atoi :: "string \<Rightarrow> int" where
  "atoi s = signed_val (dropWhile isspace s)"

text \<open>\<open>sscanf(s, "%d,%d", ..)\<close>: \<open>None\<close> when a conversion fails.\<close>

definition skip_sign :: "string \<Rightarrow> string" where
  "skip_sign s = (case s of [] \<Rightarrow> [] | c # cs \<Rightarrow> if c = CHR ''-'' \<or> c = CHR ''+'' then cs else s)"

definition scan_int :: "string \<Rightarrow> (int \<times> string) option" where
  "scan_int s = (let t = dropWhile isspace s; u = skip_sign t in
     if takeWhile is_digit u = [] then None
     else Some (signed_val t, dropWhile is_digit u))"

definition scan_int_pair :: "string \<Rightarrow> (int \<times> int) option" where
  "scan_int_pair s = (case scan_int s of
       Some (x, c # rest) \<Rightarrow>
         if c = CHR '','' then map_option (\<lambda>(y, _). (x, y)) (scan_int rest) else None
     | _ \<Rightarrow> None)"

section \<open>string2ll\<close>

abbreviation ULLONG_MAX :: nat where
  "ULLONG_MAX \<equiv> 18446744073709551615"

abbreviation LLONG_MAX :: nat where
  "LLONG_MAX \<equiv> 9223372036854775807"

fun string2ll_loop :: "nat \<Rightarrow> string \<Rightarrow> (nat \<times> string) option" where
  "string2ll_loop v [] = Some (v, [])"
| "string2ll_loop v (c # cs) =
     (if \<not> is_digit c then Some (v, c # cs)
      else if v > ULLONG_MAX div 10 then None
      else if v * 10 > ULLONG_MAX - digit_val c then None
      else string2ll_loop (v * 10 + digit_val c) cs)"

definition string2ll :: "string \<Rightarrow> int option" where
  "string2ll s =
     (if s = [] then None
      else if s = ''0'' then Some 0
      else
        let negative = (hd s = CHR ''-''); p = (if negative then tl s else s) in
        (case p of
          [] \<Rightarrow> None
        | c # cs \<Rightarrow>
            if \<not> (49 \<le> chr_code c \<and> chr_code c \<le> 57) then None
            else
              (case string2ll_loop (digit_val c) cs of
                None \<Rightarrow> None
              | Some (v, rest) \<Rightarrow>
                  if rest \<noteq> [] then None
                  else if negative then (if v > LLONG_MAX + 1 then None else Some (- int v))
                  else if v > LLONG_MAX then None
                  else Some (int v))))"

section \<open>strtod and string2d\<close>

definition hex_val :: "char \<Rightarrow> nat" where
  "hex_val c = (if is_digit c then digit_val c else chr_code (tolower c) - 87)"

definition is_hex :: "char \<Rightarrow> bool" where
  "is_hex c \<longleftrightarrow> is_digit c \<or> 97 \<le> chr_code (tolower c) \<and> chr_code (tolower c) \<le> 102"

definition base_val :: "nat \<Rightarrow> (char \<Rightarrow> nat) \<Rightarrow> string \<Rightarrow> nat" where
  "base_val b f ds = foldl (\<lambda>a c. b * a + f c) 0 ds"

text \<open>An exponent part, when the marker is followed by digits; otherwise nothing is consumed.\<close>

definition scan_exponent :: "char \<Rightarrow> string \<Rightarrow> int \<times> string" where
  "scan_exponent mark s = (case s of
       [] \<Rightarrow> (0, s)
     | c # cs \<Rightarrow>
         if tolower c = mark then
           (case scan_int cs of
              Some (n, rest) \<Rightarrow> if isspace (hd cs) then (0, s) else (n, rest)
            | None \<Rightarrow> (0, s))
         else (0, s))"

definition ratpow :: "nat \<Rightarrow> int \<Rightarrow> rat" where
  "ratpow b e = (if 0 \<le> e then of_nat b ^ nat e else 1 / of_nat b ^ nat (- e))"

text \<open>The mantissa \<open>ds[.ds]\<close> and exponent of a number in base \<open>b\<close>; \<open>eb\<close> is the
  base of the exponent part.\<close>

definition scan_number ::
    "nat \<Rightarrow> nat \<Rightarrow> (char \<Rightarrow> bool) \<Rightarrow> (char \<Rightarrow> nat) \<Rightarrow> char \<Rightarrow> string \<Rightarrow> (rat \<times> string) option" where
  "scan_number b eb isd f mark s =
     (let ip = takeWhile isd s; r1 = dropWhile isd s;
          (fp, r2) = (case r1 of
                        [] \<Rightarrow> ([], r1)
                      | c # cs \<Rightarrow> if c = CHR ''.'' then (takeWhile isd cs, dropWhile isd cs) else ([], r1))
      in if ip = [] \<and> fp = [] then None
         else
           let (e, rest) = scan_exponent mark r2;
               m = of_nat (base_val b f (ip @ fp)) * ratpow b (- int (length fp))
           in Some (m * ratpow eb e, rest))"

definition strtod_unsigned :: "string \<Rightarrow> (dbl \<times> string \<times> bool) option" where
  "strtod_unsigned s =
     (let l = sdstolower s; finite = (\<lambda>(r, rest).
            (let v = dround r in (v, rest, r \<noteq> 0 \<and> (v = PInf \<or> v = dzero)))) in
      if take 8 l = ''infinity'' then Some (PInf, drop 8 s, False)
      else if take 3 l = ''inf'' then Some (PInf, drop 3 s, False)
      else if take 3 l = ''nan'' then Some (NaN, drop 3 s, False)
      else if take 2 l = ''0x'' then
        (case scan_number 16 2 is_hex hex_val (CHR ''p'') (drop 2 s) of
           Some p \<Rightarrow> Some (finite p)
         | None \<Rightarrow> Some (dzero, drop 1 s, False))
      else map_option finite (scan_number 10 10 is_digit digit_val (CHR ''e'') s))"

text \<open>\<open>strtod\<close>: the value, the unread rest, and whether \<open>errno\<close> is \<open>ERANGE\<close> with an
  infinite or zero result. With no conversion the whole string is unread.\<close>

definition strtod :: "string \<Rightarrow> dbl \<times> string \<times> bool" where
  "strtod s = (let t = dropWhile isspace s in
     (case t of
        [] \<Rightarrow> (dzero, s, False)
      | c # cs \<Rightarrow>
          (let neg = (c = CHR ''-''); u = (if c = CHR ''-'' \<or> c = CHR ''+'' then cs else t) in
           case strtod_unsigned u of
             None \<Rightarrow> (dzero, s, False)
           | Some (v, rest, r) \<Rightarrow> (if neg then dneg v else v, rest, r))))"

definition string2d :: "string \<Rightarrow> dbl option" where
  "string2d s = (let (v, rest, erange) = strtod s in
     if s = [] \<or> isspace (hd s) \<or> rest \<noteq> []
        \<or> (erange \<and> (v = PInf \<or> v = MInf \<or> v = dzero)) \<or> isnan v
     then None else Some v)"

text \<open>For evaluating these functions on literals.\<close>

lemmas eval_string = chr_code_def is_digit_def digit_val_def isspace_def tolower_def cstr_def sdstolower_def
  string2ll_def char_of_def bit_0 Let_def

lemmas eval_double = string2d_def strtod_def strtod_unsigned_def scan_number_def scan_exponent_def base_val_def
  ratpow_def eval_string

section \<open>Printing and reading back\<close>

lemma chr_code_digit_chr [simp]: "n < 10 \<Longrightarrow> chr_code (digit_chr n) = 48 + n"
  by (simp add: chr_code_def digit_chr_def)

lemma is_digit_digit_chr [simp]: "n < 10 \<Longrightarrow> is_digit (digit_chr n)"
  by (simp add: is_digit_def)

lemma digit_val_digit_chr [simp]: "n < 10 \<Longrightarrow> digit_val (digit_chr n) = n"
  by (simp add: digit_val_def)

lemma not_digit_codes [simp]:
  "\<not> is_digit CHR '',''" "\<not> is_digit CHR ''|''" "\<not> is_digit CHR ''-''" "\<not> is_digit CHR ''+''"
  by (simp_all add: is_digit_def chr_code_def)

lemma digits_val_append:
  "\<forall>c \<in> set ds. is_digit c \<Longrightarrow>
   digits_val acc (ds @ rest) = digits_val (digits_val acc ds) rest"
  by (induction ds arbitrary: acc) auto

lemma show_nat_digits: "\<forall>c \<in> set (show_nat n). is_digit c"
proof (induction n rule: show_nat.induct)
  case (1 n)
  then show ?case by (subst show_nat.simps) auto
qed

lemma show_nat_nonempty [simp]: "show_nat n \<noteq> []"
  by (subst show_nat.simps) simp

lemma digits_val_show_nat: "digits_val 0 (show_nat n) = n"
proof (induction n rule: show_nat.induct)
  case (1 n)
  show ?case
  proof (cases "n < 10")
    case True
    then show ?thesis by (subst show_nat.simps) simp
  next
    case False
    then have "digits_val 0 (show_nat n) =
        digits_val (digits_val 0 (show_nat (n div 10))) [digit_chr (n mod 10)]"
      by (subst show_nat.simps) (simp add: digits_val_append show_nat_digits)
    also have "\<dots> = 10 * (n div 10) + n mod 10"
      using 1 False by simp
    finally show ?thesis by simp
  qed
qed

definition no_digit_head :: "string \<Rightarrow> bool" where
  "no_digit_head s \<longleftrightarrow> s = [] \<or> \<not> is_digit (hd s)"

lemma no_digit_head_simps [simp]: "no_digit_head []" "no_digit_head (c # cs) = (\<not> is_digit c)"
  by (simp_all add: no_digit_head_def)

lemma digits_val_stop: "no_digit_head rest \<Longrightarrow> digits_val a rest = a"
  by (cases rest) auto

lemma digits_val_show_nat_rest:
  "no_digit_head rest \<Longrightarrow> digits_val 0 (show_nat n @ rest) = n"
  by (simp add: digits_val_append show_nat_digits digits_val_show_nat digits_val_stop)

lemma show_nat_hd: "\<exists>c cs. show_nat n = c # cs \<and> is_digit c"
  using show_nat_digits[of n] show_nat_nonempty[of n] by (cases "show_nat n") auto

lemma digit_not_sign: "is_digit c \<Longrightarrow> c \<noteq> CHR ''-'' \<and> c \<noteq> CHR ''+'' \<and> \<not> isspace c"
  by (auto simp: is_digit_def isspace_def chr_code_def)

lemma show_int_no_space: "dropWhile isspace (show_int n @ rest) = show_int n @ rest"
  using show_nat_hd[of "nat n"] digit_not_sign
  by (auto simp: show_int_def) (simp add: isspace_def chr_code_def)

lemma signed_val_show_int: "no_digit_head rest \<Longrightarrow> signed_val (show_int n @ rest) = n"
proof (cases "n < 0")
  case True
  then show "no_digit_head rest \<Longrightarrow> ?thesis"
    by (simp add: show_int_def signed_val_def digits_val_show_nat_rest)
next
  case False
  obtain c cs where c: "show_nat (nat n) = c # cs" "is_digit c"
    using show_nat_hd by blast
  assume "no_digit_head rest"
  then have "digits_val 0 (c # cs @ rest) = nat n"
    using digits_val_show_nat_rest[of rest "nat n"] c by simp
  with False c digit_not_sign[OF c(2)] show ?thesis
    by (simp add: show_int_def signed_val_def)
qed

lemma atoi_show_int: "no_digit_head rest \<Longrightarrow> atoi (show_int n @ rest) = n"
  by (simp add: atoi_def show_int_no_space signed_val_show_int)

lemma takeWhile_digits: "\<forall>c \<in> set ds. is_digit c \<Longrightarrow> no_digit_head rest \<Longrightarrow>
    takeWhile is_digit (ds @ rest) = ds \<and> dropWhile is_digit (ds @ rest) = rest"
  by (cases rest) (auto simp: takeWhile_append dropWhile_append)

lemma skip_sign_show_int: "\<exists>ds. skip_sign (show_int n @ rest) = ds @ rest
    \<and> ds \<noteq> [] \<and> (\<forall>c \<in> set ds. is_digit c)"
proof (cases "n < 0")
  case True
  then show ?thesis
    using show_nat_digits by (auto simp: show_int_def skip_sign_def)
next
  case False
  obtain c cs where c: "show_nat (nat n) = c # cs" "is_digit c"
    using show_nat_hd by blast
  with False digit_not_sign[OF c(2)] have "skip_sign (show_int n @ rest) = show_nat (nat n) @ rest"
    by (simp add: show_int_def skip_sign_def)
  then show ?thesis using show_nat_digits show_nat_nonempty by blast
qed

lemma scan_int_show_int:
  assumes "no_digit_head rest"
  shows "scan_int (show_int n @ rest) = Some (n, rest)"
proof -
  obtain ds where ds: "skip_sign (show_int n @ rest) = ds @ rest" "ds \<noteq> []"
    "\<forall>c \<in> set ds. is_digit c"
    using skip_sign_show_int by blast
  with takeWhile_digits[OF ds(3) assms] show ?thesis
    by (simp add: scan_int_def show_int_no_space signed_val_show_int[OF assms] Let_def)
qed

lemma scan_int_pair_show: "scan_int_pair (show_int x @ CHR '','' # show_int y) = Some (x, y)"
  using scan_int_show_int[of "CHR '','' # show_int y" x] scan_int_show_int[of "[]" y]
  by (simp add: scan_int_pair_def)

lemma show_int_chars: "c \<in> set (show_int n) \<Longrightarrow> is_digit c \<or> c = CHR ''-''"
  using show_nat_digits by (auto simp: show_int_def split: if_splits)

lemma show_int_no_sep: "CHR '','' \<notin> set (show_int n)" "CHR ''|'' \<notin> set (show_int n)"
  using show_int_chars not_digit_codes by fastforce+

section \<open>sdscmp is the lexicographic order on bytes\<close>

lemma chr_code_inj [simp]: "chr_code a = chr_code b \<longleftrightarrow> a = b"
  by (simp add: chr_code_def)

lemma chr_code_less: "chr_code a < chr_code b \<longleftrightarrow> a < b"
  by (simp add: chr_code_def less_char_def)

lemma sdscmp_0 [simp]: "sdscmp a b = 0 \<longleftrightarrow> a = b"
  by (induction a b rule: sdscmp.induct) auto

lemma sdscmp_neg: "sdscmp a b < 0 \<longleftrightarrow> a < b"
proof (induction a b rule: sdscmp.induct)
  case (4 a as b bs)
  then show ?case using chr_code_less[of a b] by auto
qed auto

lemma sdscmp_pos: "0 < sdscmp a b \<longleftrightarrow> b < a"
  using sdscmp_0[of a b] sdscmp_neg[of a b] by (metis less_linear not_less_iff_gr_or_eq)

end
