(* ===== verification/SkiplistRep.thy ===== *)
theory SkiplistRep
  imports Skiplist
begin

text \<open>
  When a heap represents a sequence of nodes: every forward pointer of level \<open>i\<close> leads to the
  next node taller than \<open>i\<close> and its span is the distance to it. The searches are shown to
  return and to find, for every level, the last tall enough node before the key.
\<close>

record snode =
  sn_addr :: addr
  sn_ele :: sds
  sn_score :: dbl
  sn_ht :: nat

primrec nxt :: "nat \<Rightarrow> snode list \<Rightarrow> addr option \<times> int" where
  "nxt i [] = (None, 0)"
| "nxt i (n # ns) =
     (if i < sn_ht n then (Some (sn_addr n), 1) else (fst (nxt i ns), snd (nxt i ns) + 1))"

definition pred_addr :: "snode list \<Rightarrow> addr option" where
  "pred_addr p = (if p = [] then None else Some (sn_addr (last p)))"

definition pos_addr :: "addr \<Rightarrow> snode list \<Rightarrow> addr" where
  "pos_addr hdr p = (case pred_addr p of None \<Rightarrow> hdr | Some a \<Rightarrow> a)"

definition ht_at :: "nat \<Rightarrow> snode list \<Rightarrow> nat" where
  "ht_at lev p = (if p = [] then lev else sn_ht (last p))"

definition dat :: "zheap \<Rightarrow> addr \<Rightarrow> (sds option \<times> dbl \<times> addr option \<times> nat) option" where
  "dat h a = map_option (\<lambda>nd. (zn_ele nd, zn_score nd, zn_backward nd, zn_alloc nd)) (h a)"

text \<open>The links of the sequence, level by level, from the header on.\<close>

definition links :: "zheap \<Rightarrow> addr \<Rightarrow> nat \<Rightarrow> snode list \<Rightarrow> bool" where
  "links h hdr lev L \<longleftrightarrow>
     (\<forall>p s i. L = p @ s \<longrightarrow> i < ht_at lev p \<longrightarrow> zn_level h (pos_addr hdr p) i = Some (nxt i s))"

definition node_data :: "zheap \<Rightarrow> snode list \<Rightarrow> bool" where
  "node_data h L \<longleftrightarrow>
     (\<forall>p n s. L = p @ n # s \<longrightarrow>
        dat h (sn_addr n) = Some (Some (sn_ele n), sn_score n, pred_addr p, sn_ht n))"

definition zsl_rep :: "zskiplist \<Rightarrow> snode list \<Rightarrow> bool" where
  "zsl_rep zsl L \<longleftrightarrow>
     distinct (zsl_header zsl # map sn_addr L) \<and>
     (\<forall>a \<in> set (zsl_header zsl # map sn_addr L). a < zsl_fresh zsl) \<and>
     node_data (zsl_nodes zsl) L \<and>
     (\<exists>sc. dat (zsl_nodes zsl) (zsl_header zsl) = Some (None, sc, None, ZSKIPLIST_MAXLEVEL)) \<and>
     links (zsl_nodes zsl) (zsl_header zsl) (zsl_level zsl) L \<and>
     (\<forall>i. zsl_level zsl \<le> i \<longrightarrow> i < ZSKIPLIST_MAXLEVEL \<longrightarrow>
        (\<exists>s. zn_level (zsl_nodes zsl) (zsl_header zsl) i = Some (None, s))) \<and>
     zsl_tail zsl = pred_addr L \<and> zsl_length zsl = int (length L) \<and>
     1 \<le> zsl_level zsl \<and> zsl_level zsl \<le> ZSKIPLIST_MAXLEVEL \<and>
     (\<forall>n \<in> set L. 1 \<le> sn_ht n \<and> sn_ht n \<le> zsl_level zsl)"

section \<open>Basic facts\<close>

lemma pred_addr_simps [simp]: "pred_addr [] = None" "pred_addr (p @ [n]) = Some (sn_addr n)"
  by (simp_all add: pred_addr_def)

lemma pos_addr_simps [simp]: "pos_addr hdr [] = hdr" "pos_addr hdr (p @ [n]) = sn_addr n"
  by (simp_all add: pos_addr_def)

lemma ht_at_simps [simp]: "ht_at lev [] = lev" "ht_at lev (p @ [n]) = sn_ht n"
  by (simp_all add: ht_at_def)

lemma nxt_append_short:
  "\<forall>n \<in> set p. sn_ht n \<le> i \<Longrightarrow> nxt i (p @ s) = (fst (nxt i s), snd (nxt i s) + int (length p))"
  by (induction p) (auto simp: prod_eq_iff not_less)

lemma nxt_append_tall: "\<exists>n \<in> set p. i < sn_ht n \<Longrightarrow> nxt i (p @ s) = nxt i p"
  by (induction p) (auto simp: prod_eq_iff)

lemma nxt_None: "\<forall>n \<in> set s. sn_ht n \<le> i \<Longrightarrow> nxt i s = (None, int (length s))"
  using nxt_append_short[of s i "[]"] by simp

lemma nxt_fst_None: "fst (nxt i s) = None \<longleftrightarrow> (\<forall>n \<in> set s. sn_ht n \<le> i)"
  by (induction s) (auto simp: not_less)

lemma nxt_0: "sn_ht n \<ge> 1 \<Longrightarrow> nxt 0 (n # s) = (Some (sn_addr n), 1)"
  by simp

lemma snoc_split_cases:
  assumes "p @ s = pre @ n # suf"
  obtains p2 where "pre = p @ p2" "s = p2 @ n # suf"
  | p2 where "p = pre @ n # p2" "suf = p2 @ s"
  using assms by (auto simp: append_eq_append_conv2 append_eq_Cons_conv Cons_eq_append_conv)

lemma append_split_cases:
  assumes "pre @ suf = p @ s"
  obtains p2 where "pre = p @ p2" "s = p2 @ suf"
  | p2 where "p = pre @ p2" "suf = p2 @ s" "p2 \<noteq> []"
proof -
  obtain us where "pre = p @ us \<and> us @ suf = s \<or> pre @ us = p \<and> suf = us @ s"
    using assms unfolding append_eq_append_conv2 by blast
  then show thesis using that by (cases "us = []") auto
qed

lemma append_mid_cases:
  assumes "pre @ suf = p @ m # s"
  obtains p2 where "pre = p @ m # p2" "s = p2 @ suf"
  | "p = pre" "suf = m # s"
  | p2 where "p = pre @ p2" "suf = p2 @ m # s" "p2 \<noteq> []"
  using assms
proof (cases rule: append_split_cases)
  case (1 p2)
  then show thesis using that by (cases p2) auto
qed (use that in blast)

text \<open>Different positions of a sequence have different addresses.\<close>

lemma pos_addr_inj:
  assumes "distinct (hdr # map sn_addr L)" and "L = p @ s" and "L = q @ t"
    and "pos_addr hdr p = pos_addr hdr q"
  shows "p = q"
proof (cases p rule: rev_cases; cases q rule: rev_cases)
  fix p' n q' m
  assume pq: "p = p' @ [n]" "q = q' @ [m]"
  have "map sn_addr L ! length p' = sn_addr n" "length p' < length L"
    using assms(2) pq by (simp_all add: nth_append)
  moreover have "map sn_addr L ! length q' = sn_addr m" "length q' < length L"
    using assms(3) pq by (simp_all add: nth_append)
  moreover have "sn_addr n = sn_addr m" using assms(4) pq by simp
  ultimately have "length p' = length q'"
    using assms(1) nth_eq_iff_index_eq[of "map sn_addr L" "length p'" "length q'"] by auto
  then show "p = q" using pq assms(2,3) by (metis append_eq_append_conv length_append_singleton)
qed (use assms in auto)

lemma pos_addr_in: "pos_addr hdr p \<in> set (hdr # map sn_addr p)"
  by (cases p rule: rev_cases) auto

section \<open>Reading and writing the heap\<close>

lemma zn_level_upd:
  "zn_level (h(x \<mapsto> nd)) y i =
     (if y = x then (if i < zn_alloc nd then Some (zn_forward nd i, zn_span nd i) else None)
      else zn_level h y i)"
  by (simp add: zn_level_def)

lemma dat_upd: "dat (h(x \<mapsto> nd)) y =
  (if y = x then Some (zn_ele nd, zn_score nd, zn_backward nd, zn_alloc nd) else dat h y)"
  by (simp add: dat_def)

lemma set_level_ok:
  assumes "zn_level h x i = Some l"
  shows "\<exists>h'. set_level x i f s h = Some h' \<and> dat h' = dat h \<and>
    (\<forall>y j. zn_level h' y j = (if y = x \<and> j = i then Some (f, s) else zn_level h y j))"
proof -
  obtain nd where nd: "h x = Some nd" "i < zn_alloc nd"
    using assms by (auto simp: zn_level_def split: option.splits if_splits)
  have "dat (h(x \<mapsto> nd\<lparr>zn_forward := (zn_forward nd)(i := f), zn_span := (zn_span nd)(i := s)\<rparr>)) = dat h"
    using nd by (auto simp: dat_def fun_eq_iff)
  then show ?thesis using nd by (auto simp: set_level_def zn_level_upd zn_level_def)
qed

lemma set_backward_ok:
  assumes "dat h x = Some (e, sc, b', k)"
  shows "\<exists>h'. set_backward x b h = Some h' \<and> dat h' = (dat h)(x \<mapsto> (e, sc, b, k)) \<and>
    (\<forall>y j. zn_level h' y j = zn_level h y j)"
proof -
  obtain nd where nd: "h x = Some nd" "zn_ele nd = e" "zn_score nd = sc" "zn_alloc nd = k"
    using assms by (auto simp: dat_def)
  then show ?thesis
    by (intro exI[of _ "h(x \<mapsto> nd\<lparr>zn_backward := b\<rparr>)"])
      (auto simp: set_backward_def dat_upd fun_eq_iff zn_level_upd zn_level_def)
qed

text \<open>A loop over levels whose round \<open>i\<close> only rewrites level \<open>i\<close> of the nodes \<open>A i\<close>.\<close>

lemma levels_loop:
  assumes body: "\<And>i g. a \<le> i \<Longrightarrow> i < b \<Longrightarrow> dat g = dat h \<Longrightarrow>
      (\<And>y j. i \<le> j \<Longrightarrow> zn_level g y j = zn_level h y j) \<Longrightarrow>
      \<exists>g'. f i g = Some g' \<and> dat g' = dat g \<and>
        (\<forall>y j. zn_level g' y j = (if j = i \<and> y \<in> A i then Some (F i y) else zn_level g y j))"
  shows "\<exists>h'. for_range f a b h = Some h' \<and> dat h' = dat h \<and>
    (\<forall>y j. zn_level h' y j = (if a \<le> j \<and> j < b \<and> y \<in> A j then Some (F j y) else zn_level h y j))"
proof -
  have "\<exists>h'. for_loop f i n g = Some h' \<and> dat h' = dat g \<and>
      (\<forall>y j. zn_level h' y j = (if i \<le> j \<and> j < i + n \<and> y \<in> A j then Some (F j y) else zn_level g y j))"
    if "a \<le> i" "i + n \<le> b" "dat g = dat h" "\<And>y j. i \<le> j \<Longrightarrow> zn_level g y j = zn_level h y j" for i n g
    using that
  proof (induction n arbitrary: i g)
    case 0
    then show ?case by (auto simp: not_less)
  next
    case (Suc n)
    obtain g' where g': "f i g = Some g'" "dat g' = dat g"
      "\<forall>y j. zn_level g' y j = (if j = i \<and> y \<in> A i then Some (F i y) else zn_level g y j)"
      using body[of i g] Suc.prems by auto
    obtain h' where h': "for_loop f (Suc i) n g' = Some h'" "dat h' = dat g'"
      "\<forall>y j. zn_level h' y j =
        (if Suc i \<le> j \<and> j < Suc i + n \<and> y \<in> A j then Some (F j y) else zn_level g' y j)"
      using Suc.IH[of "Suc i" g'] Suc.prems g' by auto
    have "zn_level h' y j =
        (if i \<le> j \<and> j < i + Suc n \<and> y \<in> A j then Some (F j y) else zn_level g y j)" for y j
      using h'(3) g'(3) by (cases "j = i") auto
    then show ?case using g' h' by simp
  qed
  from this[of a "b - a" h] show ?thesis by (cases "a \<le> b") (auto simp: for_range_def)
qed

section \<open>The search\<close>

text \<open>The prefix of \<open>p\<close> up to its last node taller than \<open>i\<close>.\<close>

definition upto_tall :: "nat \<Rightarrow> snode list \<Rightarrow> snode list" where
  "upto_tall i p = rev (dropWhile (\<lambda>n. sn_ht n \<le> i) (rev p))"

lemma upto_tall_simps [simp]:
  "upto_tall i [] = []"
  "upto_tall i (p @ [n]) = (if i < sn_ht n then p @ [n] else upto_tall i p)"
  by (simp_all add: upto_tall_def)

lemma upto_tall_split:
  "\<exists>q. p = upto_tall i p @ q \<and> (\<forall>n \<in> set q. sn_ht n \<le> i)"
proof (induction p rule: rev_induct)
  case (snoc n p)
  then obtain q where "p = upto_tall i p @ q" "\<forall>n \<in> set q. sn_ht n \<le> i" by blast
  then show ?case by (cases "i < sn_ht n") (auto intro!: exI[of _ "q @ [n]"])
qed simp

lemma ht_upto_tall: "i < lev \<Longrightarrow> i < ht_at lev (upto_tall i p)"
  by (induction p rule: rev_induct) auto

lemma upto_tall_last: "upto_tall i p = [] \<or> i < sn_ht (last (upto_tall i p))"
  by (induction p rule: rev_induct) auto

lemma upto_tall_append:
  "p = [] \<or> i < sn_ht (last p) \<Longrightarrow> upto_tall i (p @ q) = p @ upto_tall i q"
proof (induction q rule: rev_induct)
  case Nil
  then show ?case by (cases p rule: rev_cases) auto
next
  case (snoc n q)
  then show ?case by (simp flip: append_assoc)
qed

lemma upto_tall_short: "\<forall>n \<in> set q. sn_ht n \<le> i \<Longrightarrow> upto_tall i q = []"
  by (simp add: upto_tall_def)

lemma upto_tall_eq:
  "\<forall>n \<in> set q. sn_ht n \<le> i \<Longrightarrow> p = [] \<or> i < sn_ht (last p) \<Longrightarrow> upto_tall i (p @ q) = p"
  by (simp add: upto_tall_append upto_tall_short)

text \<open>The nodes before a key, as the searches compare them.\<close>

definition sn_before :: "dbl \<Rightarrow> sds \<Rightarrow> snode \<Rightarrow> bool" where
  "sn_before score ele n \<longleftrightarrow> dlt (sn_score n) score \<or> deq (sn_score n) score \<and> sdscmp (sn_ele n) ele < 0"

lemma node_dataD:
  "node_data h L \<Longrightarrow> L = p @ n # s \<Longrightarrow>
   dat h (sn_addr n) = Some (Some (sn_ele n), sn_score n, pred_addr p, sn_ht n)"
  by (simp add: node_data_def)

lemma linksD:
  "links h hdr lev L \<Longrightarrow> L = p @ s \<Longrightarrow> i < ht_at lev p \<Longrightarrow>
   zn_level h (pos_addr hdr p) i = Some (nxt i s)"
  by (simp add: links_def)

lemma node_data_in:
  assumes "node_data h L" and "n \<in> set L"
  shows "\<exists>nd. h (sn_addr n) = Some nd \<and> zn_ele nd = Some (sn_ele n) \<and> zn_score nd = sn_score n \<and>
    zn_alloc nd = sn_ht n"
proof -
  obtain p s where "L = p @ n # s" using assms(2) by (meson split_list)
  then show ?thesis using assms(1) by (auto simp: node_data_def dat_def)
qed

lemma zn_before_eq:
  assumes "zn_ele nd = Some (sn_ele n)" and "zn_score nd = sn_score n"
  shows "zn_before score ele nd = Some (sn_before score ele n)"
  using assms by (auto simp: zn_before_def sn_before_def)

lemma nxt_Some_split:
  "nxt i s = (Some a, k) \<Longrightarrow>
   \<exists>q n s'. s = q @ n # s' \<and> sn_addr n = a \<and> i < sn_ht n \<and> (\<forall>m \<in> set q. sn_ht m \<le> i) \<and>
     k = int (length q) + 1"
proof (induction s arbitrary: k)
  case (Cons m s)
  show ?case
  proof (cases "i < sn_ht m")
    case True
    with Cons.prems show ?thesis by (intro exI[of _ "[]"]) auto
  next
    case False
    with Cons obtain q n s' where "s = q @ n # s'" "sn_addr n = a" "i < sn_ht n"
      "\<forall>m \<in> set q. sn_ht m \<le> i" "snd (nxt i s) = int (length q) + 1"
      by (metis fst_conv nxt.simps(2) prod.collapse snd_conv)
    with False Cons.prems show ?thesis by (intro exI[of _ "m # q"]) auto
  qed
qed simp

lemma zsl_walk_ok:
  assumes "node_data h L" and "links h hdr lev L" and "L = p1 @ p2 @ suf" and "i < ht_at lev p1"
    and "\<forall>n \<in> set p2. sn_before score ele n" and "\<forall>n \<in> set suf. \<not> sn_before score ele n"
  shows "zsl_walk h score ele i (pos_addr hdr p1) r =
    (let q = upto_tall i p2 in Some (pos_addr hdr (p1 @ q), r + int (length q)))"
  using assms(3-5)
proof (induction "length p2" arbitrary: p1 p2 r rule: less_induct)
  case less
  have lev: "zn_level h (pos_addr hdr p1) i = Some (nxt i (p2 @ suf))"
    using assms(2) less.prems by (simp add: links_def)
  show ?case
  proof (cases "\<exists>n \<in> set p2. i < sn_ht n")
    case False
    then have short: "\<forall>n \<in> set p2. sn_ht n \<le> i" by (auto simp: not_less)
    then have ut: "upto_tall i p2 = []" using upto_tall_eq[of p2 i "[]"] by simp
    show ?thesis
    proof (cases "nxt i (p2 @ suf)")
      case (Pair f k)
      show ?thesis
      proof (cases f)
        case None
        then show ?thesis using lev Pair ut by (subst zsl_walk.simps) simp
      next
        case (Some a)
        then obtain q n s' where n: "p2 @ suf = q @ n # s'" "sn_addr n = a" "i < sn_ht n"
          using nxt_Some_split Pair by metis
        then have "n \<in> set (p2 @ suf)" by simp
        then have "n \<in> set suf" using short n(3) by auto
        then have "n \<in> set L" "\<not> sn_before score ele n" using less.prems(1) assms(6) by auto
        with node_data_in[OF assms(1), of n] n(2) zn_before_eq[of _ n score ele] Some lev Pair ut
        show ?thesis by (subst zsl_walk.simps) auto
      qed
    qed
  next
    case True
    then have "nxt i (p2 @ suf) = nxt i p2" by (rule nxt_append_tall)
    moreover obtain a k where ak: "nxt i p2 = (Some a, k)"
      using True nxt_fst_None[of i p2] by (cases "nxt i p2") (auto simp: not_less)
    moreover obtain q n s' where n: "p2 = q @ n # s'" "sn_addr n = a" "i < sn_ht n"
      "\<forall>m \<in> set q. sn_ht m \<le> i" "k = int (length q) + 1"
      using nxt_Some_split[OF ak] by blast
    moreover have "n \<in> set L" "sn_before score ele n" using less.prems n(1) by auto
    moreover obtain nd where "h a = Some nd" "zn_before score ele nd = Some True"
      using node_data_in[OF assms(1), of n] zn_before_eq[of _ n] calculation by metis
    ultimately have "zsl_walk h score ele i (pos_addr hdr p1) r = zsl_walk h score ele i a (r + k)"
      using lev by (subst zsl_walk.simps) simp
    also have "\<dots> = zsl_walk h score ele i (pos_addr hdr (p1 @ q @ [n])) (r + k)"
      using n(2) pos_addr_simps(2)[of hdr "p1 @ q" n] by simp
    also have "\<dots> = (let q' = upto_tall i s' in
        Some (pos_addr hdr ((p1 @ q @ [n]) @ q'), r + k + int (length q')))"
      using less.prems n(1,3) ht_at_simps(2)[of lev "p1 @ q" n]
      by (intro less.hyps) auto
    also have "upto_tall i p2 = q @ n # upto_tall i s'"
    proof -
      obtain z where "s' = upto_tall i s' @ z" "\<forall>m \<in> set z. sn_ht m \<le> i" using upto_tall_split by blast
      moreover have "i < sn_ht (last (q @ n # upto_tall i s'))"
        using n(3) ht_upto_tall[of i "sn_ht n" s'] by (auto simp: ht_at_def)
      ultimately show ?thesis
        using upto_tall_eq[of z i "q @ n # upto_tall i s'"] n(1) by (metis append_Cons append_assoc)
    qed
    ultimately show ?thesis using n(5) by (simp add: Let_def algebra_simps)
  qed
qed

lemma zsl_search_ok:
  assumes nd: "node_data h L" and lk: "links h hdr lev L" and L: "L = pre @ suf" and "k \<le> lev"
    and bf: "\<forall>n \<in> set pre. sn_before score ele n" "\<forall>n \<in> set suf. \<not> sn_before score ele n"
  shows "zsl_search h score ele k (pos_addr hdr (upto_tall k pre)) (int (length (upto_tall k pre))) =
    Some (map (\<lambda>i. (pos_addr hdr (upto_tall i pre), int (length (upto_tall i pre)))) [0..<k])"
  using assms(4)
proof (induction k)
  case (Suc k)
  let ?p = "upto_tall (Suc k) pre"
  obtain q where q: "pre = ?p @ q" using upto_tall_split by blast
  have tall: "?p = [] \<or> k < sn_ht (last ?p)" using upto_tall_last[of "Suc k" pre] by auto
  then have ht: "k < ht_at lev ?p" using Suc.prems by (auto simp: ht_at_def)
  have ut: "upto_tall k pre = ?p @ upto_tall k q"
    using upto_tall_append[OF tall, of q] q by simp
  have "zsl_walk h score ele k (pos_addr hdr ?p) (int (length ?p)) =
      (let u = upto_tall k q in Some (pos_addr hdr (?p @ u), int (length ?p) + int (length u)))"
    using L q bf by (intro zsl_walk_ok[OF nd lk, of _ q suf]) (auto simp: ht dest: arg_cong[of _ _ set])
  then show ?case using Suc ut by (simp add: Let_def)
qed simp

end
