(* ===== verification/SkiplistOps.thy ===== *)
theory SkiplistOps
  imports SkiplistRep
begin

text \<open>
  The refinement of the skip list operations: \<open>zslInsert\<close>, \<open>zslDelete\<close> and \<open>zslUpdateScore\<close>
  return on every represented list and act on the sequence of nodes as insertion, deletion and
  replacement at the position of the key.
\<close>

section \<open>Linking a new node\<close>

text \<open>The links after an insertion, given what the two loops did to the levels: \<open>w i\<close> is the
  part of \<open>pre\<close> after the predecessor of level \<open>i\<close>.\<close>

lemma links_insert:
  assumes lk: "links h hdr lev (pre @ suf)" and dist: "distinct (hdr # map sn_addr (pre @ suf))"
    and new: "sn_addr n \<notin> set (hdr # map sn_addr (pre @ suf))"
    and w: "\<And>i. pre = upto_tall i pre @ w i"
    and h': "\<And>y i. zn_level h' y i =
      (if y = sn_addr n \<and> i < sn_ht n then Some (nxt i suf)
       else if i < lev \<and> y = pos_addr hdr (upto_tall i pre) then Some (nxt i (w i @ n # suf))
       else zn_level h y i)"
    and hts: "\<forall>m \<in> set (pre @ suf). sn_ht m \<le> lev" "sn_ht n \<le> lev"
  shows "links h' hdr lev (pre @ n # suf)"
  unfolding links_def
proof (intro allI impI)
  fix p s i
  assume split: "pre @ n # suf = p @ s" and i: "i < ht_at lev p"
  note old = linksD[OF lk]
  have ilev: "i < lev"
    using i hts split by (cases p rule: rev_cases) (auto simp: append_eq_append_conv2 append_eq_Cons_conv Cons_eq_append_conv)
  from split[symmetric] show "zn_level h' (pos_addr hdr p) i = Some (nxt i s)"
  proof (cases rule: snoc_split_cases)
    case (1 p2)
    have "sn_addr n \<notin> set (hdr # map sn_addr p)" using new 1 by auto
    then have pn: "pos_addr hdr p \<noteq> sn_addr n" using pos_addr_in by metis
    show ?thesis
    proof (cases "p = upto_tall i pre")
      case True
      then have "w i = p2" using w[of i] 1 by (metis same_append_eq)
      then show ?thesis using h' True ilev 1 pn by simp
    next
      case False
      have "pos_addr hdr p \<noteq> pos_addr hdr (upto_tall i pre)"
        using False pos_addr_inj[OF dist, of p "p2 @ suf" "upto_tall i pre" "w i @ suf"] 1 w[of i]
        by (metis append_assoc)
      moreover have "\<exists>m \<in> set p2. i < sn_ht m"
        using False upto_tall_eq[of p2 i p] i 1 by (fastforce simp: ht_at_def not_less split: if_splits)
      ultimately show ?thesis
        using h' pn old[of p "p2 @ suf"] 1 i by (simp add: nxt_append_tall)
    qed
  next
    case (2 p2)
    show ?thesis
    proof (cases p2 rule: rev_cases)
      case Nil
      then show ?thesis using 2 h' i by simp
    next
      case (snoc q m)
      have m: "pos_addr hdr p = sn_addr m" "ht_at lev (pre @ p2) = sn_ht m"
        "pos_addr hdr (pre @ p2) = sn_addr m" "ht_at lev p = sn_ht m"
        using 2 snoc pos_addr_simps(2)[of hdr "pre @ n # q" m] pos_addr_simps(2)[of hdr "pre @ q" m]
          ht_at_simps(2)[of lev "pre @ n # q" m] ht_at_simps(2)[of lev "pre @ q" m] by auto
      have "sn_addr m \<noteq> sn_addr n" using new 2 snoc by auto
      moreover have "upto_tall i pre \<noteq> pre @ p2"
        using w[of i] snoc by (metis append_is_Nil_conv append_self_conv append.assoc not_Cons_self2)
      then have "pos_addr hdr (pre @ p2) \<noteq> pos_addr hdr (upto_tall i pre)"
        using pos_addr_inj[OF dist, of "pre @ p2" s "upto_tall i pre" "w i @ suf"] 2 w[of i]
        by (metis append_assoc)
      ultimately show ?thesis
        using h' m old[of "pre @ p2" s] 2 i by simp
    qed
  qed
qed

lemma node_data_insert:
  assumes nd: "node_data h (pre @ suf)" and dist: "distinct (map sn_addr (pre @ suf))"
    and new: "sn_addr n \<notin> set (map sn_addr (pre @ suf))"
    and x: "dat h' (sn_addr n) = Some (Some (sn_ele n), sn_score n, pred_addr pre, sn_ht n)"
    and y: "\<And>y s. suf = y # s \<Longrightarrow>
      dat h' (sn_addr y) = Some (Some (sn_ele y), sn_score y, Some (sn_addr n), sn_ht y)"
    and rest: "\<And>m. m \<in> set (pre @ tl suf) \<Longrightarrow> dat h' (sn_addr m) = dat h (sn_addr m)"
  shows "node_data h' (pre @ n # suf)"
  unfolding node_data_def
proof (intro allI impI)
  fix p m s
  assume "pre @ n # suf = p @ m # s"
  then have "p @ (m # s) = pre @ n # suf" by simp
  then show "dat h' (sn_addr m) = Some (Some (sn_ele m), sn_score m, pred_addr p, sn_ht m)"
  proof (cases rule: snoc_split_cases)
    case (1 p2)
    show ?thesis
    proof (cases p2)
      case Nil
      then show ?thesis using 1 x by simp
    next
      case (Cons m' q)
      then have "pre @ suf = p @ m # (q @ suf)" using 1 by simp
      then show ?thesis using nd rest[of m] 1 Cons by (simp add: node_data_def)
    qed
  next
    case (2 p2)
    show ?thesis
    proof (cases p2 rule: rev_cases)
      case Nil
      then show ?thesis using 2 y[of m s] pred_addr_simps(2)[of pre n] by simp
    next
      case (snoc q k)
      have "pred_addr (pre @ p2) = pred_addr p"
        using 2 snoc pred_addr_simps(2)[of "pre @ n # q" k] pred_addr_simps(2)[of "pre @ q" k] by simp
      moreover have "pre @ suf = (pre @ p2) @ m # s" using 2 by simp
      moreover have "m \<in> set (tl suf)" using 2 snoc by (cases q) auto
      ultimately show ?thesis using node_dataD[OF nd, of "pre @ p2" m s] rest[of m] by simp
    qed
  qed
qed

section \<open>Insertion\<close>

lemma random_loop_ge: "level \<le> fst (random_loop rs level)"
proof (induction rs level rule: random_loop.induct)
  case (2 r rs level)
  then show ?case by (auto simp: Let_def)
qed simp

lemma zslRandomLevel_range:
  "1 \<le> fst (zslRandomLevel rs)" "fst (zslRandomLevel rs) \<le> ZSKIPLIST_MAXLEVEL"
  using random_loop_ge[of 1 rs] by (auto simp: zslRandomLevel_def split: prod.splits)

lemma zsl_repD:
  assumes "zsl_rep zsl L"
  shows "distinct (zsl_header zsl # map sn_addr L)" "zsl_fresh zsl \<notin> set (zsl_header zsl # map sn_addr L)"
    "node_data (zsl_nodes zsl) L" "links (zsl_nodes zsl) (zsl_header zsl) (zsl_level zsl) L"
    "\<forall>n \<in> set L. 1 \<le> sn_ht n" "\<forall>n \<in> set L. sn_ht n \<le> zsl_level zsl"
    "1 \<le> zsl_level zsl" "zsl_level zsl \<le> ZSKIPLIST_MAXLEVEL" "zsl_length zsl = int (length L)"
    "zsl_tail zsl = pred_addr L"
  using assms by (auto simp: zsl_rep_def)

lemma upto_tall_level: "\<forall>n \<in> set p. sn_ht n \<le> lev \<Longrightarrow> lev \<le> i \<Longrightarrow> upto_tall i p = []"
  by (rule upto_tall_short) auto

lemma upto_tall_0: "\<forall>n \<in> set p. 1 \<le> sn_ht n \<Longrightarrow> upto_tall 0 p = p"
  by (cases p rule: rev_cases) auto

text \<open>The arrays \<open>update\<close> and \<open>rank\<close> of a search, for the levels below \<open>k\<close>.\<close>

definition found_path :: "addr \<Rightarrow> snode list \<Rightarrow> nat \<Rightarrow> (addr \<times> int) list" where
  "found_path hdr pre k = map (\<lambda>i. (pos_addr hdr (upto_tall i pre), int (length (upto_tall i pre)))) [0..<k]"

lemma zsl_search_found:
  assumes rep: "zsl_rep zsl (pre @ suf)"
    and "\<forall>n \<in> set pre. sn_before score ele n" "\<forall>n \<in> set suf. \<not> sn_before score ele n"
  shows "zsl_search (zsl_nodes zsl) score ele (zsl_level zsl) (zsl_header zsl) 0 =
    Some (found_path (zsl_header zsl) pre (zsl_level zsl))"
  using zsl_search_ok[OF zsl_repD(3)[OF rep] zsl_repD(4)[OF rep] refl order_refl assms(2,3)]
    zsl_repD(6)[OF rep] upto_tall_level[of pre "zsl_level zsl" "zsl_level zsl"]
  by (simp add: found_path_def)

lemma found_path_extend:
  assumes "\<forall>n \<in> set pre. sn_ht n \<le> lev"
  shows "found_path hdr pre lev @ replicate (k - lev) (hdr, 0) = found_path hdr pre (max k lev)"
proof (rule nth_equalityI)
  fix i
  assume "i < length (found_path hdr pre lev @ replicate (k - lev) (hdr, 0))"
  then show "(found_path hdr pre lev @ replicate (k - lev) (hdr, 0)) ! i = found_path hdr pre (max k lev) ! i"
    using upto_tall_level[OF assms, of i] by (auto simp: found_path_def nth_append)
qed (simp add: found_path_def)

lemma found_path_nth [simp]:
  "i < k \<Longrightarrow> found_path hdr pre k ! i = (pos_addr hdr (upto_tall i pre), int (length (upto_tall i pre)))"
  by (simp add: found_path_def)

lemma zsl_raise_ok:
  assumes rep: "zsl_rep zsl L" and "level \<le> ZSKIPLIST_MAXLEVEL"
  shows "\<exists>h'. for_range (zsl_raise zsl) (zsl_level zsl) level (zsl_nodes zsl) = Some h' \<and>
    dat h' = dat (zsl_nodes zsl) \<and> links h' (zsl_header zsl) (max level (zsl_level zsl)) L \<and>
    (\<forall>i. max level (zsl_level zsl) \<le> i \<longrightarrow> i < ZSKIPLIST_MAXLEVEL \<longrightarrow>
       (\<exists>s. zn_level h' (zsl_header zsl) i = Some (None, s)))"
proof -
  let ?h = "zsl_nodes zsl" and ?hdr = "zsl_header zsl" and ?lev = "zsl_level zsl"
  have hd: "\<And>i. ?lev \<le> i \<Longrightarrow> i < ZSKIPLIST_MAXLEVEL \<Longrightarrow> \<exists>s. zn_level ?h ?hdr i = Some (None, s)"
    using rep by (simp add: zsl_rep_def)
  have body: "\<exists>g'. zsl_raise zsl i g = Some g' \<and> dat g' = dat g \<and>
      (\<forall>y j. zn_level g' y j =
        (if j = i \<and> y \<in> {?hdr} then Some (None, zsl_length zsl) else zn_level g y j))"
    if i: "?lev \<le> i" "i < level" and "dat g = dat ?h" and g: "\<And>y j. i \<le> j \<Longrightarrow> zn_level g y j = zn_level ?h y j" for i g
  proof -
    obtain s where s: "zn_level g ?hdr i = Some (None, s)" using hd[of i] i g assms(2) by auto
    from set_level_ok[OF s, of None "zsl_length zsl"] s show ?thesis
      by (auto simp: zsl_raise_def)
  qed
  have "\<exists>h'. for_range (zsl_raise zsl) ?lev level ?h = Some h' \<and> dat h' = dat ?h \<and>
    (\<forall>y j. zn_level h' y j =
      (if ?lev \<le> j \<and> j < level \<and> y \<in> {?hdr} then Some (None, zsl_length zsl) else zn_level ?h y j))"
    by (rule levels_loop) (fact body)
  then obtain h' where h': "for_range (zsl_raise zsl) ?lev level ?h = Some h'" "dat h' = dat ?h"
    "\<And>y j. zn_level h' y j =
      (if ?lev \<le> j \<and> j < level \<and> y = ?hdr then Some (None, zsl_length zsl) else zn_level ?h y j)"
    by auto
  have "links h' ?hdr (max level ?lev) L"
    unfolding links_def
  proof (intro allI impI)
    fix p s i
    assume L: "L = p @ s" and i: "i < ht_at (max level ?lev) p"
    show "zn_level h' (pos_addr ?hdr p) i = Some (nxt i s)"
    proof (cases "p = [] \<and> ?lev \<le> i")
      case True
      then have "nxt i s = (None, zsl_length zsl)"
        using L zsl_repD(6,9)[OF rep] nxt_None[of s i] by fastforce
      then show ?thesis using True h'(3) i L by (auto simp: max_def split: if_splits)
    next
      case False
      then have "i < ht_at ?lev p" "p = [] \<or> i < ?lev"
        using i L zsl_repD(6)[OF rep] by (auto simp: ht_at_def dest!: bspec[of _ _ "last p"])
      moreover have "p \<noteq> [] \<Longrightarrow> i < ?lev" using calculation False by auto
      ultimately show ?thesis
        using h'(3) linksD[OF zsl_repD(4)[OF rep] L] False by auto
    qed
  qed
  then show ?thesis using h' hd by auto
qed

text \<open>The two loops over the levels of the new node and above it.\<close>

lemma zsl_link_loop:
  assumes lk: "links h hdr lev (pre @ suf)" and one: "\<forall>m \<in> set pre. 1 \<le> sn_ht m"
    and x: "x \<notin> set (hdr # map sn_addr (pre @ suf))" "\<And>i. i < ht \<Longrightarrow> \<exists>l. zn_level h x i = Some l"
    and ht: "1 \<le> ht" "ht \<le> lev" and w: "\<And>i. pre = upto_tall i pre @ w i"
    and short: "\<And>i. \<forall>m \<in> set (w i). sn_ht m \<le> i"
  shows "\<exists>h'. for_range (zsl_link x (found_path hdr pre lev)) 0 ht h = Some h' \<and> dat h' = dat h \<and>
    (\<forall>y i. zn_level h' y i =
      (if i < ht \<and> y = x then Some (nxt i suf)
       else if i < ht \<and> y = pos_addr hdr (upto_tall i pre) then Some (Some x, int (length (w i)) + 1)
       else zn_level h y i))"
proof -
  let ?u = "\<lambda>i. pos_addr hdr (upto_tall i pre)"
  let ?F = "\<lambda>i y. if y = x then nxt i suf else (Some x, int (length (w i)) + 1)"
  have ux: "?u i \<noteq> x" for i
  proof -
    have "set (upto_tall i pre) \<subseteq> set pre" using w[of i] by (metis Un_upper1 set_append)
    then have "x \<notin> set (hdr # map sn_addr (upto_tall i pre))" using x(1) by auto
    then show ?thesis using pos_addr_in by metis
  qed
  have r0: "snd (found_path hdr pre lev ! 0) = int (length pre)"
    using ht upto_tall_0[OF one] by simp
  have len: "int (length pre) = int (length (upto_tall i pre)) + int (length (w i))" for i
    using w[of i] by (metis length_append of_nat_add)
  have body: "\<exists>g'. zsl_link x (found_path hdr pre lev) i g = Some g' \<and> dat g' = dat g \<and>
      (\<forall>y j. zn_level g' y j = (if j = i \<and> y \<in> {x, ?u i} then Some (?F i y) else zn_level g y j))"
    if i: "0 \<le> i" "i < ht" and "dat g = dat h" and g: "\<And>y j. i \<le> j \<Longrightarrow> zn_level g y j = zn_level h y j" for i g
  proof -
    have u: "zn_level g (?u i) i = Some (fst (nxt i suf), snd (nxt i suf) + int (length (w i)))"
      using linksD[OF lk, of "upto_tall i pre" "w i @ suf" i] w[of i] ht_upto_tall[of i lev pre] i ht(2) g
        nxt_append_short[OF short, of i suf] by (metis append_assoc le_refl order_less_le_trans)
    obtain l where l: "zn_level g x i = Some l" using x(2)[of i] i g by auto
    obtain g1 where g1: "set_level x i (fst (nxt i suf)) (snd (nxt i suf)) g = Some g1" "dat g1 = dat g"
      "\<forall>y j. zn_level g1 y j = (if y = x \<and> j = i then Some (nxt i suf) else zn_level g y j)"
      using set_level_ok[OF l, of "fst (nxt i suf)" "snd (nxt i suf)"] unfolding prod.collapse by blast
    then have u1: "zn_level g1 (?u i) i = Some (fst (nxt i suf), snd (nxt i suf) + int (length (w i)))"
      using u ux by simp
    obtain g2 where g2: "set_level (?u i) i (Some x) (int (length (w i)) + 1) g1 = Some g2" "dat g2 = dat g1"
      "\<forall>y j. zn_level g2 y j = (if y = ?u i \<and> j = i then Some (Some x, int (length (w i)) + 1) else zn_level g1 y j)"
      using set_level_ok[OF u1, of "Some x" "int (length (w i)) + 1"] by blast
    have "snd (nxt i suf) + int (length (w i)) - (int (length pre) - int (length (upto_tall i pre))) = snd (nxt i suf)"
      "int (length pre) - int (length (upto_tall i pre)) + 1 = int (length (w i)) + 1"
      using len[of i] by auto
    then have "zsl_link x (found_path hdr pre lev) i g = Some g2"
      using u g1(1) g2(1) i ht(2) r0 by (simp add: zsl_link_def)
    moreover have "zn_level g2 y j = (if j = i \<and> y \<in> {x, ?u i} then Some (?F i y) else zn_level g y j)" for y j
      using g1(3) g2(3) ux[of i] by simp
    ultimately show ?thesis using g1(2) g2(2) by (intro exI[of _ g2] conjI allI) simp_all
  qed
  have "\<exists>h'. for_range (zsl_link x (found_path hdr pre lev)) 0 ht h = Some h' \<and> dat h' = dat h \<and>
    (\<forall>y j. zn_level h' y j =
      (if 0 \<le> j \<and> j < ht \<and> y \<in> {x, ?u j} then Some (?F j y) else zn_level h y j))"
    by (rule levels_loop) (fact body)
  then obtain h' where h': "for_range (zsl_link x (found_path hdr pre lev)) 0 ht h = Some h'" "dat h' = dat h"
    "\<forall>y j. zn_level h' y j =
      (if 0 \<le> j \<and> j < ht \<and> y \<in> {x, ?u j} then Some (?F j y) else zn_level h y j)"
    by (elim exE conjE)
  have "zn_level h' y i =
      (if i < ht \<and> y = x then Some (nxt i suf)
       else if i < ht \<and> y = ?u i then Some (Some x, int (length (w i)) + 1)
       else zn_level h y i)" for y i
    using h'(3)[rule_format, of y i] by auto
  then show ?thesis using h'(1,2) by (intro exI[of _ h'] conjI allI)
qed

lemma zsl_span_inc_loop:
  assumes "\<And>i. ht \<le> i \<Longrightarrow> i < lev \<Longrightarrow> zn_level h (pos_addr hdr (upto_tall i pre)) i = Some (l i)"
  shows "\<exists>h'. for_range (zsl_span_inc (found_path hdr pre lev)) ht lev h = Some h' \<and> dat h' = dat h \<and>
    (\<forall>y i. zn_level h' y i =
      (if ht \<le> i \<and> i < lev \<and> y = pos_addr hdr (upto_tall i pre) then Some (fst (l i), snd (l i) + 1)
       else zn_level h y i))"
proof -
  let ?u = "\<lambda>i. pos_addr hdr (upto_tall i pre)"
  have body: "\<exists>g'. zsl_span_inc (found_path hdr pre lev) i g = Some g' \<and> dat g' = dat g \<and>
      (\<forall>y j. zn_level g' y j =
        (if j = i \<and> y \<in> {?u i} then Some (fst (l i), snd (l i) + 1) else zn_level g y j))"
    if i: "ht \<le> i" "i < lev" and "dat g = dat h" and g: "\<And>y j. i \<le> j \<Longrightarrow> zn_level g y j = zn_level h y j" for i g
  proof -
    have l: "zn_level g (?u i) i = Some (fst (l i), snd (l i))" using assms i g by simp
    from set_level_ok[OF l, of "fst (l i)" "snd (l i) + 1"] show ?thesis
      using l i by (cases "l i") (auto simp: zsl_span_inc_def)
  qed
  have "\<exists>h'. for_range (zsl_span_inc (found_path hdr pre lev)) ht lev h = Some h' \<and> dat h' = dat h \<and>
    (\<forall>y i. zn_level h' y i =
      (if ht \<le> i \<and> i < lev \<and> y \<in> {?u i} then Some (fst (l i), snd (l i) + 1)
       else zn_level h y i))"
    by (rule levels_loop) (fact body)
  then show ?thesis by simp
qed

text \<open>Links and data only depend on the nodes of the sequence.\<close>

lemma links_cong:
  assumes "links h hdr lev L" and "\<And>y i. y \<in> set (hdr # map sn_addr L) \<Longrightarrow> zn_level h' y i = zn_level h y i"
  shows "links h' hdr lev L"
  unfolding links_def
proof (intro allI impI)
  fix p s i
  assume L: "L = p @ s" and i: "i < ht_at lev p"
  have "pos_addr hdr p \<in> set (hdr # map sn_addr L)" using pos_addr_in[of hdr p] L by auto
  then show "zn_level h' (pos_addr hdr p) i = Some (nxt i s)"
    using assms(2) linksD[OF assms(1) L i] by simp
qed

lemma node_data_cong:
  assumes "node_data h L" and "\<And>n. n \<in> set L \<Longrightarrow> dat h' (sn_addr n) = dat h (sn_addr n)"
  shows "node_data h' L"
  using assms by (auto simp: node_data_def)

lemma pos_addr_eq_hdr:
  "distinct (hdr # map sn_addr L) \<Longrightarrow> L = p @ s \<Longrightarrow> pos_addr hdr p = hdr \<longleftrightarrow> p = []"
  using pos_addr_inj[of hdr L p s "[]" L] by auto

lemma pred_addr_pos: "(if p = [] then None else Some (pos_addr hdr p)) = pred_addr p"
  by (simp add: pos_addr_def pred_addr_def)

text \<open>The last step of an insertion: the backward pointers around the new node.\<close>

lemma backward_insert:
  assumes nd: "node_data h (pre @ suf)" and dist: "distinct (map sn_addr (pre @ suf))"
    and hts: "\<forall>m \<in> set suf. 1 \<le> sn_ht m"
    and new: "sn_addr n \<notin> set (map sn_addr (pre @ suf))"
    and x: "dat h (sn_addr n) = Some (Some (sn_ele n), sn_score n, b, sn_ht n)"
  shows "\<exists>h1 h2. set_backward (sn_addr n) (pred_addr pre) h = Some h1 \<and>
    (case fst (nxt 0 suf) of
       Some y \<Rightarrow> map_option (\<lambda>h. (h, pred_addr (pre @ suf))) (set_backward y (Some (sn_addr n)) h1)
     | None \<Rightarrow> Some (h1, Some (sn_addr n))) = Some (h2, pred_addr (pre @ n # suf)) \<and>
    node_data h2 (pre @ n # suf) \<and> (\<forall>y i. zn_level h1 y i = zn_level h y i) \<and>
    (\<forall>y i. zn_level h2 y i = zn_level h y i) \<and>
    (\<forall>a. a \<notin> set (map sn_addr (pre @ n # suf)) \<longrightarrow> dat h2 a = dat h a)"
proof -
  obtain h1 where h1: "set_backward (sn_addr n) (pred_addr pre) h = Some h1"
    "dat h1 = (dat h)(sn_addr n \<mapsto> (Some (sn_ele n), sn_score n, pred_addr pre, sn_ht n))"
    "\<forall>y j. zn_level h1 y j = zn_level h y j"
    using set_backward_ok[OF x] by blast
  have ne: "sn_addr m \<noteq> sn_addr n" if "m \<in> set (pre @ suf)" for m
    using imageI[OF that, of sn_addr] new by auto
  show ?thesis
  proof (cases suf)
    case Nil
    have "node_data h1 (pre @ n # suf)"
      by (rule node_data_insert[OF nd dist new]) (use h1(2) Nil ne in auto)
    then show ?thesis
      using h1 Nil by (intro exI[of _ h1]) (auto simp: pred_addr_simps(2)[of pre n])
  next
    case (Cons y s)
    have yn: "sn_addr y \<noteq> sn_addr n" using ne Cons by simp
    have ym: "sn_addr m \<noteq> sn_addr y" if "m \<in> set (pre @ s)" for m
      using imageI[OF that, of sn_addr] dist Cons by auto
    have "dat h1 (sn_addr y) = Some (Some (sn_ele y), sn_score y, pred_addr pre, sn_ht y)"
      using node_dataD[OF nd, of pre y s] Cons h1(2) yn by simp
    then obtain h2 where h2: "set_backward (sn_addr y) (Some (sn_addr n)) h1 = Some h2"
      "dat h2 = (dat h1)(sn_addr y \<mapsto> (Some (sn_ele y), sn_score y, Some (sn_addr n), sn_ht y))"
      "\<forall>z j. zn_level h2 z j = zn_level h1 z j"
      using set_backward_ok by blast
    have "node_data h2 (pre @ n # suf)"
    proof (rule node_data_insert[OF nd dist new])
      show "dat h2 (sn_addr n) = Some (Some (sn_ele n), sn_score n, pred_addr pre, sn_ht n)"
        using h1(2) h2(2) yn by simp
      show "dat h2 (sn_addr y') = Some (Some (sn_ele y'), sn_score y', Some (sn_addr n), sn_ht y')"
        if "suf = y' # s'" for y' s' using h2(2) Cons that by simp
      show "dat h2 (sn_addr m) = dat h (sn_addr m)" if "m \<in> set (pre @ tl suf)" for m
        using h1(2) h2(2) ym[of m] ne[of m] that Cons by auto
    qed
    moreover have "pred_addr (pre @ n # suf) = pred_addr (pre @ suf)" using Cons by (simp add: pred_addr_def)
    ultimately show ?thesis
      using h1 h2 Cons hts by (intro exI[of _ h1] exI[of _ h2]) auto
  qed
qed

lemma zslInsert_ok:
  assumes rep: "zsl_rep zsl (pre @ suf)" and nan: "\<not> isnan score"
    and bf: "\<forall>n \<in> set pre. sn_before score ele n" "\<forall>n \<in> set suf. \<not> sn_before score ele n"
    and rl: "zslRandomLevel rs = (ht, rs')"
    and n: "n = \<lparr>sn_addr = zsl_fresh zsl, sn_ele = ele, sn_score = score, sn_ht = ht\<rparr>"
  shows "\<exists>zsl'. zslInsert rs zsl score ele = Some (zsl_fresh zsl, zsl', rs') \<and>
    zsl_rep zsl' (pre @ n # suf) \<and> zsl_fresh zsl' = Suc (zsl_fresh zsl) \<and> zsl_header zsl' = zsl_header zsl"
proof -
  let ?L = "pre @ suf" and ?hdr = "zsl_header zsl" and ?lev = "zsl_level zsl" and ?x = "zsl_fresh zsl"
  let ?top = "max ht ?lev"
  let ?us = "found_path ?hdr pre ?top"
  note r = zsl_repD[OF rep]
  have ht: "1 \<le> ht" "ht \<le> ZSKIPLIST_MAXLEVEL" using zslRandomLevel_range[of rs] rl by auto
  have nx [simp]: "sn_addr n = ?x" "sn_ele n = ele" "sn_score n = score" "sn_ht n = ht" by (simp_all add: n)
  obtain w where w: "\<And>i. pre = upto_tall i pre @ w i" "\<And>i. \<forall>m \<in> set (w i). sn_ht m \<le> i"
    using upto_tall_split[of pre] by metis
  obtain h1 where h1: "for_range (zsl_raise zsl) ?lev ht (zsl_nodes zsl) = Some h1"
    "dat h1 = dat (zsl_nodes zsl)" "links h1 ?hdr ?top ?L"
    "\<forall>i. ?top \<le> i \<longrightarrow> i < ZSKIPLIST_MAXLEVEL \<longrightarrow> (\<exists>s. zn_level h1 ?hdr i = Some (None, s))"
    using zsl_raise_ok[OF rep ht(2)] by blast
  define h2 where "h2 = h1(?x \<mapsto> zslCreateNode ht score (Some ele))"
  have old: "zn_level h2 y i = zn_level h1 y i" "dat h2 y = dat h1 y" if "y \<noteq> ?x" for y i
    using that by (simp_all add: h2_def zn_level_upd dat_upd)
  have ne: "y \<noteq> ?x" if "y \<in> set (?hdr # map sn_addr ?L)" for y using r(2) that by metis
  have lk2: "links h2 ?hdr ?top ?L" by (rule links_cong[OF h1(3)]) (rule old(1)[OF ne])
  have nd2: "node_data h2 ?L" by (rule node_data_cong[OF r(3)], fold h1(2), rule old(2)[OF ne]) auto
  have ones: "\<forall>m \<in> set pre. 1 \<le> sn_ht m" using r(5) by simp
  have lx: "\<exists>l. zn_level h2 ?x i = Some l" if "i < ht" for i
    using that by (simp add: h2_def zn_level_upd zslCreateNode_def)
  obtain h3 where h3: "for_range (zsl_link ?x ?us) 0 ht h2 = Some h3" "dat h3 = dat h2"
    "\<forall>y i. zn_level h3 y i =
      (if i < ht \<and> y = ?x then Some (nxt i suf)
       else if i < ht \<and> y = pos_addr ?hdr (upto_tall i pre) then Some (Some ?x, int (length (w i)) + 1)
       else zn_level h2 y i)"
    using zsl_link_loop[OF lk2 ones r(2) lx ht(1) max.cobounded1 w] by blast
  have u3: "zn_level h3 (pos_addr ?hdr (upto_tall i pre)) i = Some (nxt i (w i @ suf))"
    if "ht \<le> i" "i < ?top" for i
  proof -
    have "?L = upto_tall i pre @ (w i @ suf)" unfolding append_assoc[symmetric] w(1)[of i, symmetric] ..
    from linksD[OF lk2 this ht_upto_tall[OF that(2)]] show ?thesis using that(1) h3(3) by simp
  qed
  obtain h4 where h4: "for_range (zsl_span_inc ?us) ht ?top h3 = Some h4" "dat h4 = dat h3"
    "\<forall>y i. zn_level h4 y i =
      (if ht \<le> i \<and> i < ?top \<and> y = pos_addr ?hdr (upto_tall i pre)
       then Some (fst (nxt i (w i @ suf)), snd (nxt i (w i @ suf)) + 1) else zn_level h3 y i)"
    using zsl_span_inc_loop[OF u3] by blast
  have lev4: "zn_level h4 y i =
      (if y = sn_addr n \<and> i < sn_ht n then Some (nxt i suf)
       else if i < ?top \<and> y = pos_addr ?hdr (upto_tall i pre) then Some (nxt i (w i @ n # suf))
       else zn_level h2 y i)" for y i
    using h3(3)[rule_format, of y i] h4(3)[rule_format, of y i]
      nxt_append_short[OF w(2), of i "n # suf"] nxt_append_short[OF w(2), of i suf]
    by (auto simp: not_less)
  have lk4: "links h4 ?hdr ?top (pre @ n # suf)"
    by (rule links_insert[OF lk2 r(1) _ w(1) lev4]) (use r(2,6) in \<open>auto simp: le_max_iff_disj\<close>)
  have d4: "dat h4 = dat h2" using h3 h4 by simp
  have nd4: "node_data h4 ?L" using nd2 d4 by (simp add: node_data_def)
  have x4: "dat h4 (sn_addr n) = Some (Some (sn_ele n), sn_score n, None, sn_ht n)"
    by (simp add: d4 h2_def dat_upd zslCreateNode_def)
  have dL: "distinct (map sn_addr ?L)" and onesL: "\<forall>m \<in> set suf. 1 \<le> sn_ht m"
    and newL: "sn_addr n \<notin> set (map sn_addr ?L)"
    using r(1,2,5) by auto
  obtain h5 h6 where h5: "set_backward ?x (pred_addr pre) h4 = Some h5"
    "(case fst (nxt 0 suf) of
       Some y \<Rightarrow> map_option (\<lambda>h. (h, pred_addr ?L)) (set_backward y (Some ?x) h5)
     | None \<Rightarrow> Some (h5, Some ?x)) = Some (h6, pred_addr (pre @ n # suf))"
    "node_data h6 (pre @ n # suf)" "\<forall>y i. zn_level h5 y i = zn_level h4 y i"
    "\<forall>y i. zn_level h6 y i = zn_level h4 y i"
    "\<forall>a. a \<notin> set (map sn_addr (pre @ n # suf)) \<longrightarrow> dat h6 a = dat h4 a"
    using backward_insert[OF nd4 dL onesL newL x4] unfolding nx by blast
  have x5: "zn_level h5 ?x 0 = Some (nxt 0 suf)" using h5(4) lev4[of ?x 0] ht by simp
  let ?z = "zsl\<lparr>zsl_nodes := h6, zsl_fresh := Suc ?x, zsl_tail := pred_addr (pre @ n # suf),
    zsl_length := zsl_length zsl + 1, zsl_level := ?top\<rparr>"
  have us: "found_path ?hdr pre ?lev @ replicate (ht - ?lev) (?hdr, 0) = ?us"
    using found_path_extend[of pre ?lev ?hdr ht] r(6) by simp
  have u0: "(if fst (?us ! 0) = ?hdr then None else Some (fst (?us ! 0))) = pred_addr pre"
    using ht upto_tall_0[of pre] r(5) pos_addr_eq_hdr[OF r(1), of pre suf] pred_addr_pos[of pre ?hdr]
    by (cases "pre = []") simp_all
  have bk: "zsl_insert_back zsl ?x (fst (?us ! 0)) h4 = Some (h6, pred_addr (pre @ n # suf))"
    using h5(1) h5(2)[folded r(10)] x5 by (simp add: zsl_insert_back_def u0 case_prod_beta)
  have "zslInsert rs zsl score ele = Some (?x, ?z, rs')"
    using nan zsl_search_found[OF rep bf] rl h1(1) h3(1) h4(1) bk
    by (simp add: zslInsert_def us Let_def flip: h2_def)
  moreover have "zsl_rep ?z (pre @ n # suf)"
  proof -
    have hx: "?hdr \<noteq> ?x" "?hdr \<notin> set (map sn_addr (pre @ n # suf))" using r(1,2) by auto
    have "dat h6 ?hdr = dat (zsl_nodes zsl) ?hdr"
      using h5(6) hx d4 old(2)[of ?hdr] h1(2) by simp
    moreover have "\<exists>s. zn_level h6 ?hdr i = Some (None, s)"
      if "?top \<le> i" "i < ZSKIPLIST_MAXLEVEL" for i
      using h5(5) lev4[of ?hdr i] old(1)[of ?hdr i] hx h1(4) that by simp
    moreover have "links h6 ?hdr ?top (pre @ n # suf)"
      by (rule links_cong[OF lk4]) (simp add: h5(5))
    moreover have "\<forall>a \<in> set (?hdr # map sn_addr ?L). a < ?x" using rep by (simp add: zsl_rep_def)
    moreover have "\<forall>m \<in> set (pre @ n # suf). 1 \<le> sn_ht m \<and> sn_ht m \<le> ?top"
      using r(5,6) ht by (auto simp: le_max_iff_disj)
    ultimately show ?thesis
      using rep h5(3) r(1,2,8,9) ht by (auto simp: zsl_rep_def less_Suc_eq)
  qed
  ultimately show ?thesis by simp
qed

section \<open>Deletion\<close>

lemma nxt_in: "fst (nxt i s) = Some a \<Longrightarrow> a \<in> set (map sn_addr s)"
  by (induction s) (auto split: if_splits)

lemma zsl_unlink_loop:
  assumes lk: "links h hdr lev (pre @ n # suf)" and dist: "distinct (hdr # map sn_addr (pre @ n # suf))"
    and w: "\<And>i. pre = upto_tall i pre @ w i" and short: "\<And>i. \<forall>m \<in> set (w i). sn_ht m \<le> i"
  shows "\<exists>h'. for_range (zsl_unlink (sn_addr n) (found_path hdr pre lev)) 0 lev h = Some h' \<and> dat h' = dat h \<and>
    (\<forall>y i. zn_level h' y i =
      (if i < lev \<and> y = pos_addr hdr (upto_tall i pre) then Some (nxt i (w i @ suf)) else zn_level h y i))"
proof -
  let ?u = "\<lambda>i. pos_addr hdr (upto_tall i pre)"
  have body: "\<exists>g'. zsl_unlink (sn_addr n) (found_path hdr pre lev) i g = Some g' \<and> dat g' = dat g \<and>
      (\<forall>y j. zn_level g' y j = (if j = i \<and> y \<in> {?u i} then Some (nxt i (w i @ suf)) else zn_level g y j))"
    if i: "0 \<le> i" "i < lev" and "dat g = dat h" and g: "\<And>y j. i \<le> j \<Longrightarrow> zn_level g y j = zn_level h y j" for i g
  proof -
    have "pre @ n # suf = upto_tall i pre @ (w i @ n # suf)"
      unfolding append_assoc[symmetric] w[of i, symmetric] ..
    from linksD[OF lk this ht_upto_tall[OF i(2)]] g
    have u: "zn_level g (?u i) i =
        Some (fst (nxt i (n # suf)), snd (nxt i (n # suf)) + int (length (w i)))"
      by (simp add: nxt_append_short[OF short] del: nxt.simps)
    have new: "nxt i (w i @ suf) = (fst (nxt i suf), snd (nxt i suf) + int (length (w i)))"
      by (rule nxt_append_short[OF short])
    have "zsl_unlink (sn_addr n) (found_path hdr pre lev) i g =
        set_level (?u i) i (fst (nxt i suf)) (snd (nxt i suf) + int (length (w i))) g"
    proof (cases "i < sn_ht n")
      case True
      have "zn_level g (sn_addr n) i = Some (nxt i suf)"
        using linksD[OF lk, of "pre @ [n]" suf i] True g by simp
      then show ?thesis
        using u i True by (simp add: zsl_unlink_def case_prod_beta algebra_simps)
    next
      case False
      have "fst (nxt i suf) \<noteq> Some (sn_addr n)" using nxt_in dist by fastforce
      then show ?thesis using u i False by (simp add: zsl_unlink_def algebra_simps)
    qed
    with set_level_ok[OF u, of "fst (nxt i suf)" "snd (nxt i suf) + int (length (w i))"]
    show ?thesis unfolding new by auto
  qed
  have "\<exists>h'. for_range (zsl_unlink (sn_addr n) (found_path hdr pre lev)) 0 lev h = Some h' \<and> dat h' = dat h \<and>
    (\<forall>y i. zn_level h' y i =
      (if 0 \<le> i \<and> i < lev \<and> y \<in> {?u i} then Some (nxt i (w i @ suf)) else zn_level h y i))"
    by (rule levels_loop) (fact body)
  then show ?thesis by simp
qed

lemma links_delete:
  assumes lk: "links h hdr lev (pre @ n # suf)" and dist: "distinct (hdr # map sn_addr (pre @ n # suf))"
    and w: "\<And>i. pre = upto_tall i pre @ w i"
    and h': "\<And>y i. zn_level h' y i =
      (if i < lev \<and> y = pos_addr hdr (upto_tall i pre) then Some (nxt i (w i @ suf)) else zn_level h y i)"
    and hts: "\<forall>m \<in> set (pre @ suf). sn_ht m \<le> lev"
  shows "links h' hdr lev (pre @ suf)"
  unfolding links_def
proof (intro allI impI)
  fix p s i
  assume split: "pre @ suf = p @ s" and i: "i < ht_at lev p"
  have ilev: "i < lev"
  proof (cases p rule: rev_cases)
    case (snoc q m)
    then have "m \<in> set (pre @ suf)" unfolding split by simp
    then have "sn_ht m \<le> lev" using hts by blast
    then show ?thesis using i snoc by simp
  qed (use i in simp)
  have uw: "pre @ n # suf = upto_tall i pre @ (w i @ n # suf)"
    unfolding append_assoc[symmetric] w[of i, symmetric] ..
  from split show "zn_level h' (pos_addr hdr p) i = Some (nxt i s)"
  proof (cases rule: append_split_cases)
    case (1 p2)
    show ?thesis
    proof (cases "p = upto_tall i pre")
      case True
      then have "w i = p2" using w[of i] 1 by (metis same_append_eq)
      moreover have "zn_level h' (pos_addr hdr (upto_tall i pre)) i = Some (nxt i (w i @ suf))"
        using h' ilev by simp
      ultimately show ?thesis unfolding True[symmetric] 1(2) by simp
    next
      case False
      have "pos_addr hdr p \<noteq> pos_addr hdr (upto_tall i pre)"
      proof
        assume "pos_addr hdr p = pos_addr hdr (upto_tall i pre)"
        moreover have "pre @ n # suf = p @ (p2 @ n # suf)" using 1 by simp
        ultimately show False using pos_addr_inj[OF dist _ uw] \<open>p \<noteq> upto_tall i pre\<close> by blast
      qed
      moreover have "\<exists>m \<in> set p2. i < sn_ht m"
        using False upto_tall_eq[of p2 i p] i 1 by (fastforce simp: ht_at_def not_less split: if_splits)
      ultimately show ?thesis
        using h' linksD[OF lk, of p "p2 @ n # suf" i] 1 i by (simp add: nxt_append_tall)
    qed
  next
    case (2 p2)
    have eq: "pos_addr hdr (pre @ n # p2) = pos_addr hdr p" "ht_at lev (pre @ n # p2) = ht_at lev p"
      using 2 by (simp_all add: pos_addr_def pred_addr_def ht_at_def)
    have "pre @ n # p2 \<noteq> upto_tall i pre"
    proof
      assume "pre @ n # p2 = upto_tall i pre"
      then have "length pre = length (pre @ n # p2) + length (w i)" using w[of i] by (metis length_append)
      then show False by simp
    qed
    moreover have "pre @ n # suf = (pre @ n # p2) @ s" using 2 by simp
    ultimately have "pos_addr hdr p \<noteq> pos_addr hdr (upto_tall i pre)"
      using pos_addr_inj[OF dist _ uw] eq(1) by metis
    then show ?thesis using h' linksD[OF lk, of "pre @ n # p2" s] 2 i eq by simp
  qed
qed

lemma node_data_delete:
  assumes nd: "node_data h (pre @ n # suf)" and dist: "distinct (map sn_addr (pre @ n # suf))"
    and y: "\<And>y s. suf = y # s \<Longrightarrow>
      dat h' (sn_addr y) = Some (Some (sn_ele y), sn_score y, pred_addr pre, sn_ht y)"
    and rest: "\<And>m. m \<in> set (pre @ tl suf) \<Longrightarrow> dat h' (sn_addr m) = dat h (sn_addr m)"
  shows "node_data h' (pre @ suf)"
  unfolding node_data_def
proof (intro allI impI)
  fix p m s
  assume split: "pre @ suf = p @ m # s"
  from split show "dat h' (sn_addr m) = Some (Some (sn_ele m), sn_score m, pred_addr p, sn_ht m)"
  proof (cases rule: append_mid_cases)
    case (1 p2)
    then show ?thesis using node_dataD[OF nd, of p m "p2 @ n # suf"] rest[of m] by simp
  next
    case 2
    then show ?thesis using y by simp
  next
    case (3 p2)
    then have "pred_addr (pre @ n # p2) = pred_addr p" "m \<in> set (tl suf)"
      by (cases p2, auto simp: pred_addr_def)
    then show ?thesis using node_dataD[OF nd, of "pre @ n # p2" m s] rest[of m] 3 by simp
  qed
qed

lemma backward_delete:
  assumes nd: "node_data h (pre @ n # suf)" and dist: "distinct (map sn_addr (pre @ n # suf))"
    and hts: "\<forall>m \<in> set suf. 1 \<le> sn_ht m"
  shows "\<exists>h2. (case fst (nxt 0 suf) of
       Some y \<Rightarrow> map_option (\<lambda>h. (h, pred_addr (pre @ n # suf))) (set_backward y (pred_addr pre) h)
     | None \<Rightarrow> Some (h, pred_addr pre)) = Some (h2, pred_addr (pre @ suf)) \<and>
    node_data h2 (pre @ suf) \<and> (\<forall>y i. zn_level h2 y i = zn_level h y i) \<and>
    (\<forall>a. a \<notin> set (map sn_addr suf) \<longrightarrow> dat h2 a = dat h a)"
proof (cases suf)
  case Nil
  then have "node_data h (pre @ suf)" using nd dist by (intro node_data_delete[OF nd dist]) auto
  then show ?thesis using Nil by auto
next
  case (Cons y s)
  have ym: "sn_addr m \<noteq> sn_addr y" if "m \<in> set (pre @ s)" for m
    using imageI[OF that, of sn_addr] dist Cons by auto
  have "dat h (sn_addr y) = Some (Some (sn_ele y), sn_score y, Some (sn_addr n), sn_ht y)"
    using node_dataD[OF nd, of "pre @ [n]" y s] Cons by simp
  then obtain h2 where h2: "set_backward (sn_addr y) (pred_addr pre) h = Some h2"
    "dat h2 = (dat h)(sn_addr y \<mapsto> (Some (sn_ele y), sn_score y, pred_addr pre, sn_ht y))"
    "\<forall>z j. zn_level h2 z j = zn_level h z j"
    using set_backward_ok by blast
  have "node_data h2 (pre @ suf)"
    by (rule node_data_delete[OF nd dist]) (use h2(2) Cons ym in auto)
  moreover have "pred_addr (pre @ n # suf) = pred_addr (pre @ suf)" using Cons by (simp add: pred_addr_def)
  ultimately show ?thesis using h2 Cons hts by auto
qed

lemma zsl_trim_ok:
  assumes "links h hdr lev L" and "k < lev" and "\<forall>m \<in> set L. sn_ht m \<le> Suc k"
  shows "\<exists>lev'. zsl_trim h hdr k = Some lev' \<and> 1 \<le> lev' \<and> lev' \<le> Suc k \<and>
    (\<forall>m \<in> set L. sn_ht m \<le> lev') \<and>
    (\<forall>i. lev' \<le> i \<longrightarrow> i \<le> k \<longrightarrow> (\<exists>s. zn_level h hdr i = Some (None, s)))"
  using assms(2,3)
proof (induction k)
  case 0
  then show ?case by auto
next
  case (Suc k)
  have lv: "zn_level h hdr (Suc k) = Some (nxt (Suc k) L)"
    using linksD[OF assms(1), of "[]" L "Suc k"] Suc.prems by simp
  show ?case
  proof (cases "fst (nxt (Suc k) L) = None")
    case True
    then have "\<forall>m \<in> set L. sn_ht m \<le> Suc k" by (simp add: nxt_fst_None)
    with Suc obtain lev' where l: "zsl_trim h hdr k = Some lev'" "1 \<le> lev'" "lev' \<le> Suc k"
      "\<forall>m \<in> set L. sn_ht m \<le> lev'"
      "\<forall>i. lev' \<le> i \<longrightarrow> i \<le> k \<longrightarrow> (\<exists>s. zn_level h hdr i = Some (None, s))"
      by auto
    have "\<exists>s. zn_level h hdr i = Some (None, s)" if "lev' \<le> i" "i \<le> Suc k" for i
      using l(5) lv True that by (cases "nxt (Suc k) L"; cases "i = Suc k") auto
    then show ?thesis using l lv True by (auto simp: case_prod_beta)
  next
    case False
    then show ?thesis using lv Suc.prems by (auto simp: case_prod_beta)
  qed
qed

lemma zslDeleteNode_ok:
  assumes rep: "zsl_rep zsl (pre @ n # suf)"
  shows "\<exists>zsl'. zslDeleteNode zsl (sn_addr n) (found_path (zsl_header zsl) pre (zsl_level zsl)) = Some zsl' \<and>
    zsl_rep zsl' (pre @ suf) \<and> zsl_fresh zsl' = zsl_fresh zsl \<and> zsl_header zsl' = zsl_header zsl"
proof -
  let ?hdr = "zsl_header zsl" and ?lev = "zsl_level zsl" and ?x = "sn_addr n"
  note r = zsl_repD[OF rep]
  have dist: "distinct (map sn_addr (pre @ n # suf))" using r(1) by simp
  obtain w where w: "\<And>i. pre = upto_tall i pre @ w i" "\<And>i. \<forall>m \<in> set (w i). sn_ht m \<le> i"
    using upto_tall_split[of pre] by metis
  obtain h1 where h1: "for_range (zsl_unlink ?x (found_path ?hdr pre ?lev)) 0 ?lev (zsl_nodes zsl) = Some h1"
    "dat h1 = dat (zsl_nodes zsl)"
    "\<forall>y i. zn_level h1 y i = (if i < ?lev \<and> y = pos_addr ?hdr (upto_tall i pre)
       then Some (nxt i (w i @ suf)) else zn_level (zsl_nodes zsl) y i)"
    using zsl_unlink_loop[OF r(4) r(1) w] by blast
  have lk1: "links h1 ?hdr ?lev (pre @ suf)"
    by (rule links_delete[OF r(4) r(1) w(1) h1(3)[rule_format]]) (use r(6) in auto)
  have nd1: "node_data h1 (pre @ n # suf)" using r(3) h1(2) by (simp add: node_data_def)
  obtain nd where nd: "h1 ?x = Some nd" "zn_backward nd = pred_addr pre"
    using node_dataD[OF nd1 refl] by (auto simp: dat_def)
  have x0: "zn_level h1 ?x 0 = Some (nxt 0 suf)"
  proof -
    have "set (upto_tall 0 pre) \<subseteq> set pre" using w(1)[of 0] by (metis Un_upper1 set_append)
    then have "?x \<notin> set (?hdr # map sn_addr (upto_tall 0 pre))" using r(1) by auto
    then have "pos_addr ?hdr (upto_tall 0 pre) \<noteq> ?x" using pos_addr_in by metis
    then show ?thesis using h1(3) linksD[OF r(4), of "pre @ [n]" suf 0] r(5) by auto
  qed
  have onesL: "\<forall>m \<in> set suf. 1 \<le> sn_ht m" using r(5) by simp
  obtain h2 where h2: "(case fst (nxt 0 suf) of
       Some y \<Rightarrow> map_option (\<lambda>h. (h, pred_addr (pre @ n # suf))) (set_backward y (pred_addr pre) h1)
     | None \<Rightarrow> Some (h1, pred_addr pre)) = Some (h2, pred_addr (pre @ suf))"
    "node_data h2 (pre @ suf)" "\<forall>y i. zn_level h2 y i = zn_level h1 y i"
    "\<forall>a. a \<notin> set (map sn_addr suf) \<longrightarrow> dat h2 a = dat h1 a"
    using backward_delete[OF nd1 dist onesL] by blast
  have lk2: "links h2 ?hdr ?lev (pre @ suf)" by (rule links_cong[OF lk1]) (simp add: h2(3))
  obtain lev' where l: "zsl_trim h2 ?hdr (?lev - 1) = Some lev'" "1 \<le> lev'" "lev' \<le> ?lev"
    "\<forall>m \<in> set (pre @ suf). sn_ht m \<le> lev'"
    "\<forall>i. lev' \<le> i \<longrightarrow> i < ?lev \<longrightarrow> (\<exists>s. zn_level h2 ?hdr i = Some (None, s))"
    using zsl_trim_ok[OF lk2, of "?lev - 1"] r(6,7) by (auto simp: less_Suc_eq_le)
  let ?z = "zsl\<lparr>zsl_nodes := h2, zsl_tail := pred_addr (pre @ suf), zsl_length := zsl_length zsl - 1, zsl_level := lev'\<rparr>"
  have "zslDeleteNode zsl ?x (found_path ?hdr pre ?lev) = Some ?z"
    using h1(1) nd x0 h2(1)[folded r(10) nd(2)] l(1) by (simp add: zslDeleteNode_def case_prod_beta)
  moreover have "zsl_rep ?z (pre @ suf)"
  proof -
    have "?hdr \<notin> set (map sn_addr suf)" using r(1) by simp
    then have "dat h2 ?hdr = dat (zsl_nodes zsl) ?hdr" using h2(4) h1(2) by simp
    moreover have "\<exists>s. zn_level h2 ?hdr i = Some (None, s)" if "lev' \<le> i" "i < ZSKIPLIST_MAXLEVEL" for i
    proof (cases "i < ?lev")
      case False
      then show ?thesis using rep h2(3) h1(3) that by (auto simp: zsl_rep_def)
    qed (use l(5) that in auto)
    moreover have "links h2 ?hdr lev' (pre @ suf)"
      using lk2 l(3) by (auto simp: links_def ht_at_def split: if_splits)
    moreover have "\<forall>a \<in> set (?hdr # map sn_addr (pre @ suf)). a < zsl_fresh zsl"
      "\<exists>sc. dat (zsl_nodes zsl) ?hdr = Some (None, sc, None, ZSKIPLIST_MAXLEVEL)"
      using rep by (simp_all add: zsl_rep_def)
    ultimately show ?thesis
      using h2(2) r(1,5,8,9) l(2-4) by (simp add: zsl_rep_def)
  qed
  ultimately show ?thesis by simp
qed

end
