(* ===== verification/ZOrder.thy ===== *)
theory ZOrder
  imports CStrings
begin

text \<open>
  The order both encodings of a sorted set keep: by score, then by element bytes. Sorted lists
  of entries with this order, insertion into them, and the finite map they denote.
\<close>

type_synonym zentry = "sds \<times> dbl"

definition zlt :: "zentry \<Rightarrow> zentry \<Rightarrow> bool" where
  "zlt a b \<longleftrightarrow> dlt (snd a) (snd b) \<or> snd a = snd b \<and> fst a < fst b"

definition zsorted :: "zentry list \<Rightarrow> bool" where
  "zsorted xs \<longleftrightarrow> sorted_wrt zlt xs \<and> (\<forall>x \<in> set xs. snd x \<noteq> NaN) \<and> distinct (map fst xs)"

definition zins :: "zentry \<Rightarrow> zentry list \<Rightarrow> zentry list" where
  "zins a xs = takeWhile (\<lambda>x. zlt x a) xs @ a # dropWhile (\<lambda>x. zlt x a) xs"

lemma zlt_irrefl [simp]: "\<not> zlt a a"
  by (simp add: zlt_def)

lemma zlt_trans: "zlt a b \<Longrightarrow> zlt b c \<Longrightarrow> zlt a c"
  unfolding zlt_def using dlt_trans by fastforce

lemma zlt_asym: "zlt a b \<Longrightarrow> \<not> zlt b a"
  using zlt_trans zlt_irrefl by blast

lemma zlt_total: "snd a \<noteq> NaN \<Longrightarrow> snd b \<noteq> NaN \<Longrightarrow> a \<noteq> b \<Longrightarrow> zlt a b \<or> zlt b a"
  unfolding zlt_def using dlt_total[of "snd a" "snd b"]
  by (cases a; cases b) (auto simp: not_less intro: linorder_cases)

lemma zsorted_Nil [simp]: "zsorted []"
  by (simp add: zsorted_def)

lemma zsorted_remove: "zsorted (pre @ a # suf) \<Longrightarrow> zsorted (pre @ suf)"
  by (auto simp: zsorted_def sorted_wrt_append)

lemma zsorted_before:
  "zsorted (pre @ a # suf) \<Longrightarrow> x \<in> set pre \<Longrightarrow> zlt x a"
  "zsorted (pre @ a # suf) \<Longrightarrow> x \<in> set suf \<Longrightarrow> zlt a x"
  by (auto simp: zsorted_def sorted_wrt_append)

lemma zsorted_drop_not_before:
  assumes "zsorted xs" and "x \<in> set (dropWhile (\<lambda>x. zlt x a) xs)"
  shows "\<not> zlt x a"
proof -
  obtain y ys where d: "dropWhile (\<lambda>x. zlt x a) xs = y # ys"
    using assms(2) by (cases "dropWhile (\<lambda>x. zlt x a) xs") auto
  then have y: "\<not> zlt y a" by (metis dropWhile_eq_Cons_conv)
  have "zsorted (takeWhile (\<lambda>x. zlt x a) xs @ y # ys)" using assms(1) d by (metis takeWhile_dropWhile_id)
  then have "x = y \<or> zlt y x" using zsorted_before(2)[of _ y ys x] assms(2) d by auto
  then show ?thesis using y zlt_trans by blast
qed

lemma zsorted_place:
  assumes "zsorted (pre @ suf)" and "snd a \<noteq> NaN" and "fst a \<notin> fst ` set (pre @ suf)"
    and "\<forall>x \<in> set pre. zlt x a" and "\<forall>x \<in> set suf. \<not> zlt x a"
  shows "zsorted (pre @ a # suf)"
proof -
  have "zlt a x" if "x \<in> set suf" for x
  proof -
    have "x \<noteq> a" using that assms(3) by force
    moreover have "snd x \<noteq> NaN" using that assms(1) by (auto simp: zsorted_def)
    ultimately show ?thesis using zlt_total[of a x] assms(2,5) that by blast
  qed
  then show ?thesis using assms by (auto simp: zsorted_def sorted_wrt_append)
qed

lemma zsorted_zins:
  assumes "zsorted xs" and "snd a \<noteq> NaN" and "fst a \<notin> fst ` set xs"
  shows "zsorted (zins a xs)"
  unfolding zins_def
proof (rule zsorted_place)
  show "zsorted (takeWhile (\<lambda>x. zlt x a) xs @ dropWhile (\<lambda>x. zlt x a) xs)"
    "fst a \<notin> fst ` set (takeWhile (\<lambda>x. zlt x a) xs @ dropWhile (\<lambda>x. zlt x a) xs)"
    using assms by simp_all
  show "\<forall>x \<in> set (takeWhile (\<lambda>x. zlt x a) xs). zlt x a" by (blast dest: set_takeWhileD)
  show "\<forall>x \<in> set (dropWhile (\<lambda>x. zlt x a) xs). \<not> zlt x a"
    using zsorted_drop_not_before[OF assms(1)] by blast
qed (rule assms(2))

section \<open>The map of a list of entries\<close>

lemma map_of_insert_mid:
  "k \<notin> fst ` set pre \<Longrightarrow> map_of (pre @ (k, v) # suf) = (map_of (pre @ suf))(k \<mapsto> v)"
  by (induction pre) (auto simp: fun_eq_iff)

lemma map_of_remove_mid:
  assumes "distinct (map fst (pre @ (k, v) # suf))"
  shows "map_of (pre @ suf) = (map_of (pre @ (k, v) # suf))(k := None)"
proof -
  have "map_of (pre @ suf) k = None" "k \<notin> fst ` set pre"
    using assms by (auto simp: map_of_eq_None_iff)
  then show ?thesis unfolding map_of_insert_mid[OF \<open>k \<notin> fst ` set pre\<close>] by (simp add: fun_upd_idem)
qed

lemma map_of_zins:
  assumes "fst a \<notin> fst ` set xs"
  shows "map_of (zins a xs) = (map_of xs)(fst a \<mapsto> snd a)"
proof -
  have "fst a \<notin> fst ` set (takeWhile (\<lambda>x. zlt x a) xs)" using assms by (auto dest: set_takeWhileD)
  from map_of_insert_mid[OF this, of "snd a" "dropWhile (\<lambda>x. zlt x a) xs"] show ?thesis
    unfolding zins_def takeWhile_dropWhile_id by simp
qed

lemma length_zins [simp]: "length (zins a xs) = Suc (length xs)"
  unfolding zins_def by simp (metis length_append takeWhile_dropWhile_id)

definition zdel :: "sds \<Rightarrow> zentry list \<Rightarrow> zentry list" where
  "zdel e xs = filter (\<lambda>x. fst x \<noteq> e) xs"

lemma zdel_absent: "e \<notin> fst ` set xs \<Longrightarrow> zdel e xs = xs"
  unfolding zdel_def by (rule filter_True) auto

lemma zdel_mid:
  assumes "zsorted (pre @ (e, s) # suf)"
  shows "zdel e (pre @ (e, s) # suf) = pre @ suf"
proof -
  have "e \<notin> fst ` set pre" "e \<notin> fst ` set suf" using assms by (auto simp: zsorted_def)
  then show ?thesis using zdel_absent[of e pre] zdel_absent[of e suf] by (simp add: zdel_def)
qed

lemma zsorted_zdel [simp]: "zsorted xs \<Longrightarrow> zsorted (zdel e xs)"
  by (auto simp: zsorted_def zdel_def sorted_wrt_filter distinct_map_filter)

lemma fst_zdel [simp]: "e \<notin> fst ` set (zdel e xs)"
  by (auto simp: zdel_def)

lemma map_of_zdel: "map_of (zdel e xs) = (map_of xs)(e := None)"
  by (induction xs) (auto simp: zdel_def fun_eq_iff)

lemma map_of_split:
  assumes "map_of xs e = Some s"
  obtains pre suf where "xs = pre @ (e, s) # suf"
  using map_of_SomeD[OF assms] by (metis split_list)

text \<open>A sorted list of entries is determined by its map.\<close>

lemma sorted_wrt_zlt_unique:
  assumes "sorted_wrt zlt xs" and "sorted_wrt zlt ys" and "set xs = set ys"
  shows "xs = ys"
  using assms
proof (induction xs arbitrary: ys)
  case (Cons x xs)
  then obtain y zs where ys: "ys = y # zs" by (cases ys) auto
  have "x = y \<or> zlt y x" "y = x \<or> zlt x y" using Cons.prems ys by auto
  then have xy: "x = y" using zlt_trans zlt_irrefl by blast
  moreover have "x \<notin> set xs" "y \<notin> set zs" using Cons.prems ys zlt_irrefl by auto
  ultimately have "set xs = set zs" using Cons.prems(3) ys by auto
  then show ?case using Cons ys xy by auto
qed simp

lemma zsorted_unique:
  assumes "zsorted xs" and "zsorted ys" and "map_of xs = map_of ys"
  shows "xs = ys"
proof (rule sorted_wrt_zlt_unique)
  have "(k, v) \<in> set zs \<longleftrightarrow> map_of zs k = Some v" if "zsorted zs" for k v zs
    using that by (simp add: zsorted_def map_of_eq_Some_iff)
  then have "(k, v) \<in> set xs \<longleftrightarrow> (k, v) \<in> set ys" for k v using assms by simp
  then show "set xs = set ys" by auto
qed (use assms in \<open>auto simp: zsorted_def\<close>)

end
