(* ===== verification/SkiplistSorted.thy ===== *)
theory SkiplistSorted
  imports SkiplistOps ZOrder
begin

text \<open>
  The skip list as a sorted list: on a represented sequence that is sorted, \<open>zslInsert\<close> is
  insertion into the sorted list of entries, \<open>zslDelete\<close> removes the entry, and
  \<open>zslUpdateScore\<close> replaces its score and keeps the list sorted, whether or not it can reuse
  the node. The map from elements to nodes is the dictionary of the sorted set.
\<close>

definition entry :: "snode \<Rightarrow> zentry" where
  "entry n = (sn_ele n, sn_score n)"

definition entries :: "snode list \<Rightarrow> zentry list" where
  "entries L = map entry L"

definition dict_of :: "snode list \<Rightarrow> sds \<Rightarrow> addr option" where
  "dict_of L = map_of (map (\<lambda>n. (sn_ele n, sn_addr n)) L)"

lemma entries_simps [simp]:
  "entries [] = []" "entries (n # L) = entry n # entries L" "entries (L @ L') = entries L @ entries L'"
  by (simp_all add: entries_def)

lemma fst_entries: "fst ` set (entries L) = sn_ele ` set L" "map fst (entries L) = map sn_ele L"
  by (auto simp: entries_def entry_def image_image)

lemma sn_before_iff: "score \<noteq> NaN \<Longrightarrow> sn_before score ele n \<longleftrightarrow> zlt (entry n) (ele, score)"
  by (auto simp: sn_before_def zlt_def entry_def deq_def sdscmp_neg)

lemma dict_of_insert:
  "sn_ele n \<notin> sn_ele ` set pre \<Longrightarrow> dict_of (pre @ n # suf) = (dict_of (pre @ suf))(sn_ele n \<mapsto> sn_addr n)"
  using map_of_insert_mid[of "sn_ele n" "map (\<lambda>n. (sn_ele n, sn_addr n)) pre"]
  by (simp add: dict_of_def image_image)

lemma dict_of_remove:
  assumes "distinct (map sn_ele (pre @ n # suf))"
  shows "dict_of (pre @ suf) = (dict_of (pre @ n # suf))(sn_ele n := None)"
  unfolding dict_of_def
  using map_of_remove_mid[of "map (\<lambda>n. (sn_ele n, sn_addr n)) pre" "sn_ele n" "sn_addr n"] assms
  by (simp add: comp_def image_image)

lemma dict_of_Some:
  assumes "zsorted (entries L)"
  shows "dict_of L e = Some a \<longleftrightarrow> (\<exists>n \<in> set L. sn_ele n = e \<and> sn_addr n = a)"
proof -
  have "distinct (map fst (map (\<lambda>n. (sn_ele n, sn_addr n)) L))"
    using assms by (simp add: zsorted_def fst_entries comp_def)
  then show ?thesis by (auto simp: dict_of_def map_of_eq_Some_iff)
qed

lemma dict_of_None: "dict_of L e = None \<longleftrightarrow> e \<notin> sn_ele ` set L"
  by (simp add: dict_of_def map_of_eq_None_iff image_image)

section \<open>Insertion\<close>

lemma zslInsert_sorted:
  assumes rep: "zsl_rep zsl L" and srt: "zsorted (entries L)" and nan: "score \<noteq> NaN"
    and new: "ele \<notin> sn_ele ` set L"
  shows "\<exists>zsl' L' rs'. zslInsert rs zsl score ele = Some (zsl_fresh zsl, zsl', rs') \<and> zsl_rep zsl' L' \<and>
    entries L' = zins (ele, score) (entries L) \<and> dict_of L' = (dict_of L)(ele \<mapsto> zsl_fresh zsl) \<and>
    (\<forall>n \<in> set L'. n \<in> set L \<or> sn_addr n = zsl_fresh zsl) \<and> zsl_header zsl' = zsl_header zsl"
proof -
  let ?P = "sn_before score ele"
  define pre suf where "pre = takeWhile ?P L" and "suf = dropWhile ?P L"
  obtain ht rs' where rl: "zslRandomLevel rs = (ht, rs')" by (cases "zslRandomLevel rs")
  let ?n = "\<lparr>sn_addr = zsl_fresh zsl, sn_ele = ele, sn_score = score, sn_ht = ht\<rparr>"
  have L: "L = pre @ suf" by (simp add: pre_def suf_def)
  have P: "?P = (\<lambda>x. zlt x (ele, score)) \<circ> entry" using sn_before_iff[OF nan] by (auto simp: fun_eq_iff)
  have e: "entries pre = takeWhile (\<lambda>x. zlt x (ele, score)) (entries L)"
    "entries suf = dropWhile (\<lambda>x. zlt x (ele, score)) (entries L)"
    by (simp_all add: entries_def pre_def suf_def P takeWhile_map dropWhile_map)
  have "\<forall>n \<in> set pre. ?P n" unfolding pre_def by (blast dest: set_takeWhileD)
  moreover have "\<forall>n \<in> set suf. \<not> ?P n"
  proof
    fix n
    assume "n \<in> set suf"
    then have "entry n \<in> set (entries suf)" by (simp add: entries_def)
    then show "\<not> ?P n" using zsorted_drop_not_before[OF srt] e(2) sn_before_iff[OF nan] by metis
  qed
  ultimately obtain zsl' where z: "zslInsert rs zsl score ele = Some (zsl_fresh zsl, zsl', rs')"
    "zsl_rep zsl' (pre @ ?n # suf)" "zsl_header zsl' = zsl_header zsl"
    using zslInsert_ok[of zsl pre suf score ele rs ht rs' ?n] rep L nan rl by auto
  moreover have "entries (pre @ ?n # suf) = zins (ele, score) (entries L)"
    using e by (simp add: zins_def entry_def)
  moreover have "dict_of (pre @ ?n # suf) = (dict_of L)(ele \<mapsto> zsl_fresh zsl)"
    using dict_of_insert[of ?n pre suf] new L by auto
  ultimately show ?thesis using L by (intro exI[of _ zsl'] exI[of _ "pre @ ?n # suf"] exI[of _ rs']) auto
qed

section \<open>Deletion\<close>

lemma zsl_rep_free:
  assumes rep: "zsl_rep zsl L" and x: "x \<notin> set (zsl_header zsl # map sn_addr L)"
  shows "zsl_rep (zslFreeNode x zsl) L"
proof -
  let ?h = "(zsl_nodes zsl)(x := None)"
  have same: "zn_level ?h y i = zn_level (zsl_nodes zsl) y i" "dat ?h y = dat (zsl_nodes zsl) y"
    if "y \<in> set (zsl_header zsl # map sn_addr L)" for y i
    using that x by (auto simp: zn_level_def dat_def)
  have "links ?h (zsl_header zsl) (zsl_level zsl) L"
    using zsl_repD(4)[OF rep] by (rule links_cong) (rule same(1))
  moreover have "node_data ?h L"
    using zsl_repD(3)[OF rep] by (rule node_data_cong) (rule same(2), simp)
  ultimately show ?thesis
    using rep same[of "zsl_header zsl"] by (simp add: zsl_rep_def zslFreeNode_def)
qed

text \<open>What the search for an entry finds: its node, and the path to it.\<close>

lemma zsl_search_entry:
  assumes rep: "zsl_rep zsl (pre @ n # suf)" and srt: "zsorted (entries (pre @ n # suf))"
  shows "zsl_search (zsl_nodes zsl) (sn_score n) (sn_ele n) (zsl_level zsl) (zsl_header zsl) 0 =
      Some (found_path (zsl_header zsl) pre (zsl_level zsl))"
    "zn_level (zsl_nodes zsl) (fst (found_path (zsl_header zsl) pre (zsl_level zsl) ! 0)) 0 =
      Some (Some (sn_addr n), 1)"
    "zsl_is (zsl_nodes zsl) (Some (sn_addr n)) (sn_score n) (sn_ele n) = Some True"
proof -
  note r = zsl_repD[OF rep]
  have ent: "entries (pre @ n # suf) = entries pre @ (sn_ele n, sn_score n) # entries suf"
    by (simp add: entry_def)
  have nan: "sn_score n \<noteq> NaN" using srt ent by (auto simp: zsorted_def)
  have "\<forall>m \<in> set pre. sn_before (sn_score n) (sn_ele n) m"
    using zsorted_before(1)[OF srt[unfolded ent]] sn_before_iff[OF nan] by (simp add: entries_def)
  moreover have "\<not> sn_before (sn_score n) (sn_ele n) m" if "m \<in> set (n # suf)" for m
  proof -
    have "m = n \<or> zlt (sn_ele n, sn_score n) (entry m)"
      using that zsorted_before(2)[OF srt[unfolded ent], of "entry m"] by (auto simp: entries_def)
    then show ?thesis using sn_before_iff[OF nan] zlt_trans zlt_irrefl by (metis entry_def)
  qed
  ultimately show "zsl_search (zsl_nodes zsl) (sn_score n) (sn_ele n) (zsl_level zsl) (zsl_header zsl) 0 =
      Some (found_path (zsl_header zsl) pre (zsl_level zsl))"
    using zsl_search_found[OF rep] by blast
  show "zn_level (zsl_nodes zsl) (fst (found_path (zsl_header zsl) pre (zsl_level zsl) ! 0)) 0 =
      Some (Some (sn_addr n), 1)"
    using linksD[OF r(4) refl, of 0] r(5,7) upto_tall_0[of pre]
    by (cases pre rule: rev_cases) (auto simp: ht_at_def)
  show "zsl_is (zsl_nodes zsl) (Some (sn_addr n)) (sn_score n) (sn_ele n) = Some True"
    using node_data_in[OF r(3), of n] nan by (auto simp: zsl_is_def deq_def)
qed

lemma zslDelete_sorted:
  assumes rep: "zsl_rep zsl (pre @ n # suf)" and srt: "zsorted (entries (pre @ n # suf))"
  shows "\<exists>zsl'. zslDelete zsl (sn_score n) (sn_ele n) = Some (True, zsl') \<and> zsl_rep zsl' (pre @ suf)"
proof -
  obtain z where z: "zslDeleteNode zsl (sn_addr n) (found_path (zsl_header zsl) pre (zsl_level zsl)) = Some z"
    "zsl_rep z (pre @ suf)" "zsl_header z = zsl_header zsl"
    using zslDeleteNode_ok[OF rep] by blast
  have "sn_addr n \<notin> set (zsl_header z # map sn_addr (pre @ suf))"
    using zsl_repD(1)[OF rep] z(3) by auto
  then show ?thesis
    using z zsl_search_entry[OF rep srt] zsl_rep_free[OF z(2)] by (simp add: zslDelete_def)
qed

section \<open>Score update\<close>

lemma zsl_in_place_iff:
  assumes rep: "zsl_rep zsl (pre @ n # suf)" and nd: "zsl_nodes zsl (sn_addr n) = Some nd"
  shows "zsl_in_place (zsl_nodes zsl) nd (fst (nxt 0 suf)) new =
    Some ((pre = [] \<or> dlt (sn_score (last pre)) new) \<and> (suf = [] \<or> dlt new (sn_score (hd suf))))"
proof -
  note r = zsl_repD[OF rep]
  have bk: "zn_backward nd = pred_addr pre" using node_dataD[OF r(3) refl] nd by (simp add: dat_def)
  have left: "pre \<noteq> [] \<Longrightarrow> \<exists>m. zsl_nodes zsl (sn_addr (last pre)) = Some m \<and> zn_score m = sn_score (last pre)"
    using node_data_in[OF r(3), of "last pre"] by auto
  have right: "suf \<noteq> [] \<Longrightarrow> \<exists>m. zsl_nodes zsl (sn_addr (hd suf)) = Some m \<and> zn_score m = sn_score (hd suf)"
    using node_data_in[OF r(3), of "hd suf"] by auto
  have nx: "fst (nxt 0 suf) = (if suf = [] then None else Some (sn_addr (hd suf)))"
    using r(5) by (cases suf) auto
  show ?thesis
    unfolding zsl_in_place_def bk nx pred_addr_def
    using left right by (cases "pre = []"; cases "suf = []") auto
qed

lemma zsorted_in_place:
  assumes srt: "zsorted (entries (pre @ n # suf))" and nan: "new \<noteq> NaN"
    and l: "pre = [] \<or> dlt (sn_score (last pre)) new" and r: "suf = [] \<or> dlt new (sn_score (hd suf))"
  shows "zsorted (entries (pre @ n\<lparr>sn_score := new\<rparr> # suf))"
proof -
  let ?a = "(sn_ele n, new)"
  have ent: "entries (pre @ n # suf) = entries pre @ entry n # entries suf" by simp
  have "zsorted (entries pre @ ?a # entries suf)"
  proof (rule zsorted_place)
    show "zsorted (entries pre @ entries suf)" using zsorted_remove srt[unfolded ent] .
    show "fst ?a \<notin> fst ` set (entries pre @ entries suf)"
      using srt by (auto simp: zsorted_def fst_entries entry_def image_Un)
    show "\<forall>x \<in> set (entries pre). zlt x ?a"
    proof (cases pre rule: rev_cases)
      case (snoc p m)
      have "sorted_wrt zlt (entries p @ [entry m])" using srt snoc by (simp add: zsorted_def sorted_wrt_append)
      then have "x = entry m \<or> zlt x (entry m)" if "x \<in> set (entries pre)" for x
        using that snoc by (auto simp: sorted_wrt_append)
      moreover have "zlt (entry m) ?a" using l snoc by (simp add: zlt_def entry_def)
      ultimately show ?thesis using zlt_trans by blast
    qed simp
    show "\<forall>x \<in> set (entries suf). \<not> zlt x ?a"
    proof (cases suf)
      case (Cons m s)
      have "sorted_wrt zlt (entry m # entries s)" using srt Cons by (simp add: zsorted_def sorted_wrt_append)
      then have "x = entry m \<or> zlt (entry m) x" if "x \<in> set (entries suf)" for x
        using that Cons by auto
      moreover have "zlt ?a (entry m)" using r Cons by (simp add: zlt_def entry_def)
      ultimately show ?thesis using zlt_trans zlt_irrefl by blast
    qed simp
  qed (simp add: nan)
  then show ?thesis by (simp add: entry_def)
qed

lemma zsl_rep_score:
  assumes rep: "zsl_rep zsl (pre @ n # suf)" and nd: "zsl_nodes zsl (sn_addr n) = Some nd"
  shows "zsl_rep (zsl\<lparr>zsl_nodes := (zsl_nodes zsl)(sn_addr n \<mapsto> nd\<lparr>zn_score := new\<rparr>)\<rparr>)
    (pre @ n\<lparr>sn_score := new\<rparr> # suf)"
proof -
  note r = zsl_repD[OF rep]
  let ?n = "n\<lparr>sn_score := new\<rparr>"
  let ?h = "(zsl_nodes zsl)(sn_addr n \<mapsto> nd\<lparr>zn_score := new\<rparr>)"
  let ?L = "pre @ n # suf" and ?L' = "pre @ ?n # suf"
  have lv: "zn_level ?h y i = zn_level (zsl_nodes zsl) y i" for y i
    using nd by (simp add: zn_level_def)
  have nx: "nxt i (p @ ?n # q) = nxt i (p @ n # q)" for i p q
    by (induction p) auto
  have "links ?h (zsl_header zsl) (zsl_level zsl) ?L'"
    unfolding links_def
  proof (intro allI impI)
    fix p s i
    assume split: "?L' = p @ s" and i: "i < ht_at (zsl_level zsl) p"
    from split[symmetric] show "zn_level ?h (pos_addr (zsl_header zsl) p) i = Some (nxt i s)"
    proof (cases rule: snoc_split_cases)
      case (1 p2)
      then show ?thesis using linksD[OF r(4), of p "p2 @ n # suf" i] i lv nx by simp
    next
      case (2 p2)
      then have "pos_addr (zsl_header zsl) p = pos_addr (zsl_header zsl) (pre @ n # p2)"
        "ht_at (zsl_level zsl) p = ht_at (zsl_level zsl) (pre @ n # p2)"
        by (simp_all add: pos_addr_def pred_addr_def ht_at_def)
      then show ?thesis using linksD[OF r(4), of "pre @ n # p2" s i] i lv 2 by simp
    qed
  qed
  moreover have "node_data ?h ?L'"
    unfolding node_data_def
  proof (intro allI impI)
    fix p m s
    assume split: "?L' = p @ m # s"
    have other: "dat ?h (sn_addr k) = dat (zsl_nodes zsl) (sn_addr k)" if "k \<in> set (pre @ suf)" for k
      using imageI[OF that, of sn_addr] r(1) by (auto simp: dat_upd)
    from split[symmetric] show "dat ?h (sn_addr m) = Some (Some (sn_ele m), sn_score m, pred_addr p, sn_ht m)"
    proof (cases rule: snoc_split_cases)
      case (1 p2)
      show ?thesis
      proof (cases p2)
        case Nil
        then show ?thesis using 1 node_dataD[OF r(3) refl] nd by (auto simp: dat_def)
      next
        case (Cons k q)
        then show ?thesis using 1 node_dataD[OF r(3), of p m "q @ n # suf"] other[of m] by simp
      qed
    next
      case (2 p2)
      then have "pred_addr p = pred_addr (pre @ n # p2)" by (simp add: pred_addr_def)
      then show ?thesis using 2 node_dataD[OF r(3), of "pre @ n # p2" m s] other[of m] by simp
    qed
  qed
  moreover have "dat ?h (zsl_header zsl) = dat (zsl_nodes zsl) (zsl_header zsl)"
    using r(1) by (auto simp: dat_upd)
  moreover have "pred_addr ?L' = pred_addr ?L" by (simp add: pred_addr_def)
  ultimately show ?thesis using rep lv by (simp add: zsl_rep_def)
qed

text \<open>The entry moves to the place of its new score, in a new node or in the old one.\<close>

lemma zslUpdateScore_sorted:
  assumes rep: "zsl_rep zsl (pre @ n # suf)" and srt: "zsorted (entries (pre @ n # suf))" and nan: "new \<noteq> NaN"
  shows "\<exists>y zsl' L' rs'. zslUpdateScore rs zsl (sn_score n) (sn_ele n) new = Some (y, zsl', rs') \<and>
    zsl_rep zsl' L' \<and> entries L' = zins (sn_ele n, new) (entries (pre @ suf)) \<and>
    dict_of L' = (dict_of (pre @ n # suf))(sn_ele n \<mapsto> y)"
proof -
  note r = zsl_repD[OF rep] and se = zsl_search_entry[OF rep srt]
  let ?us = "found_path (zsl_header zsl) pre (zsl_level zsl)"
  obtain nd where nd: "zsl_nodes zsl (sn_addr n) = Some nd" "zn_ele nd = Some (sn_ele n)"
    using node_data_in[OF r(3), of n] by auto
  have x0: "zn_level (zsl_nodes zsl) (sn_addr n) 0 = Some (nxt 0 suf)"
    using linksD[OF r(4), of "pre @ [n]" suf 0] r(5) by auto
  have ent: "entries (pre @ n # suf) = entries pre @ entry n # entries suf" by simp
  have srt': "zsorted (entries (pre @ suf))" using zsorted_remove[OF srt[unfolded ent]] by simp
  have dst: "distinct (map sn_ele (pre @ n # suf))" using srt by (simp add: zsorted_def fst_entries entry_def)
  have new: "sn_ele n \<notin> sn_ele ` set (pre @ suf)" using dst by auto
  let ?fits = "(pre = [] \<or> dlt (sn_score (last pre)) new) \<and> (suf = [] \<or> dlt new (sn_score (hd suf)))"
  note fits = zsl_in_place_iff[OF rep nd(1), of new]
  show ?thesis
  proof (cases ?fits)
    case True
    let ?z = "zsl\<lparr>zsl_nodes := (zsl_nodes zsl)(sn_addr n \<mapsto> nd\<lparr>zn_score := new\<rparr>)\<rparr>"
    let ?L = "pre @ n\<lparr>sn_score := new\<rparr> # suf"
    have "zslUpdateScore rs zsl (sn_score n) (sn_ele n) new = Some (sn_addr n, ?z, rs)"
      using se nd x0 fits True by (simp add: zslUpdateScore_def case_prod_beta)
    moreover have "entries ?L = zins (sn_ele n, new) (entries (pre @ suf))"
    proof (rule zsorted_unique)
      show "zsorted (entries ?L)" using zsorted_in_place[OF srt nan] True by blast
      show "zsorted (zins (sn_ele n, new) (entries (pre @ suf)))"
        using zsorted_zins[OF srt', of "(sn_ele n, new)"] nan new by (simp add: fst_entries(1) image_Un)
      show "map_of (entries ?L) = map_of (zins (sn_ele n, new) (entries (pre @ suf)))"
        using map_of_zins[of "(sn_ele n, new)" "entries (pre @ suf)"] new
          map_of_insert_mid[of "sn_ele n" "entries pre" new "entries suf"]
        by (simp add: fst_entries(1) image_Un entry_def)
    qed
    moreover have "dict_of ?L = (dict_of (pre @ n # suf))(sn_ele n \<mapsto> sn_addr n)"
      using dict_of_insert[of "n\<lparr>sn_score := new\<rparr>" pre suf] dict_of_insert[of n pre suf] new
      by (simp add: image_Un)
    ultimately show ?thesis using zsl_rep_score[OF rep nd(1), of new] by blast
  next
    case False
    obtain z where z: "zslDeleteNode zsl (sn_addr n) ?us = Some z" "zsl_rep z (pre @ suf)"
      "zsl_fresh z = zsl_fresh zsl" "zsl_header z = zsl_header zsl"
      using zslDeleteNode_ok[OF rep] by blast
    obtain z' L' rs' where z': "zslInsert rs z new (sn_ele n) = Some (zsl_fresh z, z', rs')" "zsl_rep z' L'"
      "entries L' = zins (sn_ele n, new) (entries (pre @ suf))"
      "dict_of L' = (dict_of (pre @ suf))(sn_ele n \<mapsto> zsl_fresh z)"
      "\<forall>m \<in> set L'. m \<in> set (pre @ suf) \<or> sn_addr m = zsl_fresh z" "zsl_header z' = zsl_header z"
      using zslInsert_sorted[OF z(2) srt' nan new] by blast
    have "sn_addr m \<noteq> sn_addr n" if "m \<in> set L'" for m
    proof (cases "m \<in> set (pre @ suf)")
      case True
      moreover have "sn_addr n \<notin> sn_addr ` set (pre @ suf)" using r(1) by auto
      ultimately show ?thesis by (metis imageI)
    next
      case False
      then show ?thesis using z'(5) that r(2) z(3) by auto
    qed
    then have "sn_addr n \<notin> sn_addr ` set L'" by (metis imageE)
    then have "sn_addr n \<notin> set (zsl_header z' # map sn_addr L')" using r(1) z(4) z'(6) by auto
    then have "zsl_rep (zslFreeNode (sn_addr n) z') L'" by (rule zsl_rep_free[OF z'(2)])
    moreover have "zslUpdateScore rs zsl (sn_score n) (sn_ele n) new =
        Some (zsl_fresh z, zslFreeNode (sn_addr n) z', rs')"
      using se nd x0 fits False z(1) z'(1) by (simp add: zslUpdateScore_def case_prod_beta)
    moreover have "dict_of L' = (dict_of (pre @ n # suf))(sn_ele n \<mapsto> zsl_fresh z)"
      using z'(4) dict_of_remove[OF dst] by simp
    ultimately show ?thesis using z'(3) by blast
  qed
qed

end
