(* ===== verification/Zset.thy ===== *)
theory Zset
  imports SkiplistSorted
begin

text \<open>
  Sorted set objects (\<open>t_zset.c\<close>), in the ziplist and in the skip list encoding. A ziplist is
  the sequence of its (element, score) pairs: the score text it stores is read back as the same
  double, so the pair carries the double. The locale \<open>sorted_store\<close> states what an encoding
  promises; both encodings are interpretations of it, and the laws of \<open>zsetAdd\<close>, \<open>zsetDel\<close>,
  \<open>zsetScore\<close> and the conversion between the encodings follow from these promises.
\<close>

section \<open>Objects and the ziplist operations\<close>

record zset =
  zs_dict :: "sds \<Rightarrow> addr option"
  zs_zsl :: zskiplist

datatype zobj = ZL "zentry list" | ZS zset

text \<open>The index of the matching element and its score.\<close>

fun zzl_find :: "zentry list \<Rightarrow> sds \<Rightarrow> nat \<Rightarrow> (nat \<times> dbl) option" where
  "zzl_find [] ele i = None"
| "zzl_find ((e, s) # zl) ele i = (if e = ele then Some (i, s) else zzl_find zl ele (Suc i))"

definition zzlFind :: "zentry list \<Rightarrow> sds \<Rightarrow> (nat \<times> dbl) option" where
  "zzlFind zl ele = zzl_find zl ele 0"

definition zzlDelete :: "zentry list \<Rightarrow> nat \<Rightarrow> zentry list" where
  "zzlDelete zl i = take i zl @ drop (Suc i) zl"

definition zzlCompareElements :: "sds \<Rightarrow> sds \<Rightarrow> int" where
  "zzlCompareElements e c = sdscmp e c"

definition zzlInsertAt :: "zentry list \<Rightarrow> nat option \<Rightarrow> sds \<Rightarrow> dbl \<Rightarrow> zentry list" where
  "zzlInsertAt zl eptr ele score = (case eptr of
       None \<Rightarrow> zl @ [(ele, score)]
     | Some i \<Rightarrow> take i zl @ (ele, score) # drop i zl)"

fun zzl_place :: "zentry list \<Rightarrow> sds \<Rightarrow> dbl \<Rightarrow> nat \<Rightarrow> nat option" where
  "zzl_place [] ele score i = None"
| "zzl_place ((e, s) # zl) ele score i =
     (if dlt score s then Some i
      else if deq s score \<and> zzlCompareElements e ele > 0 then Some i
      else zzl_place zl ele score (Suc i))"

definition zzlInsert :: "zentry list \<Rightarrow> sds \<Rightarrow> dbl \<Rightarrow> zentry list" where
  "zzlInsert zl ele score = zzlInsertAt zl (zzl_place zl ele score 0) ele score"

definition zzlLength :: "zentry list \<Rightarrow> int" where
  "zzlLength zl = int (length zl)"

section \<open>The common interface\<close>

definition zsetLength :: "zobj \<Rightarrow> int" where
  "zsetLength z = (case z of ZL zl \<Rightarrow> zzlLength zl | ZS zs \<Rightarrow> zsl_length (zs_zsl zs))"

definition createZsetObject :: zobj where
  "createZsetObject = ZS \<lparr>zs_dict = Map.empty, zs_zsl = zslCreate\<rparr>"

definition createZsetZiplistObject :: zobj where
  "createZsetZiplistObject = ZL []"

fun convert_loop :: "nat list \<Rightarrow> zset \<Rightarrow> zentry list \<Rightarrow> (zset \<times> nat list) option" where
  "convert_loop rs zs [] = Some (zs, rs)"
| "convert_loop rs zs ((ele, score) # zl) = do {
     (x, zsl, rs) \<leftarrow> zslInsert rs (zs_zsl zs) score ele;
     if zs_dict zs ele \<noteq> None then None
     else convert_loop rs (zs\<lparr>zs_dict := (zs_dict zs)(ele \<mapsto> x), zs_zsl := zsl\<rparr>) zl
   }"

text \<open>The nodes from an address on, along the bottom level.\<close>

partial_function (option) zsl_bottom :: "zheap \<Rightarrow> addr option \<Rightarrow> zentry list \<Rightarrow> zentry list option" where
  "zsl_bottom h node zl = (case node of
       None \<Rightarrow> Some zl
     | Some x \<Rightarrow> do {
         nd \<leftarrow> h x;
         e \<leftarrow> zn_ele nd;
         (f, s) \<leftarrow> zn_level h x 0;
         zsl_bottom h f (zzlInsertAt zl None e (zn_score nd))
       })"

definition zsetConvert_skiplist :: "nat list \<Rightarrow> zobj \<Rightarrow> (zobj \<times> nat list) option" where
  "zsetConvert_skiplist rs z = (case z of
       ZS zs \<Rightarrow> Some (z, rs)
     | ZL zl \<Rightarrow>
         if zl = [] then None
         else map_option (\<lambda>(zs, rs). (ZS zs, rs))
                (convert_loop rs \<lparr>zs_dict = Map.empty, zs_zsl = zslCreate\<rparr> zl))"

definition zsetConvert_ziplist :: "zobj \<Rightarrow> zobj option" where
  "zsetConvert_ziplist z = (case z of
       ZL zl \<Rightarrow> Some z
     | ZS zs \<Rightarrow> do {
         let h = zsl_nodes (zs_zsl zs);
         (f, s) \<leftarrow> zn_level h (zsl_header (zs_zsl zs)) 0;
         map_option ZL (zsl_bottom h f [])
       })"

text \<open>The outer option is a failure of the program, the inner one \<open>C_ERR\<close>.\<close>

definition zs_score :: "zset \<Rightarrow> sds \<Rightarrow> dbl option option" where
  "zs_score zs ele = (case zs_dict zs ele of
       None \<Rightarrow> Some None
     | Some x \<Rightarrow> map_option (\<lambda>nd. Some (zn_score nd)) (zsl_nodes (zs_zsl zs) x))"

definition zsetScore :: "zobj \<Rightarrow> sds \<Rightarrow> dbl option option" where
  "zsetScore z member = (case z of
       ZL zl \<Rightarrow> Some (map_option snd (zzlFind zl member))
     | ZS zs \<Rightarrow> zs_score zs member)"

abbreviation (input) ZADD_NONE :: int where "ZADD_NONE \<equiv> 0"
abbreviation (input) ZADD_INCR :: int where "ZADD_INCR \<equiv> 1"
abbreviation (input) ZADD_NX :: int where "ZADD_NX \<equiv> 2"
abbreviation (input) ZADD_XX :: int where "ZADD_XX \<equiv> 4"
abbreviation (input) ZADD_NOP :: int where "ZADD_NOP \<equiv> 8"
abbreviation (input) ZADD_NAN :: int where "ZADD_NAN \<equiv> 16"
abbreviation (input) ZADD_ADDED :: int where "ZADD_ADDED \<equiv> 32"
abbreviation (input) ZADD_UPDATED :: int where "ZADD_UPDATED \<equiv> 64"

text \<open>The results of \<open>zsetAdd\<close>: the return value, the flags, what \<open>newscore\<close> receives, and
  the object.\<close>

record zadd_result =
  za_ret :: int
  za_flags :: int
  za_newscore :: "dbl option"
  za_obj :: zobj

definition zadd_result_of :: "int \<Rightarrow> int \<Rightarrow> dbl option \<Rightarrow> zobj \<Rightarrow> zadd_result" where
  "zadd_result_of r fl ns z = \<lparr>za_ret = r, za_flags = fl, za_newscore = ns, za_obj = z\<rparr>"

definition zl_update :: "zentry list \<Rightarrow> nat \<Rightarrow> sds \<Rightarrow> dbl \<Rightarrow> zentry list" where
  "zl_update zl i ele score = zzlInsert (zzlDelete zl i) ele score"

definition zs_update :: "nat list \<Rightarrow> zset \<Rightarrow> sds \<Rightarrow> dbl \<Rightarrow> dbl \<Rightarrow> (zset \<times> nat list) option" where
  "zs_update rs zs ele curscore score = do {
     (x, zsl, rs) \<leftarrow> zslUpdateScore rs (zs_zsl zs) curscore ele score;
     Some (zs\<lparr>zs_dict := (zs_dict zs)(ele \<mapsto> x), zs_zsl := zsl\<rparr>, rs)
   }"

definition zs_insert :: "nat list \<Rightarrow> zset \<Rightarrow> sds \<Rightarrow> dbl \<Rightarrow> (zset \<times> nat list) option" where
  "zs_insert rs zs ele score = do {
     (x, zsl, rs) \<leftarrow> zslInsert rs (zs_zsl zs) score ele;
     if zs_dict zs ele \<noteq> None then None
     else Some (zs\<lparr>zs_dict := (zs_dict zs)(ele \<mapsto> x), zs_zsl := zsl\<rparr>, rs)
   }"

unbundle bit_operations_syntax

definition zsetAdd ::
  "int \<Rightarrow> int \<Rightarrow> nat list \<Rightarrow> zobj \<Rightarrow> dbl \<Rightarrow> sds \<Rightarrow> int \<Rightarrow> (zadd_result \<times> nat list) option" where
  "zsetAdd max_entries max_value rs z score ele flags =
     (let incr = (flags AND ZADD_INCR) \<noteq> 0; nx = (flags AND ZADD_NX) \<noteq> 0; xx = (flags AND ZADD_XX) \<noteq> 0 in
      if isnan score then Some (zadd_result_of 0 ZADD_NAN None z, rs)
      else (case z of
        ZL zl \<Rightarrow> (case zzlFind zl ele of
          Some (i, curscore) \<Rightarrow>
            if nx then Some (zadd_result_of 1 ZADD_NOP None z, rs)
            else
              let new = (if incr then dadd score curscore else score) in
              if incr \<and> isnan new then Some (zadd_result_of 0 ZADD_NAN None z, rs)
              else
                let ns = (if incr then Some new else None) in
                if \<not> deq new curscore
                then Some (zadd_result_of 1 ZADD_UPDATED ns (ZL (zl_update zl i ele new)), rs)
                else Some (zadd_result_of 1 0 ns z, rs)
        | None \<Rightarrow>
            if \<not> xx then
              let zl = zzlInsert zl ele score in
              if zzlLength zl > max_entries \<or> int (length ele) > max_value
              then map_option (\<lambda>(z, rs). (zadd_result_of 1 ZADD_ADDED (Some score) z, rs))
                     (zsetConvert_skiplist rs (ZL zl))
              else Some (zadd_result_of 1 ZADD_ADDED (Some score) (ZL zl), rs)
            else Some (zadd_result_of 1 ZADD_NOP None z, rs))
      | ZS zs \<Rightarrow> do {
          found \<leftarrow> zs_score zs ele;
          (case found of
            Some curscore \<Rightarrow>
              if nx then Some (zadd_result_of 1 ZADD_NOP None z, rs)
              else
                let new = (if incr then dadd score curscore else score) in
                if incr \<and> isnan new then Some (zadd_result_of 0 ZADD_NAN None z, rs)
                else
                  let ns = (if incr then Some new else None) in
                  if \<not> deq new curscore
                  then map_option (\<lambda>(zs, rs). (zadd_result_of 1 ZADD_UPDATED ns (ZS zs), rs))
                         (zs_update rs zs ele curscore new)
                  else Some (zadd_result_of 1 0 ns z, rs)
          | None \<Rightarrow>
              if \<not> xx
              then map_option (\<lambda>(zs, rs). (zadd_result_of 1 ZADD_ADDED (Some score) (ZS zs), rs))
                     (zs_insert rs zs ele score)
              else Some (zadd_result_of 1 ZADD_NOP None z, rs))
        }))"

definition zs_delete :: "zset \<Rightarrow> sds \<Rightarrow> (bool \<times> zset) option" where
  "zs_delete zs ele = do {
     found \<leftarrow> zs_score zs ele;
     (case found of
        None \<Rightarrow> Some (False, zs)
      | Some score \<Rightarrow> do {
          (ret, zsl) \<leftarrow> zslDelete (zs_zsl zs) score ele;
          if ret then Some (True, zs\<lparr>zs_dict := (zs_dict zs)(ele := None), zs_zsl := zsl\<rparr>) else None
        })
   }"

definition zsetDel :: "zobj \<Rightarrow> sds \<Rightarrow> (bool \<times> zobj) option" where
  "zsetDel z ele = (case z of
       ZL zl \<Rightarrow> (case zzlFind zl ele of
           Some (i, _) \<Rightarrow> Some (True, ZL (zzlDelete zl i))
         | None \<Rightarrow> Some (False, z))
     | ZS zs \<Rightarrow> map_option (\<lambda>(b, zs). (b, ZS zs)) (zs_delete zs ele))"

section \<open>What an encoding promises\<close>

locale sorted_store =
  fixes holds :: "'z \<Rightarrow> zentry list \<Rightarrow> bool"
    and score_of :: "'z \<Rightarrow> sds \<Rightarrow> dbl option option"
    and insert_new :: "nat list \<Rightarrow> 'z \<Rightarrow> sds \<Rightarrow> dbl \<Rightarrow> ('z \<times> nat list) option"
    and change_score :: "nat list \<Rightarrow> 'z \<Rightarrow> sds \<Rightarrow> dbl \<Rightarrow> dbl \<Rightarrow> ('z \<times> nat list) option"
    and delete_ele :: "'z \<Rightarrow> sds \<Rightarrow> (bool \<times> 'z) option"
  assumes holds_sorted: "holds z xs \<Longrightarrow> zsorted xs"
    and score_law: "holds z xs \<Longrightarrow> score_of z e = Some (map_of xs e)"
    and insert_law: "holds z xs \<Longrightarrow> map_of xs e = None \<Longrightarrow> s \<noteq> NaN \<Longrightarrow>
      \<exists>z' rs'. insert_new rs z e s = Some (z', rs') \<and> holds z' (zins (e, s) xs)"
    and change_law: "holds z xs \<Longrightarrow> map_of xs e = Some cur \<Longrightarrow> s \<noteq> NaN \<Longrightarrow>
      \<exists>z' rs'. change_score rs z e cur s = Some (z', rs') \<and> holds z' (zins (e, s) (zdel e xs))"
    and delete_law: "holds z xs \<Longrightarrow>
      \<exists>z'. delete_ele z e = Some (map_of xs e \<noteq> None, z') \<and> holds z' (zdel e xs)"
begin

text \<open>Setting a score, whether or not the element is there.\<close>

definition put :: "nat list \<Rightarrow> 'z \<Rightarrow> sds \<Rightarrow> dbl \<Rightarrow> ('z \<times> nat list) option" where
  "put rs z e s = do {
     found \<leftarrow> score_of z e;
     (case found of
        None \<Rightarrow> insert_new rs z e s
      | Some cur \<Rightarrow> if deq s cur then Some (z, rs) else change_score rs z e cur s)
   }"

lemma put_ok:
  assumes "holds z xs" and "s \<noteq> NaN"
  shows "\<exists>z' rs'. put rs z e s = Some (z', rs') \<and> holds z' (zins (e, s) (zdel e xs))"
proof (cases "map_of xs e")
  case None
  then have "zdel e xs = xs" by (intro zdel_absent) (simp add: map_of_eq_None_iff)
  then show ?thesis using insert_law[OF assms(1) None assms(2)] score_law[OF assms(1)] None
    by (simp add: put_def)
next
  case (Some cur)
  show ?thesis
  proof (cases "deq s cur")
    case True
    have "zsorted xs" using holds_sorted[OF assms(1)] .
    moreover have "map_of (zins (e, s) (zdel e xs)) = map_of xs"
      using map_of_zins[of "(e, s)" "zdel e xs"] Some True by (auto simp: map_of_zdel deq_def)
    ultimately have "zins (e, s) (zdel e xs) = xs"
      using zsorted_unique zsorted_zins[of "zdel e xs" "(e, s)"] assms(2) by simp
    then show ?thesis using Some True assms(1) score_law[OF assms(1)] by (simp add: put_def)
  next
    case False
    then show ?thesis using change_law[OF assms(1) Some assms(2)] score_law[OF assms(1)] Some
      by (simp add: put_def)
  qed
qed

lemma map_after_put:
  assumes "holds z xs" and "s \<noteq> NaN" and "put rs z e s = Some (z', rs')"
  obtains ys where "holds z' ys" and "map_of ys = (map_of xs)(e \<mapsto> s)"
  using put_ok[OF assms(1,2), of rs e] assms(3) map_of_zins[of "(e, s)" "zdel e xs"] that
  by (auto simp: map_of_zdel)

end

section \<open>The ziplist keeps the promises\<close>

lemma zzl_find_eq: "zzl_find zl ele i =
  (case map_of zl ele of None \<Rightarrow> None | Some s \<Rightarrow> Some (i + length (takeWhile (\<lambda>x. fst x \<noteq> ele) zl), s))"
  by (induction zl ele i rule: zzl_find.induct) (auto split: option.splits)

lemma zzlFind_split:
  assumes "zsorted (pre @ (e, s) # suf)"
  shows "zzlFind (pre @ (e, s) # suf) e = Some (length pre, s)"
proof -
  have pre: "e \<notin> fst ` set pre" using assms by (auto simp: zsorted_def)
  then have "takeWhile (\<lambda>x. fst x \<noteq> e) (pre @ (e, s) # suf) = pre" by (subst takeWhile_append2) force+
  then show ?thesis using map_of_insert_mid[OF pre, of s suf] by (simp add: zzlFind_def zzl_find_eq)
qed

lemma zzlFind_score: "map_option snd (zzlFind zl e) = map_of zl e"
  by (simp add: zzlFind_def zzl_find_eq split: option.split)

lemma zzlFind_None: "zzlFind zl e = None \<longleftrightarrow> map_of zl e = None"
  by (simp add: zzlFind_def zzl_find_eq split: option.split)

lemma zzlDelete_mid: "zzlDelete (pre @ a # suf) (length pre) = pre @ suf"
  by (simp add: zzlDelete_def)

lemma zzl_place_eq:
  assumes "\<forall>x \<in> set zl. snd x \<noteq> NaN" and "score \<noteq> NaN" and "ele \<notin> fst ` set zl"
  shows "zzl_place zl ele score i =
    (if dropWhile (\<lambda>x. zlt x (ele, score)) zl = [] then None
     else Some (i + length (takeWhile (\<lambda>x. zlt x (ele, score)) zl)))"
  using assms
proof (induction zl ele score i rule: zzl_place.induct)
  case (2 e s zl ele score i)
  have ne: "(ele, score) \<noteq> (e, s)" and nan: "snd (e, s) \<noteq> NaN" "snd (ele, score) \<noteq> NaN"
    using 2(2-4) by auto
  have stop: "dlt score s \<or> deq s score \<and> zzlCompareElements e ele > 0 \<longleftrightarrow> zlt (ele, score) (e, s)"
    using 2(3) by (auto simp: zlt_def deq_def zzlCompareElements_def sdscmp_pos)
  have IH: "zlt (e, s) (ele, score) \<Longrightarrow> zzl_place zl ele score (Suc i) =
    (if dropWhile (\<lambda>x. zlt x (ele, score)) zl = [] then None
     else Some (Suc i + length (takeWhile (\<lambda>x. zlt x (ele, score)) zl)))"
    using 2 zlt_asym[of "(e, s)" "(ele, score)"] stop by simp
  show ?case
  proof (cases "zlt (e, s) (ele, score)")
    case True
    then show ?thesis using IH stop zlt_asym[OF True] by (simp del: dropWhile_eq_Nil_conv)
  next
    case False
    then have "zlt (ele, score) (e, s)" using zlt_total[OF nan(2,1) ne] by blast
    then show ?thesis using False stop by (auto simp del: dropWhile_eq_Nil_conv)
  qed
qed simp

lemma zzlInsert_zins:
  assumes "zsorted zl" and "s \<noteq> NaN" and "e \<notin> fst ` set zl"
  shows "zzlInsert zl e s = zins (e, s) zl"
proof -
  let ?P = "\<lambda>x. zlt x (e, s)"
  have split: "take (length (takeWhile ?P zl)) zl = takeWhile ?P zl"
    "drop (length (takeWhile ?P zl)) zl = dropWhile ?P zl"
    using append_eq_conv_conj[of "takeWhile ?P zl" "dropWhile ?P zl" zl] by auto
  have nan: "\<forall>x \<in> set zl. snd x \<noteq> NaN" using assms(1) by (simp add: zsorted_def)
  show ?thesis
  proof (cases "dropWhile ?P zl = []")
    case True
    moreover have "takeWhile ?P zl = zl" using True by (metis append_Nil2 takeWhile_dropWhile_id)
    ultimately show ?thesis using zzl_place_eq[OF nan assms(2,3), of 0]
      by (simp add: zzlInsert_def zzlInsertAt_def zins_def del: dropWhile_eq_Nil_conv takeWhile_eq_all_conv)
  next
    case False
    then show ?thesis using zzl_place_eq[OF nan assms(2,3), of 0] split
      by (simp add: zzlInsert_def zzlInsertAt_def zins_def del: dropWhile_eq_Nil_conv)
  qed
qed

definition zl_score :: "zentry list \<Rightarrow> sds \<Rightarrow> dbl option option" where
  "zl_score zl e = Some (map_option snd (zzlFind zl e))"

definition zl_insert :: "nat list \<Rightarrow> zentry list \<Rightarrow> sds \<Rightarrow> dbl \<Rightarrow> (zentry list \<times> nat list) option" where
  "zl_insert rs zl e s = Some (zzlInsert zl e s, rs)"

definition zl_change :: "nat list \<Rightarrow> zentry list \<Rightarrow> sds \<Rightarrow> dbl \<Rightarrow> dbl \<Rightarrow> (zentry list \<times> nat list) option" where
  "zl_change rs zl e cur s = map_option (\<lambda>(i, _). (zl_update zl i e s, rs)) (zzlFind zl e)"

definition zl_delete :: "zentry list \<Rightarrow> sds \<Rightarrow> (bool \<times> zentry list) option" where
  "zl_delete zl e = Some (case zzlFind zl e of
     Some (i, _) \<Rightarrow> (True, zzlDelete zl i) | None \<Rightarrow> (False, zl))"

definition zl_holds :: "zentry list \<Rightarrow> zentry list \<Rightarrow> bool" where
  "zl_holds zl xs \<longleftrightarrow> zl = xs \<and> zsorted xs"

interpretation zl: sorted_store zl_holds zl_score zl_insert zl_change zl_delete
proof
  fix z :: "zentry list" and xs e cur s and rs :: "nat list"
  assume h: "zl_holds z xs"
  then have z: "z = xs" "zsorted xs" by (simp_all add: zl_holds_def)
  show "zsorted xs" by (rule z)
  show "zl_score z e = Some (map_of xs e)" using z by (simp add: zl_score_def zzlFind_score)
  show "\<exists>z' rs'. zl_insert rs z e s = Some (z', rs') \<and> zl_holds z' (zins (e, s) xs)"
    if "map_of xs e = None" "s \<noteq> NaN"
    using that z zzlInsert_zins[of xs s e] zsorted_zins[of xs "(e, s)"]
    by (simp add: zl_insert_def zl_holds_def map_of_eq_None_iff)
  show "\<exists>z'. zl_delete z e = Some (map_of xs e \<noteq> None, z') \<and> zl_holds z' (zdel e xs)"
  proof (cases "map_of xs e")
    case None
    then show ?thesis using z zzlFind_None[of xs e] zdel_absent[of e xs]
      by (simp add: zl_delete_def zl_holds_def map_of_eq_None_iff)
  next
    case (Some v)
    then obtain pre suf where x: "xs = pre @ (e, v) # suf" by (rule map_of_split)
    then show ?thesis
      using z Some zzlFind_split[of pre e v suf] zdel_mid[of pre e v suf] zsorted_remove[of pre "(e, v)" suf]
      by (simp add: zl_delete_def zl_holds_def zzlDelete_mid)
  qed
  show "\<exists>z' rs'. zl_change rs z e cur s = Some (z', rs') \<and> zl_holds z' (zins (e, s) (zdel e xs))"
    if cur: "map_of xs e = Some cur" and nan: "s \<noteq> NaN"
  proof -
    obtain pre suf where x: "xs = pre @ (e, cur) # suf" using cur by (rule map_of_split)
    have del: "zdel e xs = pre @ suf" using zdel_mid z(2) x by simp
    then have "zzlInsert (pre @ suf) e s = zins (e, s) (pre @ suf)"
      using zzlInsert_zins[of "pre @ suf" s e] zsorted_zdel[OF z(2), of e] fst_zdel[of e xs] nan by simp
    then show ?thesis
      using z x del zzlFind_split[of pre e cur suf] zsorted_zins[of "zdel e xs" "(e, s)"] nan
        zsorted_zdel[OF z(2), of e] fst_zdel[of e xs]
      by (simp add: zl_change_def zl_update_def zl_holds_def zzlDelete_mid)
  qed
qed

section \<open>The skip list with its dictionary keeps the promises\<close>

definition zs_holds :: "zset \<Rightarrow> zentry list \<Rightarrow> bool" where
  "zs_holds zs xs \<longleftrightarrow> zsorted xs \<and>
     (\<exists>L. zsl_rep (zs_zsl zs) L \<and> entries L = xs \<and> zs_dict zs = dict_of L)"

lemma zslCreate_rep: "zsl_rep zslCreate []"
  by (auto simp: zsl_rep_def zslCreate_def zslCreateNode_def node_data_def links_def dat_def
      zn_level_def ht_at_def)

lemma zs_empty: "zs_holds \<lparr>zs_dict = Map.empty, zs_zsl = zslCreate\<rparr> []"
  using zslCreate_rep by (auto simp: zs_holds_def dict_of_def intro!: exI[of _ "[]"])

lemma map_of_entries:
  assumes "zsorted (entries L)"
  shows "map_of (entries L) e = Some s \<longleftrightarrow> (\<exists>n \<in> set L. sn_ele n = e \<and> sn_score n = s)"
    "map_of (entries L) e = None \<longleftrightarrow> e \<notin> sn_ele ` set L"
  using assms by (auto simp: zsorted_def map_of_eq_Some_iff map_of_eq_None_iff entries_def entry_def image_image)

lemma zs_score_holds:
  assumes "zs_holds zs xs"
  shows "zs_score zs e = Some (map_of xs e)"
proof -
  obtain L where L: "zsl_rep (zs_zsl zs) L" "entries L = xs" "zs_dict zs = dict_of L" and srt: "zsorted xs"
    using assms by (auto simp: zs_holds_def)
  show ?thesis
  proof (cases "dict_of L e")
    case None
    then have "map_of xs e = None" using L srt map_of_entries(2)[of L e] by (simp add: dict_of_None)
    then show ?thesis using L(3) None by (simp add: zs_score_def)
  next
    case (Some a)
    then obtain n where n: "n \<in> set L" "sn_ele n = e" "sn_addr n = a" using L srt dict_of_Some[of L e a] by auto
    then have "map_of xs e = Some (sn_score n)" using map_of_entries(1)[of L e "sn_score n"] L srt by auto
    then show ?thesis using n Some L node_data_in[OF zsl_repD(3)[OF L(1)] n(1)] by (auto simp: zs_score_def)
  qed
qed

lemma zs_insert_holds:
  assumes h: "zs_holds zs xs" and new: "map_of xs e = None" and nan: "s \<noteq> NaN"
  shows "\<exists>zs' rs'. zs_insert rs zs e s = Some (zs', rs') \<and> zs_holds zs' (zins (e, s) xs)"
proof -
  obtain L where L: "zsl_rep (zs_zsl zs) L" "entries L = xs" "zs_dict zs = dict_of L" and srt: "zsorted xs"
    using h by (auto simp: zs_holds_def)
  have e: "e \<notin> sn_ele ` set L" using map_of_entries(2)[of L e] new L srt by simp
  obtain zsl' L' rs' where z: "zslInsert rs (zs_zsl zs) s e = Some (zsl_fresh (zs_zsl zs), zsl', rs')"
    "zsl_rep zsl' L'" "entries L' = zins (e, s) xs" "dict_of L' = (dict_of L)(e \<mapsto> zsl_fresh (zs_zsl zs))"
    using zslInsert_sorted[OF L(1) _ nan e, of rs] L(2) srt by auto
  have "zsorted (zins (e, s) xs)" using zsorted_zins[OF srt, of "(e, s)"] nan new by (simp add: map_of_eq_None_iff)
  then have "zs_holds (zs\<lparr>zs_dict := (zs_dict zs)(e \<mapsto> zsl_fresh (zs_zsl zs)), zs_zsl := zsl'\<rparr>) (zins (e, s) xs)"
    using z L(3) by (auto simp: zs_holds_def)
  then show ?thesis using z(1) L(3) e by (simp add: zs_insert_def dict_of_None)
qed

text \<open>The node of an element that is there.\<close>

lemma entries_mid:
  assumes "entries L = xs" and "zsorted xs" and "map_of xs e = Some s"
  obtains pre n suf where "L = pre @ n # suf" "sn_ele n = e" "sn_score n = s" "entries (pre @ suf) = zdel e xs"
proof -
  obtain n where n: "n \<in> set L" "sn_ele n = e" "sn_score n = s"
    using map_of_entries(1)[of L e s] assms by auto
  then obtain pre suf where L: "L = pre @ n # suf" by (meson split_list)
  then have "zdel e xs = entries (pre @ suf)"
    using zdel_mid[of "entries pre" e s "entries suf"] assms n by (simp add: entry_def)
  then show thesis using that L n by metis
qed

lemma zs_update_holds:
  assumes h: "zs_holds zs xs" and cur: "map_of xs e = Some cur" and nan: "s \<noteq> NaN"
  shows "\<exists>zs' rs'. zs_update rs zs e cur s = Some (zs', rs') \<and> zs_holds zs' (zins (e, s) (zdel e xs))"
proof -
  obtain L where L: "zsl_rep (zs_zsl zs) L" "entries L = xs" "zs_dict zs = dict_of L" and srt: "zsorted xs"
    using h by (auto simp: zs_holds_def)
  obtain pre n suf where n: "L = pre @ n # suf" "sn_ele n = e" "sn_score n = cur" "entries (pre @ suf) = zdel e xs"
    using entries_mid[OF L(2) srt cur] by blast
  obtain y zsl' L' rs' where z: "zslUpdateScore rs (zs_zsl zs) cur e s = Some (y, zsl', rs')"
    "zsl_rep zsl' L'" "entries L' = zins (e, s) (zdel e xs)" "dict_of L' = (dict_of L)(e \<mapsto> y)"
    using zslUpdateScore_sorted[of "zs_zsl zs" pre n suf s rs] L n srt nan by auto
  have "zsorted (zins (e, s) (zdel e xs))" using zsorted_zins[of "zdel e xs" "(e, s)"] nan srt by simp
  then have "zs_holds (zs\<lparr>zs_dict := (zs_dict zs)(e \<mapsto> y), zs_zsl := zsl'\<rparr>) (zins (e, s) (zdel e xs))"
    using z L(3) by (auto simp: zs_holds_def)
  then show ?thesis using z(1) by (simp add: zs_update_def)
qed

lemma zs_delete_holds:
  assumes h: "zs_holds zs xs"
  shows "\<exists>zs'. zs_delete zs e = Some (map_of xs e \<noteq> None, zs') \<and> zs_holds zs' (zdel e xs)"
proof (cases "map_of xs e")
  case None
  then have "zdel e xs = xs" by (intro zdel_absent) (simp add: map_of_eq_None_iff)
  then show ?thesis using zs_score_holds[OF h, of e] h None by (simp add: zs_delete_def)
next
  case (Some cur)
  obtain L where L: "zsl_rep (zs_zsl zs) L" "entries L = xs" "zs_dict zs = dict_of L" and srt: "zsorted xs"
    using h by (auto simp: zs_holds_def)
  obtain pre n suf where n: "L = pre @ n # suf" "sn_ele n = e" "sn_score n = cur" "entries (pre @ suf) = zdel e xs"
    using entries_mid[OF L(2) srt Some] by blast
  obtain zsl' where z: "zslDelete (zs_zsl zs) cur e = Some (True, zsl')" "zsl_rep zsl' (pre @ suf)"
    using zslDelete_sorted[of "zs_zsl zs" pre n suf] L n srt by auto
  have "distinct (map sn_ele (pre @ n # suf))" using srt n(1)
    by (simp add: zsorted_def fst_entries entry_def flip: L(2))
  then have "dict_of (pre @ suf) = (dict_of L)(e := None)" using dict_of_remove[of pre n suf] n by simp
  then have "zs_holds (zs\<lparr>zs_dict := (zs_dict zs)(e := None), zs_zsl := zsl'\<rparr>) (zdel e xs)"
    using z(2) L(3) n(4) srt by (auto simp: zs_holds_def)
  then show ?thesis using zs_score_holds[OF h, of e] Some z(1) by (simp add: zs_delete_def)
qed

interpretation zs: sorted_store zs_holds zs_score zs_insert zs_update zs_delete
  by unfold_locales
    (use zs_score_holds zs_insert_holds zs_update_holds zs_delete_holds in \<open>auto simp: zs_holds_def\<close>)

section \<open>Sorted set objects\<close>

definition zset_holds :: "zobj \<Rightarrow> zentry list \<Rightarrow> bool" where
  "zset_holds z xs = (case z of ZL zl \<Rightarrow> zl_holds zl xs | ZS zs \<Rightarrow> zs_holds zs xs)"

lemma zset_holds_sorted: "zset_holds z xs \<Longrightarrow> zsorted xs"
  by (cases z) (auto simp: zset_holds_def dest: zl.holds_sorted zs.holds_sorted)

lemma zset_holds_empty: "zset_holds createZsetObject []" "zset_holds createZsetZiplistObject []"
  using zs_empty by (simp_all add: zset_holds_def createZsetObject_def createZsetZiplistObject_def zl_holds_def)

lemma zsetScore_holds: "zset_holds z xs \<Longrightarrow> zsetScore z e = Some (map_of xs e)"
  by (cases z)
    (auto simp: zset_holds_def zsetScore_def zzlFind_score zl_holds_def dest: zs.score_law)

lemma zsetLength_holds: "zset_holds z xs \<Longrightarrow> zsetLength z = int (length xs)"
  by (cases z)
    (auto simp: zset_holds_def zsetLength_def zzlLength_def zl_holds_def zs_holds_def entries_def dest: zsl_repD(9))

lemma zsetDel_holds:
  assumes "zset_holds z xs"
  shows "\<exists>z'. zsetDel z e = Some (map_of xs e \<noteq> None, z') \<and> zset_holds z' (zdel e xs)"
proof (cases z)
  case (ZL zl)
  then obtain zl' where zl': "zl_delete zl e = Some (map_of xs e \<noteq> None, zl')" "zl_holds zl' (zdel e xs)"
    using zl.delete_law[of zl xs e] assms by (auto simp: zset_holds_def)
  then have "zsetDel z e = Some (map_of xs e \<noteq> None, ZL zl')"
    using ZL by (auto simp: zsetDel_def zl_delete_def split: option.splits)
  then show ?thesis using zl' by (simp add: zset_holds_def)
next
  case (ZS zs)
  then show ?thesis
    using zs.delete_law[of zs xs e] assms by (auto simp: zset_holds_def zsetDel_def)
qed

lemma convert_loop_holds:
  assumes "zs_holds zs ys" and "\<forall>x \<in> set zl. snd x \<noteq> NaN" and "distinct (map fst zl)"
    and "fst ` set zl \<inter> fst ` set ys = {}"
  shows "\<exists>zs' rs' zs''. convert_loop rs zs zl = Some (zs', rs') \<and> zs_holds zs' zs'' \<and>
    map_of zs'' = map_of ys ++ map_of zl"
  using assms
proof (induction zl arbitrary: rs zs ys)
  case Nil
  then show ?case by auto
next
  case (Cons a zl)
  obtain e s where a: "a = (e, s)" by (cases a)
  have new: "map_of ys e = None" using Cons.prems(4) a by (auto simp: map_of_eq_None_iff)
  obtain z1 rs1 where z1: "zs_insert rs zs e s = Some (z1, rs1)" "zs_holds z1 (zins (e, s) ys)"
    using zs.insert_law[OF Cons.prems(1) new] Cons.prems(2) a by force
  have set: "fst ` set (zins (e, s) ys) = insert e (fst ` set ys)"
    using new by (metis dom_map_of_conv_image_fst dom_fun_upd fst_conv map_of_eq_None_iff map_of_zins option.distinct(1) snd_conv)
  have "\<exists>zs' rs' zs''. convert_loop rs1 z1 zl = Some (zs', rs') \<and> zs_holds zs' zs'' \<and>
      map_of zs'' = map_of (zins (e, s) ys) ++ map_of zl"
    using Cons.prems a set by (intro Cons.IH[OF z1(2)]) auto
  moreover have "convert_loop rs zs (a # zl) = convert_loop rs1 z1 zl"
    using z1(1) a by (auto simp: zs_insert_def split: option.splits bind_splits if_splits)
  moreover have "map_of (zins (e, s) ys) ++ map_of zl = map_of ys ++ map_of (a # zl)"
  proof -
    have "e \<notin> dom (map_of zl)" using Cons.prems(3) a by (auto simp: dom_map_of_conv_image_fst)
    moreover have "map_of (zins (e, s) ys) = (map_of ys)(e \<mapsto> s)"
      using map_of_zins[of "(e, s)" ys] new by (simp add: map_of_eq_None_iff)
    ultimately show ?thesis using a by (simp add: map_add_upd_left)
  qed
  ultimately show ?case by (simp only:)
qed

text \<open>Converting does not change the contents; an empty ziplist trips the assertion.\<close>

lemma zsetConvert_skiplist_holds:
  assumes "zset_holds z xs" and "xs \<noteq> []"
  shows "\<exists>z' rs'. zsetConvert_skiplist rs z = Some (z', rs') \<and> zset_holds z' xs"
proof (cases z)
  case (ZS zs)
  then show ?thesis using assms by (simp add: zsetConvert_skiplist_def)
next
  case (ZL zl)
  then have zl: "zl = xs" "zsorted xs" using assms by (auto simp: zset_holds_def zl_holds_def)
  obtain zs' rs' ys where c: "convert_loop rs \<lparr>zs_dict = Map.empty, zs_zsl = zslCreate\<rparr> xs = Some (zs', rs')"
    "zs_holds zs' ys" "map_of ys = map_of xs"
    using convert_loop_holds[OF zs_empty, of xs rs] zl(2) by (auto simp: zsorted_def)
  have "ys = xs" using zsorted_unique[OF zs.holds_sorted[OF c(2)] zl(2) c(3)] .
  then show ?thesis using c ZL zl assms(2) by (simp add: zsetConvert_skiplist_def zset_holds_def)
qed

lemma zsl_bottom_holds:
  assumes "zsl_rep zsl L" and "L = p @ s"
  shows "zsl_bottom (zsl_nodes zsl) (fst (nxt 0 s)) acc = Some (acc @ entries s)"
  using assms(2)
proof (induction s arbitrary: p acc)
  case Nil
  then show ?case by (subst zsl_bottom.simps) simp
next
  case (Cons n s)
  note r = zsl_repD[OF assms(1)]
  have nx: "fst (nxt 0 (n # s)) = Some (sn_addr n)" using r(5) Cons.prems by auto
  have lv: "zn_level (zsl_nodes zsl) (sn_addr n) 0 = Some (nxt 0 s)"
    using linksD[OF r(4), of "p @ [n]" s 0] r(5) Cons.prems by auto
  show ?case
    using Cons.IH[of "p @ [n]" "acc @ [entry n]"] Cons.prems node_data_in[OF r(3), of n] lv
    unfolding nx by (subst zsl_bottom.simps) (auto simp: case_prod_beta zzlInsertAt_def entry_def)
qed

lemma zsetConvert_ziplist_holds:
  assumes "zset_holds z xs"
  shows "zsetConvert_ziplist z = Some (ZL xs)"
proof (cases z)
  case (ZL zl)
  then show ?thesis using assms by (simp add: zsetConvert_ziplist_def zset_holds_def zl_holds_def)
next
  case (ZS zs)
  then obtain L where L: "zsl_rep (zs_zsl zs) L" "entries L = xs"
    using assms by (auto simp: zset_holds_def zs_holds_def)
  have "zn_level (zsl_nodes (zs_zsl zs)) (zsl_header (zs_zsl zs)) 0 = Some (nxt 0 L)"
    using linksD[OF zsl_repD(4)[OF L(1)], of "[]" L 0] zsl_repD(7)[OF L(1)] by simp
  then show ?thesis
    using ZS zsl_bottom_holds[OF L(1), of "[]" L "[]"] L(2)
    by (simp add: zsetConvert_ziplist_def case_prod_beta)
qed

text \<open>What \<open>zsetAdd\<close> does to the entries, for every combination of input flags.\<close>

definition zadd_spec :: "zentry list \<Rightarrow> dbl \<Rightarrow> sds \<Rightarrow> int \<Rightarrow> int \<times> int \<times> zentry list" where
  "zadd_spec xs score ele flags =
     (let incr = (flags AND ZADD_INCR) \<noteq> 0; nx = (flags AND ZADD_NX) \<noteq> 0; xx = (flags AND ZADD_XX) \<noteq> 0 in
      if score = NaN then (0, ZADD_NAN, xs)
      else (case map_of xs ele of
        None \<Rightarrow> if xx then (1, ZADD_NOP, xs) else (1, ZADD_ADDED, zins (ele, score) xs)
      | Some cur \<Rightarrow>
          let new = (if incr then dadd score cur else score) in
          if nx then (1, ZADD_NOP, xs)
          else if new = NaN then (0, ZADD_NAN, xs)
          else if new = cur then (1, 0, xs)
          else (1, ZADD_UPDATED, zins (ele, new) (zdel ele xs))))"

definition zadd_refines :: "(zadd_result \<times> nat list) option \<Rightarrow> int \<times> int \<times> zentry list \<Rightarrow> bool" where
  "zadd_refines r sp \<longleftrightarrow> (\<exists>res rs. r = Some (res, rs) \<and>
     za_ret res = fst sp \<and> za_flags res = fst (snd sp) \<and> zset_holds (za_obj res) (snd (snd sp)))"

lemma zadd_refines_simps [simp]:
  "zadd_refines (Some (zadd_result_of r fl ns z, rs)) (r', fl', xs) \<longleftrightarrow> r = r' \<and> fl = fl' \<and> zset_holds z xs"
  by (auto simp: zadd_refines_def zadd_result_of_def)

lemma zsetAdd_ziplist:
  assumes h: "zl_holds zl xs"
  shows "zadd_refines (zsetAdd me mv rs (ZL zl) score ele flags) (zadd_spec xs score ele flags)"
proof -
  have zh: "zset_holds (ZL zl) xs" and srt: "zsorted xs" and eq: "zl = xs"
    using h by (auto simp: zset_holds_def zl_holds_def)
  show ?thesis
  proof (cases "map_of xs ele")
    case None
    then have f: "zzlFind zl ele = None" using eq zzlFind_None by simp
    have ins: "zset_holds (ZL (zzlInsert zl ele score)) (zins (ele, score) xs)" if "score \<noteq> NaN"
      using zl.insert_law[OF h None that, of rs] by (auto simp: zl_insert_def zset_holds_def)
    have ne: "zins (ele, score) xs \<noteq> []" by (simp add: zins_def)
    have "score \<noteq> NaN \<Longrightarrow> \<exists>z' rs'. zsetConvert_skiplist rs (ZL (zzlInsert zl ele score)) = Some (z', rs') \<and>
        zset_holds z' (zins (ele, score) xs)"
      using zsetConvert_skiplist_holds[OF ins ne] by blast
    then show ?thesis using f None ins zh by (auto simp: zsetAdd_def zadd_spec_def Let_def)
  next
    case (Some cur)
    then obtain pre suf where x: "xs = pre @ (ele, cur) # suf" by (rule map_of_split)
    then have f: "zzlFind zl ele = Some (length pre, cur)" using eq srt zzlFind_split by simp
    have nan: "cur \<noteq> NaN" using x srt by (auto simp: zsorted_def)
    have upd: "zset_holds (ZL (zl_update zl (length pre) ele new)) (zins (ele, new) (zdel ele xs))" if "new \<noteq> NaN" for new
      using zl.change_law[OF h Some that, of rs] f by (auto simp: zl_change_def zset_holds_def)
    show ?thesis using f Some upd zh nan by (auto simp: zsetAdd_def zadd_spec_def Let_def deq_def)
  qed
qed

lemma zsetAdd_skiplist:
  assumes h: "zs_holds zs xs"
  shows "zadd_refines (zsetAdd me mv rs (ZS zs) score ele flags) (zadd_spec xs score ele flags)"
proof -
  have zh: "zset_holds (ZS zs) xs" and srt: "zsorted xs"
    using h by (auto simp: zset_holds_def zs_holds_def)
  have sc: "zs_score zs ele = Some (map_of xs ele)" using zs.score_law[OF h] .
  show ?thesis
  proof (cases "map_of xs ele")
    case None
    have "score \<noteq> NaN \<Longrightarrow> \<exists>zs' rs'. zs_insert rs zs ele score = Some (zs', rs') \<and>
        zset_holds (ZS zs') (zins (ele, score) xs)"
      using zs.insert_law[OF h None] by (simp add: zset_holds_def)
    then show ?thesis using sc None zh by (auto simp: zsetAdd_def zadd_spec_def Let_def)
  next
    case (Some cur)
    have nan: "cur \<noteq> NaN" using map_of_SomeD[OF Some] srt by (auto simp: zsorted_def)
    have upd: "new \<noteq> NaN \<Longrightarrow> \<exists>zs' rs'. zs_update rs zs ele cur new = Some (zs', rs') \<and>
        zset_holds (ZS zs') (zins (ele, new) (zdel ele xs))" for new
      using zs.change_law[OF h Some] by (simp add: zset_holds_def)
    show ?thesis using sc Some upd[of score] upd[of "dadd score cur"] zh nan
      by (auto simp: zsetAdd_def zadd_spec_def Let_def deq_def)
  qed
qed

lemma zsetAdd_refines:
  "zset_holds z xs \<Longrightarrow>
   zadd_refines (zsetAdd me mv rs z score ele flags) (zadd_spec xs score ele flags)"
  by (cases z) (auto simp: zset_holds_def intro: zsetAdd_ziplist zsetAdd_skiplist)

text \<open>The use the replicated queues make of it: setting a score.\<close>

lemma zsetAdd_none:
  assumes "zset_holds z xs"
  shows "\<exists>res rs'. zsetAdd me mv rs z s e ZADD_NONE = Some (res, rs') \<and>
    zset_holds (za_obj res) (if s = NaN then xs else zins (e, s) (zdel e xs))"
proof -
  have srt: "zsorted xs" using zset_holds_sorted[OF assms] .
  have same: "zins (e, s) (zdel e xs) = xs" if "map_of xs e = Some s" "s \<noteq> NaN"
  proof (rule zsorted_unique)
    show "zsorted (zins (e, s) (zdel e xs))" using zsorted_zins[of "zdel e xs" "(e, s)"] srt that by simp
    show "map_of (zins (e, s) (zdel e xs)) = map_of xs"
      using map_of_zins[of "(e, s)" "zdel e xs"] that by (auto simp: map_of_zdel)
  qed (rule srt)
  have "map_of xs e = None \<Longrightarrow> zdel e xs = xs" by (intro zdel_absent) (simp add: map_of_eq_None_iff)
  then show ?thesis
    using zsetAdd_refines[OF assms, of me mv rs s e ZADD_NONE] same
    by (auto simp: zadd_refines_def zadd_spec_def Let_def split: option.splits if_splits)
qed

section \<open>Properties\<close>

text \<open>C2: \<open>zsetAdd\<close> implements its specification in both encodings. For every score, element,
  combination of the flags NX, XX and INCR, ziplist limit and sequence of random levels it
  returns without failing an assertion, with the return value and the output flags of
  \<open>zadd_spec\<close>, and leaves an object that holds the entries of \<open>zadd_spec\<close> in order.\<close>

theorem zsetAdd_implements:
  assumes "zset_holds z xs"
  shows "\<exists>res rs'. zsetAdd me mv rs z score ele flags = Some (res, rs') \<and>
    zadd_spec xs score ele flags = (za_ret res, za_flags res, snd (snd (zadd_spec xs score ele flags))) \<and>
    zset_holds (za_obj res) (snd (snd (zadd_spec xs score ele flags)))"
  using zsetAdd_refines[OF assms, of me mv rs score ele flags] by (auto simp: zadd_refines_def prod_eq_iff)

theorem zsetAdd_implements_witness:
  "\<exists>res rs'. zsetAdd 0 64 [5, 70000] createZsetZiplistObject (Fin 3) ''a'' ZADD_NONE = Some (res, rs') \<and>
    za_flags res = ZADD_ADDED \<and> zset_holds (za_obj res) [(''a'', Fin 3)]"
  using zsetAdd_implements[OF zset_holds_empty(2), of 0 64 "[5, 70000]" "Fin 3" "''a''" ZADD_NONE]
  by (auto simp: zadd_spec_def zins_def)

text \<open>C13: \<open>zsetDel\<close> removes exactly the given element and reports whether it was there, and
  \<open>zsetScore\<close> and \<open>zsetLength\<close> report the entries of the set, in both encodings.\<close>

theorem zsetDel_implements:
  assumes "zset_holds z xs"
  shows "zsetScore z ele = Some (map_of xs ele) \<and> zsetLength z = int (length xs) \<and>
    (\<exists>z'. zsetDel z ele = Some (map_of xs ele \<noteq> None, z') \<and> zset_holds z' (zdel ele xs) \<and>
      (\<forall>e. zsetScore z' e = Some (if e = ele then None else map_of xs e)))"
  using zsetDel_holds[OF assms, of ele] zsetScore_holds zsetLength_holds assms by (auto simp: map_of_zdel)

theorem zsetDel_implements_witness:
  "\<exists>z'. zsetDel (ZL [(''a'', Fin 1), (''b'', Fin 2)]) ''a'' = Some (True, z') \<and> zset_holds z' [(''b'', Fin 2)]"
  using zsetDel_implements[of "ZL [(''a'', Fin 1), (''b'', Fin 2)]" "[(''a'', Fin 1), (''b'', Fin 2)]" "''a''"]
  by (auto simp: zset_holds_def zl_holds_def zsorted_def zlt_def zdel_def)

text \<open>C14: converting a sorted set between its encodings keeps its entries and their order, and
  a conversion there and back restores the ziplist.\<close>

theorem zsetConvert_roundtrip:
  assumes "zset_holds z xs" and "xs \<noteq> []"
  shows "\<exists>z' rs'. zsetConvert_skiplist rs z = Some (z', rs') \<and> zset_holds z' xs \<and> zsetConvert_ziplist z' = Some (ZL xs)"
  using zsetConvert_skiplist_holds[OF assms, of rs] zsetConvert_ziplist_holds by blast

theorem zsetConvert_roundtrip_witness:
  "\<exists>z' rs'. zsetConvert_skiplist [1, 2, 3] (ZL [(''b'', Fin 1), (''a'', Fin 2)]) = Some (z', rs') \<and>
     zsetConvert_ziplist z' = Some (ZL [(''b'', Fin 1), (''a'', Fin 2)])"
  using zsetConvert_roundtrip[of "ZL [(''b'', Fin 1), (''a'', Fin 2)]" "[(''b'', Fin 1), (''a'', Fin 2)]" "[1, 2, 3]"]
  by (auto simp: zset_holds_def zl_holds_def zsorted_def zlt_def)

text \<open>C6: the skip list implements a sorted list. \<open>zslInsert\<close> of a new element keeps every
  forward link, span, back link, the tail, the length and the level consistent, and places the
  element where the order of scores and elements puts it; \<open>zslDelete\<close> of that element then
  finds it and restores the list.\<close>

theorem zskiplist_insert_delete:
  assumes rep: "zsl_rep zsl L" and srt: "zsorted (entries L)" and nan: "score \<noteq> NaN" and new: "ele \<notin> sn_ele ` set L"
  shows "\<exists>zsl' L' rs'. zslInsert rs zsl score ele = Some (zsl_fresh zsl, zsl', rs') \<and> zsl_rep zsl' L' \<and>
    entries L' = zins (ele, score) (entries L) \<and>
    (\<exists>zsl'' L''. zslDelete zsl' score ele = Some (True, zsl'') \<and> zsl_rep zsl'' L'' \<and> entries L'' = entries L)"
proof -
  obtain zsl' L' rs' where ins: "zslInsert rs zsl score ele = Some (zsl_fresh zsl, zsl', rs')" "zsl_rep zsl' L'"
    "entries L' = zins (ele, score) (entries L)"
    using zslInsert_sorted[OF rep srt nan new] by blast
  have absent: "ele \<notin> fst ` set (entries L)" using new by (simp add: fst_entries)
  have srt': "zsorted (entries L')" using zsorted_zins[of "entries L" "(ele, score)"] srt nan absent ins(3) by simp
  have "map_of (entries L') ele = Some score" using map_of_zins[of "(ele, score)" "entries L"] absent ins(3) by simp
  then obtain pre n suf where L': "L' = pre @ n # suf" "sn_ele n = ele" "sn_score n = score"
    "entries (pre @ suf) = zdel ele (zins (ele, score) (entries L))"
    using entries_mid[of L' _ ele score] srt' ins(3) by metis
  obtain z2 where z2: "zslDelete zsl' score ele = Some (True, z2)" "zsl_rep z2 (pre @ suf)"
    using zslDelete_sorted[of zsl' pre n suf] ins(2) srt' L' by auto
  have "zdel ele (zins (ele, score) (entries L)) = entries L"
    using srt srt' ins(3) map_of_zins[of "(ele, score)" "entries L"] absent
    by (intro zsorted_unique) (auto simp: map_of_zdel fun_upd_idem map_of_eq_None_iff)
  then have "entries (pre @ suf) = entries L" using L'(4) by simp
  then show ?thesis using ins z2 by blast
qed

theorem zskiplist_insert_delete_witness:
  "\<exists>zsl' rs'. zslInsert [1, 99999] zslCreate (Fin 2) ''x'' = Some (zsl_fresh zslCreate, zsl', rs') \<and>
     (\<exists>zsl''. zslDelete zsl' (Fin 2) ''x'' = Some (True, zsl''))"
  using zskiplist_insert_delete[OF zslCreate_rep, of "Fin 2" "''x''" "[1, 99999]"] by auto

end
