(* ===== verification/VectorClock.thy ===== *)
theory VectorClock
  imports CStrings
begin

text \<open>
  \<open>vector_clock.h\<close> and \<open>vector_clock.c\<close>. A clock is its vector and the identifier of the
  replica it belongs to; the field \<open>size\<close> is the length of the vector. An access outside
  the vector, or outside the static buffer of the reader, is undefined in C and is \<open>None\<close>
  here. The lemmas give the algebra of the clocks: a partial order with joins, the exact
  meaning of the five results of \<open>vc_cmp\<close>, causal readiness, and the wire format.
\<close>

section \<open>Data and operations\<close>

record vc =
  vc_vector :: "int list"
  vc_id :: int

abbreviation vc_size :: "vc \<Rightarrow> nat" where
  "vc_size c \<equiv> length (vc_vector c)"

abbreviation (input) VC_LESS :: int where "VC_LESS \<equiv> -2"
abbreviation (input) VC_C_LESS :: int where "VC_C_LESS \<equiv> -1"
abbreviation (input) VC_CMP_ERR :: int where "VC_CMP_ERR \<equiv> 0"
abbreviation (input) VC_C_GREATER :: int where "VC_C_GREATER \<equiv> 1"
abbreviation (input) VC_GREATER :: int where "VC_GREATER \<equiv> 2"

definition CONCURRENT :: "int \<Rightarrow> bool" where
  "CONCURRENT x \<longleftrightarrow> x = VC_C_LESS \<or> x = VC_C_GREATER"

definition vc_new :: "int \<Rightarrow> int \<Rightarrow> vc" where
  "vc_new n pid = \<lparr>vc_vector = replicate (nat n) 0, vc_id = pid\<rparr>"

definition vc_dup :: "vc \<Rightarrow> vc" where
  "vc_dup c = \<lparr>vc_vector = vc_vector c, vc_id = vc_id c\<rparr>"

definition vc_equal :: "vc \<Rightarrow> vc \<Rightarrow> bool" where
  "vc_equal c1 c2 \<longleftrightarrow> vc_size c1 = vc_size c2 \<and> list_all2 (=) (vc_vector c1) (vc_vector c2)"

fun ready_loop :: "int \<Rightarrow> int \<Rightarrow> int list \<Rightarrow> int list \<Rightarrow> bool" where
  "ready_loop i ow (n # ns) (c # cs) =
     (if i = ow then ready_loop (i + 1) ow ns cs
      else if n > c then False
      else ready_loop (i + 1) ow ns cs)"
| "ready_loop i ow _ _ = True"

text \<open>\<open>None\<close>: the assertion on the sizes fails, or the owner's index is out of range.\<close>

definition vc_causally_ready :: "vc \<Rightarrow> vc \<Rightarrow> bool option" where
  "vc_causally_ready current nxt =
     (if vc_size current \<noteq> vc_size nxt then None
      else
        let ow = vc_id nxt in
        if \<not> ready_loop 0 ow (vc_vector nxt) (vc_vector current) then Some False
        else
          (case (onth (vc_vector nxt) ow, onth (vc_vector current) ow) of
             (Some n, Some c) \<Rightarrow> Some (n = c + 1)
           | _ \<Rightarrow> None))"

text \<open>The first index where the vectors differ, with the two rests after it.\<close>

fun first_diff :: "int list \<Rightarrow> int list \<Rightarrow> (int \<times> int \<times> int list \<times> int list) option" where
  "first_diff (a # as) (b # bs) = (if a = b then first_diff as bs else Some (a, b, as, bs))"
| "first_diff _ _ = None"

fun cmp_rest :: "(int \<Rightarrow> int \<Rightarrow> bool) \<Rightarrow> int \<Rightarrow> int \<Rightarrow> int \<Rightarrow> int list \<Rightarrow> int list \<Rightarrow> int" where
  "cmp_rest conflict res id1 id2 (a # as) (b # bs) =
     (if conflict a b then
        (if id1 > id2 then VC_C_GREATER
         else if id1 < id2 then VC_C_LESS
         else cmp_rest conflict res id1 id2 as bs)
      else cmp_rest conflict res id1 id2 as bs)"
| "cmp_rest conflict res id1 id2 _ _ = res"

definition vc_cmp :: "vc \<Rightarrow> vc \<Rightarrow> int" where
  "vc_cmp c1 c2 =
     (if vc_size c1 \<noteq> vc_size c2 then VC_CMP_ERR
      else
        (case first_diff (vc_vector c1) (vc_vector c2) of
           None \<Rightarrow>
             if vc_id c1 = vc_id c2 then VC_CMP_ERR
             else if vc_id c1 > vc_id c2 then VC_C_GREATER
             else VC_C_LESS
         | Some (a, b, as, bs) \<Rightarrow>
             if a > b then cmp_rest (<) VC_GREATER (vc_id c1) (vc_id c2) as bs
             else cmp_rest (>) VC_LESS (vc_id c1) (vc_id c2) as bs))"

definition vc_update :: "vc \<Rightarrow> vc \<Rightarrow> vc" where
  "vc_update tar m =
     (if vc_size tar \<noteq> vc_size m then tar
      else tar\<lparr>vc_vector := map2 (\<lambda>t x. if x > t then x else t) (vc_vector tar) (vc_vector m)\<rparr>)"

definition vc_inc :: "vc \<Rightarrow> int \<Rightarrow> vc option" where
  "vc_inc c pid = (case onth (vc_vector c) pid of
       None \<Rightarrow> None
     | Some x \<Rightarrow> Some (c\<lparr>vc_vector := (vc_vector c)[nat pid := x + 1], vc_id := pid\<rparr>))"

text \<open>An empty vector makes \<open>vcToSds\<close> read \<open>vector[0]\<close>.\<close>

fun show_vector :: "int list \<Rightarrow> string option" where
  "show_vector [] = None"
| "show_vector [x] = Some (show_int x)"
| "show_vector (x # xs) = map_option (\<lambda>s. show_int x @ CHR '','' # s) (show_vector xs)"

definition vcToSds :: "vc \<Rightarrow> sds option" where
  "vcToSds c = map_option (\<lambda>s. s @ CHR ''|'' # show_int (vc_id c)) (show_vector (vc_vector c))"

definition vc_now :: "vc \<Rightarrow> sds option" where
  "vc_now c = Option.bind (vc_inc c (vc_id c)) vcToSds"

abbreviation (input) VC_INT_BUF :: nat where
  "VC_INT_BUF \<equiv> 100"

text \<open>The reading loop: \<open>None\<close> when the buffer of 100 entries overflows or the scan for a
  separator leaves the string.\<close>

function read_vector :: "nat \<Rightarrow> string \<Rightarrow> (int list \<times> string) option" where
  "read_vector n p =
     (if n \<ge> VC_INT_BUF then None
      else
        (case dropWhile (\<lambda>c. c \<noteq> CHR '','' \<and> c \<noteq> CHR ''|'') p of
           [] \<Rightarrow> None
         | c # cs \<Rightarrow>
             if c = CHR ''|'' then Some ([atoi p], cs)
             else map_option (\<lambda>(vs, r). (atoi p # vs, r)) (read_vector (Suc n) cs)))"
  by pat_completeness auto
termination
  by (relation "measure (\<lambda>(n, p). VC_INT_BUF - n)") auto

declare read_vector.simps [simp del]

definition sdsToVC :: "sds \<Rightarrow> vc option" where
  "sdsToVC s = map_option (\<lambda>(vs, p). \<lparr>vc_vector = vs, vc_id = atoi p\<rparr>) (read_vector 0 s)"

lemmas eval_vc = sdsToVC_def read_vector.simps atoi_def signed_val_def eval_string

section \<open>The order on vectors and its joins\<close>

definition vle :: "int list \<Rightarrow> int list \<Rightarrow> bool" where
  "vle xs ys \<longleftrightarrow> list_all2 (\<le>) xs ys"

definition vlt :: "int list \<Rightarrow> int list \<Rightarrow> bool" where
  "vlt xs ys \<longleftrightarrow> vle xs ys \<and> xs \<noteq> ys"

definition vjoin :: "int list \<Rightarrow> int list \<Rightarrow> int list" where
  "vjoin xs ys = map2 max xs ys"

lemma vle_length: "vle xs ys \<Longrightarrow> length xs = length ys"
  by (simp add: vle_def list_all2_lengthD)

lemma vle_refl [simp, intro!]: "vle xs xs"
  by (simp add: vle_def list_all2_refl)

lemma vle_trans [trans]: "vle xs ys \<Longrightarrow> vle ys zs \<Longrightarrow> vle xs zs"
  unfolding vle_def by (rule list_all2_trans[of "(\<le>)" "(\<le>)" "(\<le>)"]) auto

lemma vle_antisym: "vle xs ys \<Longrightarrow> vle ys xs \<Longrightarrow> xs = ys"
  unfolding vle_def by (rule list_all2_antisym[of "(\<le>)" "(\<le>)"]) auto

lemma vle_nth: "vle xs ys \<longleftrightarrow> length xs = length ys \<and> (\<forall>i < length xs. xs ! i \<le> ys ! i)"
  by (auto simp: vle_def list_all2_conv_all_nth)

lemma length_vjoin [simp]: "length (vjoin xs ys) = min (length xs) (length ys)"
  by (simp add: vjoin_def)

lemma vjoin_nth [simp]:
  "i < length xs \<Longrightarrow> i < length ys \<Longrightarrow> vjoin xs ys ! i = max (xs ! i) (ys ! i)"
  by (simp add: vjoin_def)

lemma vjoin_commute: "vjoin xs ys = vjoin ys xs"
  by (rule nth_equalityI) (auto simp: max.commute)

lemma vjoin_assoc: "vjoin (vjoin xs ys) zs = vjoin xs (vjoin ys zs)"
  by (rule nth_equalityI) (auto simp: max.assoc)

lemma vjoin_left_commute: "vjoin xs (vjoin ys zs) = vjoin ys (vjoin xs zs)"
  by (metis vjoin_assoc vjoin_commute)

lemma vjoin_idem [simp]: "vjoin xs xs = xs"
  by (rule nth_equalityI) auto

lemma vjoin_upper: "length xs = length ys \<Longrightarrow> vle xs (vjoin xs ys)"
  "length xs = length ys \<Longrightarrow> vle ys (vjoin xs ys)"
  by (auto simp: vle_nth)

lemma vjoin_least: "vle xs zs \<Longrightarrow> vle ys zs \<Longrightarrow> vle (vjoin xs ys) zs"
  by (auto simp: vle_nth)

lemma vle_iff_vjoin: "length xs = length ys \<Longrightarrow> vle xs ys \<longleftrightarrow> vjoin xs ys = ys"
  by (metis vjoin_upper vjoin_least vle_antisym vle_refl)

lemma vjoin_absorb: "vle xs ys \<Longrightarrow> vjoin xs ys = ys" "vle xs ys \<Longrightarrow> vjoin ys xs = ys"
  using vle_iff_vjoin vle_length vjoin_commute by metis+

lemma vc_equal_iff [clock_simps]: "vc_equal c1 c2 \<longleftrightarrow> vc_vector c1 = vc_vector c2"
  by (auto simp: vc_equal_def list.rel_eq)

lemma vc_dup_id [clock_simps]: "vc_dup c = c"
  by (simp add: vc_dup_def)

lemma vc_update_join [clock_simps]:
  "vc_size tar = vc_size m \<Longrightarrow> vc_update tar m = tar\<lparr>vc_vector := vjoin (vc_vector tar) (vc_vector m)\<rparr>"
proof -
  have "(\<lambda>t x. if x > t then x else t) = (max :: int \<Rightarrow> _)"
    by (auto simp: fun_eq_iff max_def)
  then show "vc_size tar = vc_size m \<Longrightarrow> ?thesis"
    by (simp add: vc_update_def vjoin_def)
qed

lemma vc_size_update [simp]: "vc_size (vc_update tar m) = vc_size tar"
  by (simp add: vc_update_def)

lemma vc_id_update [simp]: "vc_id (vc_update tar m) = vc_id tar"
  by (simp add: vc_update_def)

section \<open>The results of vc_cmp\<close>

lemma first_diff_None: "length xs = length ys \<Longrightarrow> first_diff xs ys = None \<longleftrightarrow> xs = ys"
  by (induction xs ys rule: first_diff.induct) auto

lemma first_diff_Some:
  "first_diff xs ys = Some (a, b, as, bs) \<Longrightarrow>
   \<exists>pre. xs = pre @ a # as \<and> ys = pre @ b # bs \<and> a \<noteq> b"
proof (induction xs ys rule: first_diff.induct)
  case (1 x xs y ys)
  show ?case
  proof (cases "x = y")
    case True
    with 1 obtain pre where "xs = pre @ a # as" "ys = pre @ b # bs" "a \<noteq> b" by auto
    with True show ?thesis by (intro exI[of _ "x # pre"]) simp
  next
    case False
    with 1 show ?thesis by (intro exI[of _ "[]"]) simp
  qed
qed auto

lemma cmp_rest_eq:
  assumes "length as = length bs"
  shows "cmp_rest R res i j as bs =
    (if i \<noteq> j \<and> \<not> list_all2 (\<lambda>a b. \<not> R a b) as bs
     then (if i > j then VC_C_GREATER else VC_C_LESS) else res)"
  using assms by (induction as bs rule: list_induct2) auto

lemma vle_append_Cons:
  "length pre = length pre' \<Longrightarrow>
   vle (pre @ a # as) (pre' @ b # bs) \<longleftrightarrow> vle pre pre' \<and> a \<le> b \<and> vle as bs"
  by (auto simp: vle_def list_all2_append)

lemma vle_as_conflict: "vle as bs \<longleftrightarrow> list_all2 (\<lambda>a b. \<not> a > b) as bs"
  "vle bs as \<longleftrightarrow> list_all2 (\<lambda>a b. \<not> a < b) as bs"
  by (auto simp: vle_nth list_all2_conv_all_nth not_less)

text \<open>What \<open>vc_cmp\<close> computes, for clocks of one size; only two incomparable clocks of the
  same replica, which a run of the system never produces, are left out.\<close>

lemma vc_cmp_value:
  assumes sz: "vc_size c1 = vc_size c2"
    and dom: "vc_id c1 \<noteq> vc_id c2 \<or> vle (vc_vector c1) (vc_vector c2) \<or> vle (vc_vector c2) (vc_vector c1)"
  shows "vc_cmp c1 c2 =
    (let by_id = (if vc_id c1 > vc_id c2 then VC_C_GREATER
                  else if vc_id c1 < vc_id c2 then VC_C_LESS else VC_CMP_ERR) in
     if vc_vector c1 = vc_vector c2 then by_id
     else if vle (vc_vector c1) (vc_vector c2) then VC_LESS
     else if vle (vc_vector c2) (vc_vector c1) then VC_GREATER
     else by_id)"
proof (cases "first_diff (vc_vector c1) (vc_vector c2)")
  case None
  then have "vc_vector c1 = vc_vector c2" using sz first_diff_None by blast
  with None sz show ?thesis by (simp add: vc_cmp_def)
next
  case (Some p)
  obtain a b as bs where p: "p = (a, b, as, bs)" by (cases p) auto
  obtain pre where pre: "vc_vector c1 = pre @ a # as" "vc_vector c2 = pre @ b # bs" "a \<noteq> b"
    using first_diff_Some Some p by blast
  have len: "length as = length bs" using sz pre by simp
  have le: "vle (vc_vector c1) (vc_vector c2) \<longleftrightarrow> a \<le> b \<and> vle as bs"
    "vle (vc_vector c2) (vc_vector c1) \<longleftrightarrow> b \<le> a \<and> vle bs as"
    using pre by (simp_all add: vle_append_Cons)
  have ne: "vc_vector c1 \<noteq> vc_vector c2" using pre by simp
  show ?thesis
  proof (cases "a > b")
    case True
    then have "vc_cmp c1 c2 = cmp_rest (<) VC_GREATER (vc_id c1) (vc_id c2) as bs"
      using Some p sz by (simp add: vc_cmp_def)
    with True ne le dom show ?thesis
      by (auto simp: cmp_rest_eq[OF len] vle_as_conflict(2)[symmetric] Let_def)
  next
    case False
    then have "vc_cmp c1 c2 = cmp_rest (>) VC_LESS (vc_id c1) (vc_id c2) as bs"
      using Some p sz by (simp add: vc_cmp_def)
    with False ne le dom pre(3) show ?thesis
      by (auto simp: cmp_rest_eq[OF len] vle_as_conflict(1)[symmetric] Let_def)
  qed
qed

lemma vc_cmp_less_iff:
  assumes "vc_size c1 = vc_size c2"
    and "vc_id c1 \<noteq> vc_id c2 \<or> vle (vc_vector c1) (vc_vector c2) \<or> vle (vc_vector c2) (vc_vector c1)"
  shows "vc_cmp c1 c2 = VC_LESS \<longleftrightarrow> vlt (vc_vector c1) (vc_vector c2)"
  using vle_antisym unfolding vc_cmp_value[OF assms] vlt_def by (auto simp: Let_def)

lemma vc_cmp_self [simp]: "vc_cmp c c = VC_CMP_ERR"
  by (subst vc_cmp_value) (auto simp: Let_def)

section \<open>Causal readiness\<close>

lemma ready_loop_iff:
  assumes "length ns = length cs"
  shows "ready_loop i ow ns cs \<longleftrightarrow> (\<forall>k < length ns. i + int k \<noteq> ow \<longrightarrow> ns ! k \<le> cs ! k)"
  using assms
proof (induction ns cs arbitrary: i rule: list_induct2)
  case Nil
  then show ?case by simp
next
  case (Cons n ns c cs)
  then show ?case
    by (auto simp: less_Suc_eq_0_disj algebra_simps)
qed

lemma vc_causally_ready_iff:
  assumes "vc_size cur = vc_size nxt" and "0 \<le> vc_id nxt" and "vc_id nxt < int (vc_size nxt)"
  shows "vc_causally_ready cur nxt =
    Some ((\<forall>k < vc_size nxt. int k \<noteq> vc_id nxt \<longrightarrow> vc_vector nxt ! k \<le> vc_vector cur ! k)
          \<and> vc_vector nxt ! nat (vc_id nxt) = vc_vector cur ! nat (vc_id nxt) + 1)"
  using assms by (auto simp: vc_causally_ready_def ready_loop_iff Let_def)

lemma ready_advances:
  assumes sz: "vc_size cur = vc_size nxt" and id: "0 \<le> vc_id nxt" "vc_id nxt < int (vc_size nxt)"
    and r: "vc_causally_ready cur nxt = Some True"
  shows "vc_update cur nxt = cur\<lparr>vc_vector := (vc_vector cur)[nat (vc_id nxt) := vc_vector cur ! nat (vc_id nxt) + 1]\<rparr>"
proof -
  have le: "\<And>k. k < vc_size nxt \<Longrightarrow> k \<noteq> nat (vc_id nxt) \<Longrightarrow> vc_vector nxt ! k \<le> vc_vector cur ! k"
    "vc_vector nxt ! nat (vc_id nxt) = vc_vector cur ! nat (vc_id nxt) + 1"
    using r vc_causally_ready_iff[OF sz id] by auto
  have "vjoin (vc_vector cur) (vc_vector nxt) =
      (vc_vector cur)[nat (vc_id nxt) := vc_vector cur ! nat (vc_id nxt) + 1]"
  proof (rule nth_equalityI)
    fix i
    assume "i < length (vjoin (vc_vector cur) (vc_vector nxt))"
    then have "i < vc_size nxt" using sz by simp
    then show "vjoin (vc_vector cur) (vc_vector nxt) ! i =
        (vc_vector cur)[nat (vc_id nxt) := vc_vector cur ! nat (vc_id nxt) + 1] ! i"
      using le(1)[of i] le(2) sz by (cases "i = nat (vc_id nxt)") simp_all
  qed (use sz in simp)
  then show ?thesis using sz by (simp add: vc_update_join)
qed

section \<open>The wire format\<close>

lemma dropWhile_sep:
  "CHR '','' \<notin> set xs \<Longrightarrow> CHR ''|'' \<notin> set xs \<Longrightarrow> c = CHR '','' \<or> c = CHR ''|'' \<Longrightarrow>
   dropWhile (\<lambda>c. c \<noteq> CHR '','' \<and> c \<noteq> CHR ''|'') (xs @ c # cs) = c # cs"
  by (induction xs) auto

lemma read_vector_show:
  assumes "show_vector xs = Some s" and "n + length xs \<le> VC_INT_BUF"
  shows "read_vector n (s @ CHR ''|'' # rest) = Some (xs, rest)"
  using assms
proof (induction xs arbitrary: n s rule: show_vector.induct)
  case (2 x)
  then have s: "s = show_int x" by simp
  from 2 show ?case unfolding s
    by (subst read_vector.simps) (simp add: dropWhile_sep show_int_no_sep atoi_show_int)
next
  case (3 x y ys)
  then obtain u where u: "show_vector (y # ys) = Some u" "s = show_int x @ CHR '','' # u"
    by auto
  have "read_vector (Suc n) (u @ CHR ''|'' # rest) = Some (y # ys, rest)"
    using 3 u by simp
  with u 3(3) show ?case
    by (subst read_vector.simps) (simp add: dropWhile_sep show_int_no_sep atoi_show_int)
qed simp

lemma vcToSds_Some: "vc_vector c \<noteq> [] \<Longrightarrow> \<exists>s. vcToSds c = Some s"
proof -
  have "xs \<noteq> [] \<Longrightarrow> \<exists>s. show_vector xs = Some s" for xs
    by (induction xs rule: show_vector.induct) auto
  then show "vc_vector c \<noteq> [] \<Longrightarrow> ?thesis" by (fastforce simp: vcToSds_def)
qed

lemma sdsToVC_vcToSds:
  assumes "vcToSds c = Some s" and "vc_size c \<le> VC_INT_BUF"
  shows "sdsToVC s = Some c"
proof -
  obtain u where u: "show_vector (vc_vector c) = Some u" "s = u @ CHR ''|'' # show_int (vc_id c)"
    using assms(1) by (auto simp: vcToSds_def)
  have "read_vector 0 s = Some (vc_vector c, show_int (vc_id c))"
    using read_vector_show[OF u(1), of 0] assms(2) u(2) by simp
  then show ?thesis using atoi_show_int[of "[]" "vc_id c"] by (simp add: sdsToVC_def)
qed

section \<open>Properties\<close>

text \<open>C11: \<open>vc_cmp\<close> decides the causal order. For two clocks of one size, issued by different
  replicas or comparable, it returns \<open>VC_LESS\<close> exactly when the first happened before the second and
  \<open>VC_GREATER\<close> exactly when the second happened before the first. Otherwise it returns \<open>VC_C_LESS\<close>
  exactly when the identifier of the first replica is the smaller one and \<open>VC_C_GREATER\<close> exactly
  when it is the larger one. It fails only on identical clocks, and swapping the clocks negates
  the result.\<close>

theorem vc_cmp_decides:
  assumes "vc_size c1 = vc_size c2"
    and "vc_id c1 \<noteq> vc_id c2 \<or> vle (vc_vector c1) (vc_vector c2) \<or> vle (vc_vector c2) (vc_vector c1)"
  shows "(vc_cmp c1 c2 = VC_LESS \<longleftrightarrow> vlt (vc_vector c1) (vc_vector c2)) \<and>
    (vc_cmp c1 c2 = VC_GREATER \<longleftrightarrow> vlt (vc_vector c2) (vc_vector c1)) \<and>
    (vc_cmp c1 c2 = VC_C_LESS \<longleftrightarrow> \<not> vlt (vc_vector c1) (vc_vector c2) \<and> \<not> vlt (vc_vector c2) (vc_vector c1) \<and> vc_id c1 < vc_id c2) \<and>
    (vc_cmp c1 c2 = VC_C_GREATER \<longleftrightarrow> \<not> vlt (vc_vector c1) (vc_vector c2) \<and> \<not> vlt (vc_vector c2) (vc_vector c1) \<and> vc_id c1 > vc_id c2) \<and>
    (vc_cmp c1 c2 = VC_CMP_ERR \<longleftrightarrow> c1 = c2) \<and> vc_cmp c2 c1 = - vc_cmp c1 c2"
proof -
  have sym: "vc_size c2 = vc_size c1"
    "vc_id c2 \<noteq> vc_id c1 \<or> vle (vc_vector c2) (vc_vector c1) \<or> vle (vc_vector c1) (vc_vector c2)"
    using assms by auto
  have "vc_vector c1 = vc_vector c2 \<Longrightarrow> vc_id c1 = vc_id c2 \<Longrightarrow> c1 = c2" by (cases c1, cases c2) simp
  then show ?thesis
    using vle_antisym assms(2) unfolding vc_cmp_value[OF assms] vc_cmp_value[OF sym] vlt_def CONCURRENT_def
    by (auto simp: Let_def)
qed

theorem vc_cmp_decides_witness:
  "vc_cmp \<lparr>vc_vector = [1, 0, 2], vc_id = 0\<rparr> \<lparr>vc_vector = [1, 3, 2], vc_id = 1\<rparr> = VC_LESS \<and>
   vc_cmp \<lparr>vc_vector = [1, 0, 2], vc_id = 2\<rparr> \<lparr>vc_vector = [1, 1, 1], vc_id = 1\<rparr> = VC_C_GREATER"
  using vc_cmp_decides[of "\<lparr>vc_vector = [1, 0, 2], vc_id = 0\<rparr>" "\<lparr>vc_vector = [1, 3, 2], vc_id = 1\<rparr>"]
    vc_cmp_decides[of "\<lparr>vc_vector = [1, 0, 2], vc_id = 2\<rparr>" "\<lparr>vc_vector = [1, 1, 1], vc_id = 1\<rparr>"]
  by (simp add: vlt_def vle_def)

text \<open>C15: the text a clock is sent as reads back as the clock, for the up to 100 replicas the
  buffer of \<open>sdsToVC\<close> has room for; only a clock without entries cannot be written.\<close>

theorem vc_wire_roundtrip:
  assumes "vc_vector c \<noteq> []" and "vc_size c \<le> VC_INT_BUF"
  shows "\<exists>s. vcToSds c = Some s \<and> sdsToVC s = Some c"
  using vcToSds_Some[OF assms(1)] sdsToVC_vcToSds assms(2) by blast

theorem vc_wire_roundtrip_witness:
  "\<exists>s. vcToSds \<lparr>vc_vector = [12, 0, -3], vc_id = 2\<rparr> = Some s \<and>
     sdsToVC s = Some \<lparr>vc_vector = [12, 0, -3], vc_id = 2\<rparr>"
  using vc_wire_roundtrip[of "\<lparr>vc_vector = [12, 0, -3], vc_id = 2\<rparr>"] by simp

text \<open>C12: \<open>vc_causally_ready\<close> accepts exactly the operation that comes next from its replica:
  merging an accepted clock advances the entry of the sender by one and leaves every other
  entry, and no clock that the receiver has already merged is accepted again.\<close>

theorem vc_causally_ready_next:
  assumes sz: "vc_size cur = vc_size nxt" and id: "0 \<le> vc_id nxt" "vc_id nxt < int (vc_size nxt)"
  shows "(vc_causally_ready cur nxt = Some True \<longrightarrow>
      vc_update cur nxt = cur\<lparr>vc_vector := (vc_vector cur)[nat (vc_id nxt) := vc_vector cur ! nat (vc_id nxt) + 1]\<rparr>) \<and>
    (vle (vc_vector nxt) (vc_vector cur) \<longrightarrow> vc_causally_ready cur nxt = Some False)"
proof (intro conjI impI)
  assume "vle (vc_vector nxt) (vc_vector cur)"
  then have "vc_vector nxt ! nat (vc_id nxt) \<le> vc_vector cur ! nat (vc_id nxt)" using sz id by (simp add: vle_nth)
  then show "vc_causally_ready cur nxt = Some False" using vc_causally_ready_iff[OF sz id] by auto
qed (rule ready_advances[OF assms])

theorem vc_causally_ready_next_witness:
  "vc_update \<lparr>vc_vector = [4, 1], vc_id = 0\<rparr> \<lparr>vc_vector = [3, 2], vc_id = 1\<rparr> = \<lparr>vc_vector = [4, 2], vc_id = 0\<rparr> \<and>
   vc_causally_ready \<lparr>vc_vector = [4, 2], vc_id = 0\<rparr> \<lparr>vc_vector = [3, 2], vc_id = 1\<rparr> = Some False"
proof
  have "vc_causally_ready \<lparr>vc_vector = [4, 1], vc_id = 0\<rparr> \<lparr>vc_vector = [3, 2], vc_id = 1\<rparr> = Some True"
    by (simp add: vc_causally_ready_def)
  then show "vc_update \<lparr>vc_vector = [4, 1], vc_id = 0\<rparr> \<lparr>vc_vector = [3, 2], vc_id = 1\<rparr> = \<lparr>vc_vector = [4, 2], vc_id = 0\<rparr>"
    using vc_causally_ready_next[of "\<lparr>vc_vector = [4, 1], vc_id = 0\<rparr>" "\<lparr>vc_vector = [3, 2], vc_id = 1\<rparr>"] by simp
  show "vc_causally_ready \<lparr>vc_vector = [4, 2], vc_id = 0\<rparr> \<lparr>vc_vector = [3, 2], vc_id = 1\<rparr> = Some False"
    using vc_causally_ready_next[of "\<lparr>vc_vector = [4, 2], vc_id = 0\<rparr>" "\<lparr>vc_vector = [3, 2], vc_id = 1\<rparr>"]
    by (simp add: vle_def)
qed

end
