(* ===== verification/RwfCore.thy ===== *)
theory RwfCore
  imports VectorClock
begin

text \<open>
  \<open>RWFramework.h\<close>: the header of an element of a remove-win container and the three checks
  that every effect runs through. The locale \<open>rwf_element\<close> is the contract a container
  element offers the framework (a header, and bodies that leave it alone); inside it the state
  of an element is determined from the operations that carry the join of all clocks received.
\<close>

section \<open>Header and checks\<close>

record reh =
  reh_pid :: int
  reh_current :: vc

abbreviation (input) PID_NEXIST :: int where "PID_NEXIST \<equiv> -1"
abbreviation (input) PID_WAIT_INNATE :: int where "PID_WAIT_INNATE \<equiv> -2"

text \<open>\<open>vc_new()\<close> reads the number of replicas and the own identifier from the server.\<close>

definition REH_INIT :: "int \<Rightarrow> int \<Rightarrow> reh" where
  "REH_INIT n me = \<lparr>reh_pid = PID_NEXIST, reh_current = vc_new n me\<rparr>"

definition REH_RMV_FUNC :: "reh \<Rightarrow> vc \<Rightarrow> reh" where
  "REH_RMV_FUNC h t =
     h\<lparr>reh_current := vc_update (reh_current h) t, reh_pid := PID_NEXIST\<rparr>"

definition EXISTS :: "reh \<Rightarrow> bool" where
  "EXISTS h \<longleftrightarrow> reh_pid h \<noteq> PID_NEXIST"

definition addCheck :: "reh \<Rightarrow> vc \<Rightarrow> bool \<times> reh" where
  "addCheck h t =
     (if \<not> vc_equal t (reh_current h) then (False, h)
      else if reh_pid h < vc_id t then (True, h\<lparr>reh_pid := vc_id t\<rparr>)
      else (False, h))"

definition updateCheck :: "reh \<Rightarrow> vc \<Rightarrow> bool \<times> reh" where
  "updateCheck h t =
     (if \<not> vc_equal t (reh_current h) then (False, h)
      else (True, if \<not> EXISTS h then h\<lparr>reh_pid := PID_WAIT_INNATE\<rparr> else h))"

text \<open>\<open>None\<close>: the loop over \<open>t->size\<close> leaves the vector of the element.\<close>

fun remove_loop :: "int list \<Rightarrow> int list \<Rightarrow> bool option" where
  "remove_loop cs [] = Some False"
| "remove_loop [] (t # ts) = None"
| "remove_loop (c # cs) (t # ts) = (if c < t then Some True else remove_loop cs ts)"

definition removeCheck :: "reh \<Rightarrow> vc \<Rightarrow> (bool \<times> reh) option" where
  "removeCheck h t =
     (case remove_loop (vc_vector (reh_current h)) (vc_vector t) of
        None \<Rightarrow> None
      | Some True \<Rightarrow> Some (True, REH_RMV_FUNC h t)
      | Some False \<Rightarrow> Some (False, h))"

lemma remove_loop_eq: "length cs = length ts \<Longrightarrow> remove_loop cs ts = Some (\<not> vle ts cs)"
  by (induction cs ts rule: list_induct2) (auto simp: vle_def)

lemma removeCheck_eq [rwf_simps]:
  "vc_size (reh_current h) = vc_size t \<Longrightarrow>
   removeCheck h t =
     Some (if vle (vc_vector t) (vc_vector (reh_current h)) then (False, h)
           else (True, REH_RMV_FUNC h t))"
  by (simp add: removeCheck_def remove_loop_eq)

section \<open>Histories of one element\<close>

datatype ('a, 'b) rwf_op = RAdd vc 'a | RUpd vc 'b | RRmv vc

fun op_clock :: "('a, 'b) rwf_op \<Rightarrow> vc" where
  "op_clock (RAdd t a) = t"
| "op_clock (RUpd t b) = t"
| "op_clock (RRmv t) = t"

fun is_RRmv :: "('a, 'b) rwf_op \<Rightarrow> bool" where
  "is_RRmv (RRmv t) = True"
| "is_RRmv _ = False"

abbreviation op_vec :: "('a, 'b) rwf_op \<Rightarrow> int list" where
  "op_vec p \<equiv> vc_vector (op_clock p)"

text \<open>The join of all clocks of a history, and the operations that carry exactly it.\<close>

definition latest :: "nat \<Rightarrow> ('a, 'b) rwf_op list \<Rightarrow> int list" where
  "latest n hs = fold (\<lambda>p. vjoin (op_vec p)) hs (replicate n 0)"

definition current_ops :: "nat \<Rightarrow> ('a, 'b) rwf_op list \<Rightarrow> ('a, 'b) rwf_op list" where
  "current_ops n hs = filter (\<lambda>p. op_vec p = latest n hs \<and> \<not> is_RRmv p) hs"

definition rwf_history :: "nat \<Rightarrow> ('a, 'b) rwf_op list \<Rightarrow> bool" where
  "rwf_history n hs \<longleftrightarrow> list_all (\<lambda>p. length (op_vec p) = n) hs"

lemma rwf_history_snoc [simp]:
  "rwf_history n (hs @ [p]) \<longleftrightarrow> rwf_history n hs \<and> length (op_vec p) = n"
  by (auto simp: rwf_history_def)

lemma latest_Nil [simp]: "latest n [] = replicate n 0"
  by (simp add: latest_def)

lemma latest_snoc [simp]: "latest n (hs @ [p]) = vjoin (op_vec p) (latest n hs)"
  by (simp add: latest_def)

lemma length_latest: "rwf_history n hs \<Longrightarrow> length (latest n hs) = n"
  by (induction hs rule: rev_induct) auto

lemma latest_upper: "rwf_history n hs \<Longrightarrow> p \<in> set hs \<Longrightarrow> vle (op_vec p) (latest n hs)"
proof (induction hs rule: rev_induct)
  case (snoc q hs)
  have "vle (latest n hs) (latest n (hs @ [q]))" "vle (op_vec q) (latest n (hs @ [q]))"
    using snoc.prems length_latest[of n hs] vjoin_upper by auto
  with snoc show ?case by (auto intro: vle_trans)
qed simp

lemma latest_mset: "mset hs = mset hs' \<Longrightarrow> latest n hs = latest n hs'"
  unfolding latest_def
  by (rule fold_permuted_eq[where P = "\<lambda>_. True"]) (auto simp: vjoin_left_commute)

lemma current_ops_mset:
  "mset hs = mset hs' \<Longrightarrow> mset (current_ops n hs) = mset (current_ops n hs')"
  using latest_mset[of hs hs' n] by (simp add: current_ops_def)

text \<open>How one more operation changes the operations that count: it is outdated, it joins
  them, or it supersedes them all.\<close>

lemma current_ops_old:
  assumes "vle (op_vec p) (latest n hs)" and "op_vec p \<noteq> latest n hs"
  shows "current_ops n (hs @ [p]) = current_ops n hs"
  using assms by (simp add: current_ops_def vjoin_absorb)

lemma current_ops_same:
  assumes "op_vec p = latest n hs"
  shows "current_ops n (hs @ [p]) = current_ops n hs @ (if is_RRmv p then [] else [p])"
  using assms by (simp add: current_ops_def)

lemma current_ops_new:
  assumes wf: "rwf_history n (hs @ [p])" and new: "\<not> vle (op_vec p) (latest n hs)"
  shows "current_ops n (hs @ [p]) =
    (if vle (latest n hs) (op_vec p) \<and> \<not> is_RRmv p then [p] else [])"
proof -
  have len: "length (latest n hs) = length (op_vec p)" using wf length_latest[of n hs] by simp
  have "q \<in> set hs \<Longrightarrow> op_vec q \<noteq> latest n (hs @ [p])" for q
  proof
    assume "q \<in> set hs" "op_vec q = latest n (hs @ [p])"
    then have "vle (latest n (hs @ [p])) (latest n hs)" using wf latest_upper[of n hs q] by simp
    moreover have "vle (op_vec p) (latest n (hs @ [p]))" using len vjoin_upper by simp
    ultimately show False using new vle_trans by blast
  qed
  then have "filter (\<lambda>q. op_vec q = latest n (hs @ [p]) \<and> \<not> is_RRmv q) hs = []"
    by (auto simp: filter_empty_conv)
  moreover have "op_vec p = latest n (hs @ [p]) \<longleftrightarrow> vle (latest n hs) (op_vec p)"
    using len vle_iff_vjoin[of "latest n hs" "op_vec p"] by (auto simp: vjoin_commute)
  ultimately show ?thesis by (simp add: current_ops_def)
qed

section \<open>What the header records of the operations that count\<close>

fun add_entry :: "('a, 'b) rwf_op \<Rightarrow> (int \<times> 'a) list" where
  "add_entry (RAdd t a) = [(vc_id t, a)]"
| "add_entry _ = []"

fun upd_entry :: "('a, 'b) rwf_op \<Rightarrow> 'b list" where
  "upd_entry (RUpd t b) = [b]"
| "upd_entry _ = []"

definition adds_of :: "('a, 'b) rwf_op list \<Rightarrow> (int \<times> 'a) list" where
  "adds_of ops = concat (map add_entry ops)"

definition upds_of :: "('a, 'b) rwf_op list \<Rightarrow> 'b list" where
  "upds_of ops = concat (map upd_entry ops)"

text \<open>The first add of the largest replica identifier.\<close>

fun top_add :: "(int \<times> 'a) list \<Rightarrow> (int \<times> 'a) option" where
  "top_add [] = None"
| "top_add (p # ps) = (case top_add ps of
     None \<Rightarrow> Some p
   | Some q \<Rightarrow> if fst p < fst q then Some q else Some p)"

definition pid_view :: "('a, 'b) rwf_op list \<Rightarrow> int" where
  "pid_view ops = (case top_add (adds_of ops) of
       Some (i, _) \<Rightarrow> i
     | None \<Rightarrow> if upds_of ops = [] then PID_NEXIST else PID_WAIT_INNATE)"

text \<open>Adds carry the identifier of the replica that issued them, which is not negative.\<close>

fun op_ids_ok :: "('a, 'b) rwf_op \<Rightarrow> bool" where
  "op_ids_ok (RAdd t a) \<longleftrightarrow> 0 \<le> vc_id t"
| "op_ids_ok _ = True"

lemma adds_of_simps [simp]:
  "adds_of [] = []"
  "adds_of (p # ops) = add_entry p @ adds_of ops"
  "adds_of (ops @ ops') = adds_of ops @ adds_of ops'"
  by (simp_all add: adds_of_def)

lemma upds_of_simps [simp]:
  "upds_of [] = []"
  "upds_of (p # ops) = upd_entry p @ upds_of ops"
  "upds_of (ops @ ops') = upds_of ops @ upds_of ops'"
  by (simp_all add: upds_of_def)

lemma set_adds_of: "set (adds_of ops) = (\<Union>p \<in> set ops. set (add_entry p))"
  by (simp add: adds_of_def)

lemma adds_upds_empty: "\<forall>p \<in> set ops. \<not> is_RRmv p \<Longrightarrow> adds_of ops = [] \<and> upds_of ops = [] \<longleftrightarrow> ops = []"
proof (cases ops)
  case (Cons p ps)
  then show "\<forall>p \<in> set ops. \<not> is_RRmv p \<Longrightarrow> ?thesis" by (cases p) auto
qed simp

lemma top_add_snoc:
  "top_add (ps @ [p]) = (case top_add ps of
     None \<Rightarrow> Some p
   | Some q \<Rightarrow> if fst q < fst p then Some p else Some q)"
  by (induction ps) (auto split: option.splits)

lemma top_add_None [simp]: "top_add ps = None \<longleftrightarrow> ps = []"
  by (cases ps) (auto split: option.splits)

lemma top_add_in: "top_add ps = Some q \<Longrightarrow> q \<in> set ps"
  by (induction ps) (auto split: option.splits if_splits)

lemma top_add_max: "top_add ps = Some q \<Longrightarrow> p \<in> set ps \<Longrightarrow> fst p \<le> fst q"
  by (induction ps arbitrary: q) (fastforce split: option.splits if_splits)+

lemma top_add_Some_iff:
  assumes "inj_on fst (set ps)"
  shows "top_add ps = Some q \<longleftrightarrow> q \<in> set ps \<and> (\<forall>p \<in> set ps. fst p \<le> fst q)"
proof
  assume "top_add ps = Some q"
  then show "q \<in> set ps \<and> (\<forall>p \<in> set ps. fst p \<le> fst q)" using top_add_in top_add_max by blast
next
  assume q: "q \<in> set ps \<and> (\<forall>p \<in> set ps. fst p \<le> fst q)"
  then obtain r where r: "top_add ps = Some r" by (cases "top_add ps") auto
  then have "fst r = fst q" using q top_add_in top_add_max by (meson order_antisym)
  with r q assms show "top_add ps = Some q" using top_add_in by (metis inj_onD)
qed

lemma top_add_mset:
  assumes "mset ps = mset qs" and "inj_on fst (set ps)"
  shows "top_add ps = top_add qs"
proof -
  have set: "set ps = set qs" using assms(1) by (rule set_eq_of_mset_eq)
  show ?thesis
    using top_add_Some_iff[OF assms(2)] top_add_Some_iff[of qs] assms(2) set
    by (metis not_Some_eq)
qed

lemma pid_view_NEXIST:
  assumes "list_all op_ids_ok ops" and "\<forall>p \<in> set ops. \<not> is_RRmv p"
  shows "pid_view ops = PID_NEXIST \<longleftrightarrow> ops = []"
proof (cases "top_add (adds_of ops)")
  case None
  then show ?thesis
    using adds_upds_empty[OF assms(2)] by (auto simp: pid_view_def)
next
  case (Some q)
  then have "q \<in> set (adds_of ops)" by (rule top_add_in)
  then obtain p where p: "p \<in> set ops" "q \<in> set (add_entry p)" by (auto simp: set_adds_of)
  then have "op_ids_ok p" using assms(1) by (simp add: list_all_iff)
  then have "0 \<le> fst q" using p(2) by (induction p) auto
  with Some show ?thesis by (cases q) (auto simp: pid_view_def)
qed

lemma pid_view_add:
  "pid_view ops < vc_id t \<Longrightarrow> 0 \<le> vc_id t \<Longrightarrow> pid_view (ops @ [RAdd t a]) = vc_id t"
  "\<not> pid_view ops < vc_id t \<Longrightarrow> 0 \<le> vc_id t \<Longrightarrow> pid_view (ops @ [RAdd t a]) = pid_view ops"
  by (auto simp: pid_view_def top_add_snoc split: option.splits if_splits)

lemma pid_view_upd:
  assumes "list_all op_ids_ok ops" and "\<forall>p \<in> set ops. \<not> is_RRmv p"
  shows "pid_view (ops @ [RUpd t b]) =
    (if pid_view ops = PID_NEXIST then PID_WAIT_INNATE else pid_view ops)"
  using pid_view_NEXIST[OF assms] adds_upds_empty[OF assms(2)]
  by (auto simp: pid_view_def split: option.splits)

text \<open>One replica issues at most one add for each clock of an element: its second add is
  refused, because the element exists until a remove advances the clock.\<close>

definition adds_unique :: "('a, 'b) rwf_op list \<Rightarrow> bool" where
  "adds_unique ops \<longleftrightarrow> inj_on fst (set (adds_of ops))"

lemma adds_of_mset: "mset xs = mset ys \<Longrightarrow> mset (adds_of xs) = mset (adds_of ys)"
  unfolding adds_of_def by (rule concat_map_mset)

lemma upds_of_mset: "mset xs = mset ys \<Longrightarrow> mset (upds_of xs) = mset (upds_of ys)"
  unfolding upds_of_def by (rule concat_map_mset)

lemma top_add_perm:
  "mset ops = mset ops' \<Longrightarrow> adds_unique ops \<Longrightarrow> top_add (adds_of ops) = top_add (adds_of ops')"
  unfolding adds_unique_def by (rule top_add_mset[OF adds_of_mset])

lemma pid_view_perm: "mset ops = mset ops' \<Longrightarrow> adds_unique ops \<Longrightarrow> pid_view ops = pid_view ops'"
  using top_add_perm[of ops ops'] upds_of_mset[of ops ops']
  by (cases "upds_of ops = []"; cases "upds_of ops' = []") (auto simp: pid_view_def)

section \<open>The contract of an element\<close>

locale rwf_element =
  fixes header :: "'e \<Rightarrow> reh"
    and put_header :: "reh \<Rightarrow> 'e \<Rightarrow> 'e"
    and remove_body :: "'e \<Rightarrow> 'e"
    and add_body :: "'a \<Rightarrow> 'e \<Rightarrow> 'e"
    and update_body :: "'b \<Rightarrow> 'e \<Rightarrow> 'e"
  assumes header_put [simp]: "header (put_header h e) = h"
    and header_remove [simp]: "header (remove_body e) = header e"
    and header_add [simp]: "header (add_body a e) = header e"
    and header_update [simp]: "header (update_body b e) = header e"
    and put_header_same [simp]: "put_header (header e) e = e"
begin

definition removing :: "vc \<Rightarrow> 'e \<Rightarrow> 'e" where
  "removing t e =
     (if vle (vc_vector t) (vc_vector (reh_current (header e))) then e
      else remove_body (put_header (REH_RMV_FUNC (header e) t) e))"

fun step :: "('a, 'b) rwf_op \<Rightarrow> 'e \<Rightarrow> 'e" where
  "step (RAdd t a) e =
     (let e = removing t e in
      case addCheck (header e) t of
        (True, h) \<Rightarrow> add_body a (put_header h e)
      | (False, h) \<Rightarrow> put_header h e)"
| "step (RUpd t b) e =
     (let e = removing t e in
      case updateCheck (header e) t of
        (True, h) \<Rightarrow> update_body b (put_header h e)
      | (False, h) \<Rightarrow> put_header h e)"
| "step (RRmv t) e = removing t e"

definition run :: "('a, 'b) rwf_op list \<Rightarrow> 'e \<Rightarrow> 'e" where
  "run hs e = fold step hs e"

lemma run_Nil [simp]: "run [] e = e"
  by (simp add: run_def)

lemma run_snoc [simp]: "run (hs @ [p]) e = step p (run hs e)"
  by (simp add: run_def)

text \<open>Registering a current operation: what happens to the header and the body when the
  clock of the operation equals the clock of the element.\<close>

fun register :: "('a, 'b) rwf_op \<Rightarrow> 'e \<Rightarrow> 'e" where
  "register (RAdd t a) e =
     (if reh_pid (header e) < vc_id t
      then add_body a (put_header ((header e)\<lparr>reh_pid := vc_id t\<rparr>) e) else e)"
| "register (RUpd t b) e =
     update_body b (put_header
       (if EXISTS (header e) then header e else (header e)\<lparr>reh_pid := PID_WAIT_INNATE\<rparr>) e)"
| "register (RRmv t) e = e"

lemma step_old:
  assumes "vle (op_vec p) (vc_vector (reh_current (header e)))"
    and "op_vec p \<noteq> vc_vector (reh_current (header e))"
  shows "step p e = e"
  using assms
  by (cases p) (auto simp: removing_def addCheck_def updateCheck_def Let_def clock_simps)

lemma step_same:
  assumes "op_vec p = vc_vector (reh_current (header e))"
  shows "step p e = register p e"
  using assms
  by (cases p) (auto simp: removing_def addCheck_def updateCheck_def Let_def clock_simps)

lemma step_new:
  assumes "\<not> vle (op_vec p) (vc_vector (reh_current (header e)))"
    and "length (op_vec p) = length (vc_vector (reh_current (header e)))"
  shows "step p e =
    (let e' = removing (op_clock p) e in
     if vle (vc_vector (reh_current (header e))) (op_vec p) then register p e' else e')"
proof -
  let ?c = "vc_vector (reh_current (header e))"
  let ?e = "removing (op_clock p) e"
  have cur: "vc_vector (reh_current (header ?e)) = vjoin ?c (op_vec p)"
    using assms by (simp add: removing_def REH_RMV_FUNC_def vc_update_join)
  have eq: "op_vec p = vjoin ?c (op_vec p) \<longleftrightarrow> vle ?c (op_vec p)"
    using assms(2) vle_iff_vjoin[of ?c "op_vec p"] by auto
  show ?thesis
    using cur eq
    by (cases p) (auto simp: addCheck_def updateCheck_def Let_def clock_simps)
qed

lemma reh_current_register [simp]: "reh_current (header (register p e)) = reh_current (header e)"
  by (cases p) auto

lemma current_removing:
  "\<not> vle (vc_vector t) (vc_vector (reh_current (header e))) \<Longrightarrow>
   reh_current (header (removing t e)) = vc_update (reh_current (header e)) t"
  by (simp add: removing_def REH_RMV_FUNC_def)

lemma current_step:
  assumes "length (op_vec p) = length (vc_vector (reh_current (header e)))"
  shows "reh_current (header (step p e)) =
    (reh_current (header e))\<lparr>vc_vector := vjoin (op_vec p) (vc_vector (reh_current (header e)))\<rparr>"
proof (cases "vle (op_vec p) (vc_vector (reh_current (header e)))")
  case True
  then show ?thesis
    by (cases "op_vec p = vc_vector (reh_current (header e))")
      (simp_all add: step_same step_old vjoin_absorb)
next
  case False
  with assms show ?thesis
    by (simp add: step_new Let_def current_removing vc_update_join vjoin_commute)
qed

text \<open>After any history the clock of the element is the join of all clocks.\<close>

lemma current_run:
  assumes "rwf_history n hs" and "reh_current (header e0) = vc_new (int n) me"
  shows "reh_current (header (run hs e0)) = \<lparr>vc_vector = latest n hs, vc_id = me\<rparr>"
  using assms
proof (induction hs rule: rev_induct)
  case Nil
  then show ?case by (simp add: vc_new_def)
next
  case (snoc p hs)
  then show ?case using length_latest[of n hs] by (simp add: current_step)
qed

text \<open>The induction rule of the framework: a relation between the operations that count
  and the element, which holds of no operations after every removal, and which registering an
  operation keeps, holds after every history.\<close>

lemma run_induct:
  assumes wf: "rwf_history n hs" and init: "reh_current (header e0) = vc_new (int n) me"
    and Q0: "Q [] e0"
    and Qrm: "\<And>h e. reh_pid h = PID_NEXIST \<Longrightarrow> Q [] (remove_body (put_header h e))"
    and Qreg: "\<And>ops p e. \<not> is_RRmv p \<Longrightarrow> p \<in> set hs \<Longrightarrow> Q ops e \<Longrightarrow> Q (ops @ [p]) (register p e)"
  shows "Q (current_ops n hs) (run hs e0)"
  using wf Qreg
proof (induction hs rule: rev_induct)
  case Nil
  then show ?case using Q0 by (simp add: current_ops_def)
next
  case (snoc p hs)
  let ?e = "run hs e0"
  have wfs: "rwf_history n hs" and IH: "Q (current_ops n hs) ?e" using snoc by auto
  have cur: "vc_vector (reh_current (header ?e)) = latest n hs"
    using current_run[OF wfs init] by simp
  have len: "length (op_vec p) = length (latest n hs)"
    using snoc.prems(1) length_latest[OF wfs] by simp
  have reg: "\<And>ops e. Q ops e \<Longrightarrow> Q (ops @ (if is_RRmv p then [] else [p])) (register p e)"
    using snoc.prems(2)[of p] by (cases p) auto
  show ?case
  proof (cases "vle (op_vec p) (latest n hs)")
    case True
    then show ?thesis
      using IH reg[OF IH] cur
      by (cases "op_vec p = latest n hs")
        (simp_all add: step_same step_old current_ops_same current_ops_old)
  next
    case False
    then have "Q [] (removing (op_clock p) ?e)"
      using cur Qrm by (simp add: removing_def REH_RMV_FUNC_def)
    with False cur len reg[of "[]"] show ?thesis
      by (auto simp: current_ops_new[OF snoc.prems(1) False] step_new Let_def split: if_splits)
  qed
qed

end

end
