(* ===== verification/RwfzElem.thy ===== *)
theory RwfzElem
  imports RwfCore
begin

text \<open>
  The element of the remove-win priority queue (\<open>t_rwfzset.c\<close>): its record, constructor and
  score, the instance of the framework's contract, and the state of an element after any
  history of effects. The score an element ends up with does not depend on the order in which
  the effects arrive, as long as the additions of doubles involved are exact.
\<close>

record rwfze =
  rwfze_header :: reh
  rwfze_innate :: dbl
  rwfze_acquired :: dbl

definition rwfzeNew :: "int \<Rightarrow> int \<Rightarrow> rwfze" where
  "rwfzeNew n me =
     \<lparr>rwfze_header = REH_INIT n me, rwfze_innate = dzero, rwfze_acquired = dzero\<rparr>"

definition rwfz_SCORE :: "rwfze \<Rightarrow> dbl" where
  "rwfz_SCORE e = dadd (rwfze_innate e) (rwfze_acquired e)"

definition rwfz_reset :: "rwfze \<Rightarrow> rwfze" where
  "rwfz_reset e = e\<lparr>rwfze_acquired := dzero, rwfze_innate := dzero\<rparr>"

definition rwfz_innate :: "dbl \<Rightarrow> rwfze \<Rightarrow> rwfze" where
  "rwfz_innate v e = e\<lparr>rwfze_innate := v\<rparr>"

definition rwfz_acquire :: "dbl \<Rightarrow> rwfze \<Rightarrow> rwfze" where
  "rwfz_acquire v e = e\<lparr>rwfze_acquired := dadd (rwfze_acquired e) v\<rparr>"

definition rwfz_put :: "reh \<Rightarrow> rwfze \<Rightarrow> rwfze" where
  "rwfz_put h e = e\<lparr>rwfze_header := h\<rparr>"

lemmas rwfz_bodies = rwfz_reset_def rwfz_innate_def rwfz_acquire_def rwfz_put_def

interpretation rz: rwf_element rwfze_header rwfz_put rwfz_reset rwfz_innate rwfz_acquire
  by unfold_locales (simp_all add: rwfz_bodies)

section \<open>The state as a function of the history\<close>

type_synonym rwfz_op = "(dbl, dbl) rwf_op"

definition innate_view :: "rwfz_op list \<Rightarrow> dbl" where
  "innate_view ops = (case top_add (adds_of ops) of Some (_, v) \<Rightarrow> v | None \<Rightarrow> dzero)"

definition rwfz_view :: "nat \<Rightarrow> int \<Rightarrow> rwfz_op list \<Rightarrow> rwfze" where
  "rwfz_view n me hs = (let ops = current_ops n hs in
     \<lparr>rwfze_header = \<lparr>reh_pid = pid_view ops, reh_current = \<lparr>vc_vector = latest n hs, vc_id = me\<rparr>\<rparr>,
      rwfze_innate = innate_view ops,
      rwfze_acquired = dsum dzero (upds_of ops)\<rparr>)"

lemma rwfz_run_view:
  assumes wf: "rwf_history n hs" and ids: "list_all op_ids_ok hs"
  shows "rz.run hs (rwfzeNew (int n) me) = rwfz_view n me hs"
proof -
  let ?e0 = "rwfzeNew (int n) me"
  let ?Q = "\<lambda>ops (e :: rwfze). list_all op_ids_ok ops \<and> (\<forall>p \<in> set ops. \<not> is_RRmv p) \<and>
    reh_pid (rwfze_header e) = pid_view ops \<and> rwfze_innate e = innate_view ops \<and>
    rwfze_acquired e = dsum dzero (upds_of ops)"
  have init: "reh_current (rwfze_header ?e0) = vc_new (int n) me"
    by (simp add: rwfzeNew_def REH_INIT_def)
  have "?Q (current_ops n hs) (rz.run hs ?e0)"
  proof (rule rz.run_induct[OF wf init])
    fix ops p e
    assume p: "\<not> is_RRmv p" "p \<in> set hs" and Q: "?Q ops e"
    have ok: "op_ids_ok p" using ids p(2) by (simp add: list_all_iff)
    show "?Q (ops @ [p]) (rz.register p e)"
    proof (cases p)
      case (RAdd t a)
      then show ?thesis
        using Q ok
        by (auto simp: rwfz_bodies pid_view_def innate_view_def top_add_snoc split: option.splits)
    next
      case (RUpd t b)
      then show ?thesis
        using Q ok pid_view_upd[of ops t b]
        by (auto simp: rwfz_bodies innate_view_def dsum_def EXISTS_def)
    qed (use p in auto)
  qed (auto simp: rwfz_bodies rwfzeNew_def REH_INIT_def pid_view_def innate_view_def dsum_def)
  moreover have "reh_current (rwfze_header (rz.run hs ?e0)) = \<lparr>vc_vector = latest n hs, vc_id = me\<rparr>"
    using rz.current_run[OF wf init] .
  ultimately show ?thesis by (simp add: rwfz_view_def Let_def)
qed

section \<open>Order does not matter\<close>

lemma rwfz_view_perm:
  assumes perm: "mset hs = mset hs'"
    and uniq: "adds_unique (current_ops n hs)"
    and exact: "exact_values (upds_of (current_ops n hs))"
  shows "rwfz_view n me hs = rwfz_view n me hs'"
proof -
  have m: "mset (current_ops n hs) = mset (current_ops n hs')" using perm by (rule current_ops_mset)
  have "dsum dzero (upds_of (current_ops n hs')) = dsum dzero (upds_of (current_ops n hs))"
    using exact_values_perm[OF exact upds_of_mset[OF m[symmetric]]] by simp
  then show ?thesis
    using top_add_perm[OF m uniq] pid_view_perm[OF m uniq] latest_mset[OF perm, of n]
    by (simp add: rwfz_view_def Let_def innate_view_def)
qed

section \<open>Scores are numbers\<close>

text \<open>The values a history carries. When they are exact, no score is ever NaN.\<close>

fun op_value :: "rwfz_op \<Rightarrow> dbl list" where
  "op_value (RAdd t v) = [v]"
| "op_value (RUpd t v) = [v]"
| "op_value (RRmv t) = []"

definition op_values :: "rwfz_op list \<Rightarrow> dbl list" where
  "op_values hs = concat (map op_value hs)"

lemma op_values_simps [simp]:
  "op_values [] = []" "op_values (p # hs) = op_value p @ op_values hs" "op_values (hs @ hs') = op_values hs @ op_values hs'"
  by (simp_all add: op_values_def)

lemma op_values_split: "mset (op_values hs) = mset (map snd (adds_of hs)) + mset (upds_of hs)"
proof (induction hs)
  case (Cons p hs)
  then show ?case by (cases p) auto
qed simp

lemma op_values_filter: "mset (op_values (filter P hs)) \<subseteq># mset (op_values hs)"
proof (induction hs)
  case (Cons p hs)
  then show ?case by (auto intro: subset_mset.add_mono subset_mset.order_trans)
qed simp

lemma rwfz_score_numeric:
  assumes "rwf_history n hs" "list_all op_ids_ok hs" and ex: "exact_values (op_values hs)"
  shows "rwfz_SCORE (rz.run hs (rwfzeNew (int n) me)) \<noteq> NaN"
proof -
  let ?ops = "current_ops n hs"
  have sub: "mset (map snd (adds_of ?ops)) + mset (upds_of ?ops) \<subseteq># mset (op_values hs)"
    using op_values_filter[of _ hs] unfolding op_values_split[symmetric] current_ops_def by simp
  have "exact_values (innate_view ?ops # upds_of ?ops)"
  proof (cases "top_add (adds_of ?ops)")
    case None
    have "mset (upds_of ?ops) \<subseteq># mset (map snd (adds_of ?ops)) + mset (upds_of ?ops)" by (rule mset_subset_eq_add_right)
    from subset_mset.order_trans[OF this sub] show ?thesis
      using None exact_values_zero[OF exact_values_sub[OF ex]] by (simp add: innate_view_def)
  next
    case (Some q)
    then have "snd q \<in> set (map snd (adds_of ?ops))" using top_add_in[OF Some] by (simp add: image_iff rev_bexI)
    then have "{#snd q#} \<subseteq># mset (map snd (adds_of ?ops))" by (simp only: mset_subset_eq_single set_mset_mset)
    then have "{#snd q#} + mset (upds_of ?ops) \<subseteq># mset (map snd (adds_of ?ops)) + mset (upds_of ?ops)"
      by (rule subset_mset.add_right_mono)
    from subset_mset.order_trans[OF this sub] have "mset (snd q # upds_of ?ops) \<subseteq># mset (op_values hs)" by simp
    then show ?thesis
      using Some exact_values_sub[OF ex, of "snd q # upds_of ?ops"] by (simp add: innate_view_def case_prod_beta)
  qed
  then show ?thesis
    using exact_values_dadd by (simp add: rwfz_run_view[OF assms(1,2)] rwfz_SCORE_def rwfz_view_def Let_def)
qed

lemma op_values_mset: "mset hs = mset hs' \<Longrightarrow> mset (op_values hs) = mset (op_values hs')"
  unfolding op_values_def by (rule concat_map_mset)

lemma upds_exact:
  assumes "exact_values (op_values hs)"
  shows "exact_values (upds_of (current_ops n hs))"
proof -
  have "mset (upds_of (current_ops n hs)) \<subseteq># mset (op_values (current_ops n hs))" by (simp add: op_values_split)
  then show ?thesis
    using op_values_filter[of _ hs] assms exact_values_sub subset_mset.order_trans
    unfolding current_ops_def by blast
qed

end
