(* ===== verification/LamportClock.thy ===== *)
theory LamportClock
  imports VectorClock
begin

text \<open>
  \<open>lamport_clock.h\<close>. A clock is a counter and a replica identifier. \<open>lc_cmp_as_tag\<close>
  orders the unique tags of the add-win queue by identifier first; \<open>lc_cmp\<close> orders the
  timestamps of the lists by counter first. Both are total orders.
\<close>

record lc =
  lc_x :: int
  lc_id :: int

definition lc_new :: "int \<Rightarrow> int \<Rightarrow> lc" where
  "lc_new x pid = \<lparr>lc_x = x, lc_id = pid\<rparr>"

definition lc_cmp_as_tag :: "lc \<Rightarrow> lc \<Rightarrow> int" where
  "lc_cmp_as_tag t1 t2 =
     (if lc_id t1 \<noteq> lc_id t2 then lc_id t1 - lc_id t2 else lc_x t1 - lc_x t2)"

definition lc_cmp :: "lc \<Rightarrow> lc \<Rightarrow> int" where
  "lc_cmp t1 t2 = (if lc_x t1 \<noteq> lc_x t2 then lc_x t1 - lc_x t2 else lc_id t1 - lc_id t2)"

definition lc_dup :: "lc \<Rightarrow> lc" where
  "lc_dup t = lc_new (lc_x t) (lc_id t)"

definition lcToSds :: "lc \<Rightarrow> sds" where
  "lcToSds t = show_int (lc_x t) @ CHR '','' # show_int (lc_id t)"

text \<open>When \<open>sscanf\<close> does not convert both numbers the fields stay uninitialised: \<open>None\<close>.\<close>

definition sdsToLc :: "sds \<Rightarrow> lc option" where
  "sdsToLc s = map_option (\<lambda>(x, i). lc_new x i) (scan_int_pair s)"

definition lc_update :: "lc \<Rightarrow> lc \<Rightarrow> lc" where
  "lc_update tar m = tar\<lparr>lc_x := (if lc_x tar > lc_x m then lc_x tar else lc_x m)\<rparr>"

text \<open>The macro \<open>lc_copy\<close>: a null target is allocated, another one is overwritten.\<close>

definition lc_copy :: "lc option \<Rightarrow> lc \<Rightarrow> lc option" where
  "lc_copy tar m = (case tar of
       None \<Rightarrow> Some (lc_dup m)
     | Some t \<Rightarrow> Some (t\<lparr>lc_x := lc_x m, lc_id := lc_id m\<rparr>))"

definition lc_now :: "lc \<Rightarrow> sds" where
  "lc_now t = lcToSds (t\<lparr>lc_x := lc_x t + 1\<rparr>)"

lemma lc_dup_id [clock_simps]: "lc_dup t = t"
  by (simp add: lc_dup_def lc_new_def)

lemma lc_copy_Some [clock_simps]: "lc_copy tar m = Some m"
  by (simp add: lc_copy_def lc_dup_id split: option.split)

lemma lc_cmp_as_tag_0 [simp]: "lc_cmp_as_tag a b = 0 \<longleftrightarrow> a = b"
  by (auto simp: lc_cmp_as_tag_def)

lemma lc_cmp_0 [simp]: "lc_cmp a b = 0 \<longleftrightarrow> a = b"
  by (auto simp: lc_cmp_def)

lemma lc_cmp_as_tag_antisym: "lc_cmp_as_tag a b < 0 \<longleftrightarrow> 0 < lc_cmp_as_tag b a"
  by (auto simp: lc_cmp_as_tag_def)

lemma lc_cmp_as_tag_trans:
  "lc_cmp_as_tag a b < 0 \<Longrightarrow> lc_cmp_as_tag b c < 0 \<Longrightarrow> lc_cmp_as_tag a c < 0"
  by (auto simp: lc_cmp_as_tag_def split: if_splits)

lemma lc_cmp_trans: "lc_cmp a b < 0 \<Longrightarrow> lc_cmp b c < 0 \<Longrightarrow> lc_cmp a c < 0"
  by (auto simp: lc_cmp_def split: if_splits)

lemma sdsToLc_lcToSds: "sdsToLc (lcToSds t) = Some t"
  by (simp add: sdsToLc_def lcToSds_def scan_int_pair_show lc_new_def)

end
