(* ===== verification/OzElem.thy ===== *)
theory OzElem
  imports LamportClock "HOL-Library.Monad_Syntax"
begin

text \<open>
  The element of the add-win priority queue (\<open>t_ozset.c\<close>) and the functions that change it.
  The entries of the add set live at addresses, because \<open>innate\<close> and \<open>acquired\<close> point into
  the set. \<open>add_ase\<close> leaves the field \<open>x\<close> of a new entry uninitialised: what the fresh memory
  holds is the parameter \<open>junk\<close>. Following a null or stale pointer is \<open>None\<close>.
\<close>

record oz_ase =
  ase_t :: lc
  ase_x :: dbl
  ase_inc :: dbl
  ase_count :: dbl

record oze =
  oze_current :: int
  oze_innate :: "addr option"
  oze_acquired :: "addr option"
  oze_aset :: "(addr \<times> oz_ase) list"
  oze_rset :: "lc list"
  oze_fresh :: addr

definition ozeNew :: oze where
  "ozeNew = \<lparr>oze_current = 0, oze_innate = None, oze_acquired = None, oze_aset = [], oze_rset = [],
     oze_fresh = 0\<rparr>"

definition oz_LOOKUP :: "oze \<Rightarrow> bool" where
  "oz_LOOKUP e \<longleftrightarrow> length (oze_aset e) \<noteq> 0"

definition ase_at :: "oze \<Rightarrow> addr \<Rightarrow> oz_ase option" where
  "ase_at e a = map_of (oze_aset e) a"

definition ase_put :: "addr \<Rightarrow> oz_ase \<Rightarrow> oze \<Rightarrow> oze" where
  "ase_put a v e = e\<lparr>oze_aset := map (\<lambda>(b, w). if b = a then (b, v) else (b, w)) (oze_aset e)\<rparr>"

definition oz_SCORE :: "oze \<Rightarrow> dbl option" where
  "oz_SCORE e = do {
     x \<leftarrow> (case oze_innate e of None \<Rightarrow> Some dzero | Some a \<Rightarrow> map_option ase_x (ase_at e a));
     i \<leftarrow> (case oze_acquired e of None \<Rightarrow> Some dzero | Some a \<Rightarrow> map_option ase_inc (ase_at e a));
     Some (dadd x i)
   }"

fun aset_find :: "lc \<Rightarrow> (addr \<times> oz_ase) list \<Rightarrow> addr option" where
  "aset_find t [] = None"
| "aset_find t ((a, v) # as) = (if lc_cmp_as_tag t (ase_t v) = 0 then Some a else aset_find t as)"

text \<open>\<open>asetGet\<close> with \<open>delete\<close> unset, and the list after the node was deleted.\<close>

definition asetGet :: "oze \<Rightarrow> lc \<Rightarrow> addr option" where
  "asetGet e t = aset_find t (oze_aset e)"

fun aset_delete :: "lc \<Rightarrow> (addr \<times> oz_ase) list \<Rightarrow> (addr \<times> oz_ase) list" where
  "aset_delete t [] = []"
| "aset_delete t ((a, v) # as) =
     (if lc_cmp_as_tag t (ase_t v) = 0 then as else (a, v) # aset_delete t as)"

definition asetGet_delete :: "oze \<Rightarrow> lc \<Rightarrow> addr option \<times> oze" where
  "asetGet_delete e t = (asetGet e t, e\<lparr>oze_aset := aset_delete t (oze_aset e)\<rparr>)"

fun rset_find :: "lc \<Rightarrow> lc list \<Rightarrow> lc option" where
  "rset_find t [] = None"
| "rset_find t (r # rs) = (if lc_cmp_as_tag t r = 0 then Some r else rset_find t rs)"

definition rsetGet :: "oze \<Rightarrow> lc \<Rightarrow> lc option" where
  "rsetGet e t = rset_find t (oze_rset e)"

definition add_ase :: "dbl \<Rightarrow> oze \<Rightarrow> lc \<Rightarrow> addr \<times> oze" where
  "add_ase junk e t =
     (oze_fresh e,
      e\<lparr>oze_aset := oze_aset e @ [(oze_fresh e, \<lparr>ase_t = lc_dup t, ase_x = junk, ase_inc = dzero, ase_count = dzero\<rparr>)],
        oze_fresh := Suc (oze_fresh e)\<rparr>)"

definition aset_get_or_add :: "dbl \<Rightarrow> oze \<Rightarrow> lc \<Rightarrow> addr \<times> oze" where
  "aset_get_or_add junk e t = (case asetGet e t of Some a \<Rightarrow> (a, e) | None \<Rightarrow> add_ase junk e t)"

text \<open>The tests that decide whether an entry takes the place of \<open>innate\<close> or \<open>acquired\<close>.\<close>

definition innate_before :: "oze \<Rightarrow> oz_ase \<Rightarrow> bool option" where
  "innate_before e v = (case oze_innate e of
       None \<Rightarrow> Some True
     | Some b \<Rightarrow> map_option (\<lambda>w. lc_cmp_as_tag (ase_t w) (ase_t v) < 0) (ase_at e b))"

definition acquired_before :: "oze \<Rightarrow> oz_ase \<Rightarrow> bool option" where
  "acquired_before e v = (case oze_acquired e of
       None \<Rightarrow> Some True
     | Some b \<Rightarrow> map_option (\<lambda>w. dlt (ase_count w) (ase_count v) \<or>
         deq (ase_count w) (ase_count v) \<and> lc_cmp_as_tag (ase_t w) (ase_t v) < 0) (ase_at e b))"

definition update_innate_value :: "dbl \<Rightarrow> oze \<Rightarrow> lc \<Rightarrow> dbl \<Rightarrow> (int \<times> oze) option" where
  "update_innate_value junk e t v =
     (if rsetGet e t \<noteq> None then Some (0, e)
      else do {
        let (a, e) = aset_get_or_add junk e t;
        w \<leftarrow> ase_at e a;
        let w = w\<lparr>ase_x := v\<rparr>;
        let e = ase_put a w e;
        better \<leftarrow> innate_before e w;
        Some (if better then (1, e\<lparr>oze_innate := Some a\<rparr>) else (0, e))
      })"

definition update_acquired_value :: "dbl \<Rightarrow> oze \<Rightarrow> lc \<Rightarrow> dbl \<Rightarrow> (int \<times> oze) option" where
  "update_acquired_value junk e t v =
     (if rsetGet e t \<noteq> None then Some (0, e)
      else do {
        let (a, e) = aset_get_or_add junk e t;
        w \<leftarrow> ase_at e a;
        let w = w\<lparr>ase_inc := dadd (ase_inc w) v,
                  ase_count := dadd (ase_count w) (if dlt dzero v then v else dneg v)\<rparr>;
        let e = ase_put a w e;
        if oze_acquired e = Some a then Some (1, e)
        else do {
          better \<leftarrow> acquired_before e w;
          Some (if better then (1, e\<lparr>oze_acquired := Some a\<rparr>) else (0, e))
        }
      })"

definition remove_tag :: "oze \<Rightarrow> lc \<Rightarrow> oze" where
  "remove_tag e t =
     (if rsetGet e t \<noteq> None then e
      else
        let e = e\<lparr>oze_rset := oze_rset e @ [lc_dup t]\<rparr>;
            (a, e) = asetGet_delete e t in
        if a \<noteq> None then
          let e = (if oze_innate e = a then e\<lparr>oze_innate := None\<rparr> else e) in
          (if oze_acquired e = a then e\<lparr>oze_acquired := None\<rparr> else e)
        else e)"

fun resort_loop :: "(addr \<times> oz_ase) list \<Rightarrow> oze \<Rightarrow> oze option" where
  "resort_loop [] e = Some e"
| "resort_loop ((a, v) # as) e = do {
     bi \<leftarrow> innate_before e v;
     let e = (if bi then e\<lparr>oze_innate := Some a\<rparr> else e);
     bq \<leftarrow> acquired_before e v;
     let e = (if bq then e\<lparr>oze_acquired := Some a\<rparr> else e);
     resort_loop as e
   }"

definition resort :: "oze \<Rightarrow> oze option" where
  "resort e = (if oze_innate e \<noteq> None \<and> oze_acquired e \<noteq> None then Some e
     else resort_loop (oze_aset e) e)"

end
