(* ===== verification/AddSets.thy ===== *)
theory AddSets
  imports VectorClock "HOL-Library.Monad_Syntax"
begin

text \<open>
  The add set, the remove set and the pointer to the value, which \<open>t_rzset.c\<close> and \<open>t_rlist.c\<close>
  keep in every element with the same code. Entries have addresses, because \<open>value\<close> points to
  one of them; a stale pointer that is followed is \<open>None\<close>. The functions take the projection
  from an entry to its clock, the field \<open>t\<close> of both kinds of entries.
\<close>

record 'a addsets =
  as_value :: "addr option"
  as_aset :: "(addr \<times> 'a) list"
  as_rset :: "vc list"
  as_fresh :: addr

definition as_empty :: "'a addsets" where
  "as_empty = \<lparr>as_value = None, as_aset = [], as_rset = [], as_fresh = 0\<rparr>"

definition as_LOOKUP :: "'a addsets \<Rightarrow> bool" where
  "as_LOOKUP S \<longleftrightarrow> length (as_aset S) \<noteq> 0 \<and> length (as_rset S) = 0"

text \<open>The loop that deletes the entries older than \<open>t\<close> and clears \<open>value\<close> when it points to
  one of them. The flag tells whether an entry was deleted.\<close>

fun aset_sweep :: "('a \<Rightarrow> vc) \<Rightarrow> vc \<Rightarrow> addr option \<Rightarrow> (addr \<times> 'a) list \<Rightarrow> bool \<times> addr option \<times> (addr \<times> 'a) list" where
  "aset_sweep clk t v [] = (False, v, [])"
| "aset_sweep clk t v ((a, x) # as) =
     (if vc_cmp (clk x) t = VC_LESS
      then let (r, v', as') = aset_sweep clk t (if v = Some a then None else v) as in (True, v', as')
      else let (r, v', as') = aset_sweep clk t v as in (r, v', (a, x) # as'))"

fun rset_sweep :: "vc \<Rightarrow> vc list \<Rightarrow> vc list" where
  "rset_sweep t [] = []"
| "rset_sweep t (r # rs) = (if vc_cmp r t = VC_LESS then rset_sweep t rs else r # rset_sweep t rs)"

definition value_before :: "('a \<Rightarrow> vc) \<Rightarrow> (addr \<times> 'a) list \<Rightarrow> addr option \<Rightarrow> vc \<Rightarrow> bool option" where
  "value_before clk as v t = (case v of
       None \<Rightarrow> Some True
     | Some b \<Rightarrow> map_option (\<lambda>w. vc_id (clk w) < vc_id t) (map_of as b))"

text \<open>The loop that picks the entry of the largest identifier; \<open>all\<close> is the whole set.\<close>

fun pick_value :: "('a \<Rightarrow> vc) \<Rightarrow> (addr \<times> 'a) list \<Rightarrow> addr option \<Rightarrow> (addr \<times> 'a) list \<Rightarrow> addr option option" where
  "pick_value clk all v [] = Some v"
| "pick_value clk all v ((a, x) # as) = do {
     b \<leftarrow> value_before clk all v (clk x);
     pick_value clk all (if b then Some a else v) as
   }"

definition insert_sets :: "('a \<Rightarrow> vc) \<Rightarrow> 'a \<Rightarrow> vc \<Rightarrow> 'a addsets \<Rightarrow> 'a addsets option" where
  "insert_sets clk x t S = do {
     let a = as_fresh S;
     let (removed, v, as) = aset_sweep clk t (as_value S) (as_aset S @ [(a, x)]);
     let rs = rset_sweep t (as_rset S);
     v \<leftarrow> (if removed \<and> v = None then pick_value clk as v as else Some v);
     b \<leftarrow> value_before clk as v t;
     Some \<lparr>as_value = (if b then Some a else v), as_aset = as, as_rset = rs, as_fresh = Suc a\<rparr>
   }"

definition remove_sets :: "('a \<Rightarrow> vc) \<Rightarrow> vc \<Rightarrow> 'a addsets \<Rightarrow> 'a addsets option" where
  "remove_sets clk t S = do {
     let rs = as_rset S @ [vc_dup t];
     let (removed, v, as) = aset_sweep clk t (as_value S) (as_aset S);
     v \<leftarrow> (if v = None then pick_value clk as v as else Some v);
     Some (S\<lparr>as_value := v, as_aset := as, as_rset := rs\<rparr>)
   }"

text \<open>Changing every entry older than \<open>t\<close>.\<close>

definition update_sets :: "('a \<Rightarrow> vc) \<Rightarrow> vc \<Rightarrow> ('a \<Rightarrow> 'a) \<Rightarrow> 'a addsets \<Rightarrow> 'a addsets" where
  "update_sets clk t f S =
     S\<lparr>as_aset := map (\<lambda>(a, x). if vc_cmp (clk x) t = VC_LESS then (a, f x) else (a, x)) (as_aset S)\<rparr>"

definition value_of :: "'a addsets \<Rightarrow> 'a option" where
  "value_of S = Option.bind (as_value S) (map_of (as_aset S))"

end
