(* ===== verification/RzElem.thy ===== *)
theory RzElem
  imports AddSets CDouble
begin

text \<open>
  The element of the remove-win priority queue with causal delivery (\<open>t_rzset.c\<close>): its add and
  remove sets, the commands that wait for their causes, and the parts of \<open>addFunc\<close>,
  \<open>increaseFunc\<close> and \<open>removeFunc\<close> that change the element.
\<close>

record rz_ase =
  rza_t :: vc
  rza_x :: dbl
  rza_inc :: dbl

datatype rz_cmd_type = RZADD | RZINCBY | RZREM

record rz_cmd =
  rzc_type :: rz_cmd_type
  rzc_value :: dbl
  rzc_t :: vc

record rze =
  rze_current :: vc
  rze_sets :: "rz_ase addsets"
  rze_ops :: "rz_cmd list"

definition rzeNew :: "int \<Rightarrow> int \<Rightarrow> rze" where
  "rzeNew n me = \<lparr>rze_current = vc_new n me, rze_sets = as_empty, rze_ops = []\<rparr>"

definition rz_cmdNew :: "rz_cmd_type \<Rightarrow> dbl \<Rightarrow> vc \<Rightarrow> rz_cmd" where
  "rz_cmdNew ty v t = \<lparr>rzc_type = ty, rzc_value = v, rzc_t = t\<rparr>"

definition rz_LOOKUP :: "rze \<Rightarrow> bool" where
  "rz_LOOKUP e = as_LOOKUP (rze_sets e)"

definition rz_SCORE :: "rze \<Rightarrow> dbl option" where
  "rz_SCORE e = map_option (\<lambda>v. dadd (rza_x v) (rza_inc v)) (value_of (rze_sets e))"

text \<open>\<open>addFunc\<close> up to the sorted set.\<close>

definition rz_add_sets :: "rze \<Rightarrow> dbl \<Rightarrow> vc \<Rightarrow> rze option" where
  "rz_add_sets e v t =
     map_option (\<lambda>S. e\<lparr>rze_sets := S\<rparr>)
       (insert_sets rza_t \<lparr>rza_t = vc_dup t, rza_x = v, rza_inc = dzero\<rparr> t (rze_sets e))"

definition rz_inc_sets :: "rze \<Rightarrow> dbl \<Rightarrow> vc \<Rightarrow> rze" where
  "rz_inc_sets e v t =
     e\<lparr>rze_sets := update_sets rza_t t (\<lambda>w. w\<lparr>rza_inc := dadd (rza_inc w) v\<rparr>) (rze_sets e)\<rparr>"

definition rz_rem_sets :: "rze \<Rightarrow> vc \<Rightarrow> rze option" where
  "rz_rem_sets e t = map_option (\<lambda>S. e\<lparr>rze_sets := S\<rparr>) (remove_sets rza_t t (rze_sets e))"

definition rz_advance :: "rze \<Rightarrow> vc \<Rightarrow> rze" where
  "rz_advance e t = e\<lparr>rze_current := vc_update (rze_current e) t\<rparr>"

end
