(* ===== verification/ListBasics.thy ===== *)
theory ListBasics
  imports LamportClock
begin

text \<open>
  Position identifiers of list elements (\<open>list_basics.h\<close>, \<open>list_basics.c\<close>): their wire format,
  their order and the construction of a new identifier between two others. An identifier is
  the list of its positions; reading past the end of a string or past the static buffer of 1024
  positions is \<open>None\<close>. The construction is shown to end, to be strictly between its neighbours
  and to stay within the number base; the order is shown to be total.
\<close>

section \<open>Data and operations\<close>

record position =
  p_pos :: int
  p_pid :: int
  p_count :: int

type_synonym leid = "position list"

abbreviation (input) BASE :: int where "BASE \<equiv> 16777216"
abbreviation (input) RDM_STEP :: int where "RDM_STEP \<equiv> 128"
abbreviation (input) LEID_BUF :: nat where "LEID_BUF \<equiv> 1024"

definition pos_cmp :: "position \<Rightarrow> position \<Rightarrow> int" where
  "pos_cmp p1 p2 =
     (if p_pos p1 \<noteq> p_pos p2 then p_pos p1 - p_pos p2
      else if p_pid p1 \<noteq> p_pid p2 then p_pid p1 - p_pid p2
      else p_count p1 - p_count p2)"

definition show_position :: "position \<Rightarrow> string" where
  "show_position p = show_int (p_pos p) @ CHR '','' # show_int (p_pid p) @ CHR '','' # show_int (p_count p)"

fun leidToSds :: "leid \<Rightarrow> sds option" where
  "leidToSds [] = None"
| "leidToSds [p] = Some (show_position p)"
| "leidToSds (p # ps) = map_option (\<lambda>s. show_position p @ CHR ''|'' # s) (leidToSds ps)"

definition after_comma :: "string \<Rightarrow> string option" where
  "after_comma p = (case dropWhile (\<lambda>c. c \<noteq> CHR '','') p of [] \<Rightarrow> None | c # cs \<Rightarrow> Some cs)"

function read_leid :: "nat \<Rightarrow> string \<Rightarrow> leid option" where
  "read_leid n p =
     (if n \<ge> LEID_BUF then None
      else (case after_comma p of
        None \<Rightarrow> None
      | Some p1 \<Rightarrow> (case after_comma p1 of
          None \<Rightarrow> None
        | Some p2 \<Rightarrow>
            let x = \<lparr>p_pos = atoi p, p_pid = atoi p1, p_count = atoi p2\<rparr> in
            (case dropWhile (\<lambda>c. c \<noteq> CHR ''|'' \<and> c \<noteq> CHR 0x00) p2 of
               [] \<Rightarrow> Some [x]
             | c # cs \<Rightarrow> if c = CHR 0x00 then Some [x] else map_option (Cons x) (read_leid (Suc n) cs)))))"
  by pat_completeness auto
termination
  by (relation "measure (\<lambda>(n, p). LEID_BUF - n)") auto

declare read_leid.simps [simp del]

definition sdsToLeid :: "sds \<Rightarrow> leid option" where
  "sdsToLeid s = read_leid 0 s"

fun leid_cmp :: "leid \<Rightarrow> leid \<Rightarrow> int" where
  "leid_cmp (p # ps) (q # qs) = (if pos_cmp p q \<noteq> 0 then pos_cmp p q else leid_cmp ps qs)"
| "leid_cmp ps qs = int (length ps) - int (length qs)"

definition lprefix :: "leid option \<Rightarrow> nat \<Rightarrow> int" where
  "lprefix p i = (case p of None \<Rightarrow> 0 | Some ps \<Rightarrow> if i \<ge> length ps then 0 else p_pos (ps ! i))"

definition rprefix :: "leid option \<Rightarrow> nat \<Rightarrow> int" where
  "rprefix p i = (case p of None \<Rightarrow> BASE | Some ps \<Rightarrow> if i \<ge> length ps then BASE else p_pos (ps ! i))"

definition leid_len :: "leid option \<Rightarrow> nat" where
  "leid_len p = (case p of None \<Rightarrow> 0 | Some ps \<Rightarrow> length ps)"

lemma prefix_past_end: "leid_len p \<le> i \<Longrightarrow> lprefix p i = 0" "leid_len q \<le> i \<Longrightarrow> rprefix q i = BASE"
  by (auto simp: lprefix_def rprefix_def leid_len_def split: option.splits)

text \<open>The search for the first index with room: it ends because past both identifiers there are
  \<open>BASE\<close> values to choose from.\<close>

function room_index :: "leid option \<Rightarrow> leid option \<Rightarrow> nat \<Rightarrow> nat" where
  "room_index p q i = (if rprefix q i - lprefix p i < 2 then room_index p q (Suc i) else i)"
  by pat_completeness auto
termination
proof (relation "measure (\<lambda>(p, q, i). max (leid_len p) (leid_len q) - i)")
  fix p q i
  assume "rprefix q i - lprefix p i < 2"
  then have "i < max (leid_len p) (leid_len q)"
    using prefix_past_end[of p i] prefix_past_end[of q i] by (cases "i < max (leid_len p) (leid_len q)") auto
  then show "((p, q, Suc i), p, q, i) \<in> measure (\<lambda>(p, q, i). max (leid_len p) (leid_len q) - i)" by auto
qed simp

declare room_index.simps [simp del]

definition zero_pos :: position where
  "zero_pos = \<lparr>p_pos = 0, p_pid = 0, p_count = 0\<rparr>"

definition copy_prefix :: "leid option \<Rightarrow> nat \<Rightarrow> leid" where
  "copy_prefix p n = (case p of
       None \<Rightarrow> replicate n zero_pos
     | Some ps \<Rightarrow> take n ps @ replicate (n - length ps) zero_pos)"

text \<open>The parameter \<open>r\<close> is the value of \<open>rand()\<close>.\<close>

definition constructLeid :: "nat \<Rightarrow> leid option \<Rightarrow> leid option \<Rightarrow> vc \<Rightarrow> leid" where
  "constructLeid r p q t =
     (let count = sum_list (vc_vector t);
          index = room_index p q 0;
          left = lprefix p index;
          right = rprefix q index;
          step = right - left - 2;
          step = (if step \<noteq> 0 then (if step < RDM_STEP then int r mod step else int r mod RDM_STEP) else step)
      in copy_prefix p index @ [\<lparr>p_pos = left + step + 1, p_pid = vc_id t, p_count = count\<rparr>])"

section \<open>The order\<close>

lemma pos_cmp_0 [simp]: "pos_cmp p q = 0 \<longleftrightarrow> p = q"
  by (auto simp: pos_cmp_def)

lemma pos_cmp_self [simp]: "pos_cmp p p = 0"
  by simp

lemma pos_cmp_neg: "pos_cmp q p = - pos_cmp p q"
  by (auto simp: pos_cmp_def)

lemma pos_cmp_trans: "pos_cmp p q < 0 \<Longrightarrow> pos_cmp q r < 0 \<Longrightarrow> pos_cmp p r < 0"
  by (auto simp: pos_cmp_def split: if_splits)

lemma leid_cmp_0 [simp]: "leid_cmp ps qs = 0 \<longleftrightarrow> ps = qs"
  by (induction ps qs rule: leid_cmp.induct) auto

lemma leid_cmp_self [simp]: "leid_cmp p p = 0"
  by (rule iffD2[OF leid_cmp_0 refl])

lemma leid_cmp_neg: "leid_cmp qs ps = - leid_cmp ps qs"
proof (induction ps qs rule: leid_cmp.induct)
  case (1 p ps q qs)
  then show ?case using pos_cmp_neg[of p q] by (cases "p = q") auto
qed auto

lemma leid_cmp_trans: "leid_cmp ps qs < 0 \<Longrightarrow> leid_cmp qs rs < 0 \<Longrightarrow> leid_cmp ps rs < 0"
proof (induction ps arbitrary: qs rs)
  case Nil
  then show ?case by (cases qs; cases rs) (auto split: if_splits)
next
  case (Cons p ps)
  then obtain q qs' where qs: "qs = q # qs'" by (cases qs) auto
  then obtain r rs' where rs: "rs = r # rs'" using Cons.prems by (cases rs) auto
  show ?case
    using Cons.prems Cons.IH[of qs' rs'] pos_cmp_trans[of p q r] unfolding qs rs by (auto split: if_splits)
qed

definition leid_lt :: "leid \<Rightarrow> leid \<Rightarrow> bool" where
  "leid_lt p q \<longleftrightarrow> leid_cmp p q < 0"

lemma leid_lt_total: "leid_lt p q \<or> p = q \<or> leid_lt q p"
  using leid_cmp_neg[of q p] leid_cmp_0[of p q] by (auto simp: leid_lt_def)

lemma leid_lt_trans: "leid_lt p q \<Longrightarrow> leid_lt q r \<Longrightarrow> leid_lt p r"
  by (simp add: leid_lt_def leid_cmp_trans)

lemma leid_lt_irrefl [simp]: "\<not> leid_lt p p"
  by (simp add: leid_lt_def)

section \<open>New identifiers\<close>

text \<open>Identifiers that occur in a run: components within the base, the last one positive.\<close>

text \<open>The comparisons with the subtractions of the type \<open>int\<close>, which are undefined when they
  overflow.\<close>

definition int_sub :: "int \<Rightarrow> int \<Rightarrow> int option" where
  "int_sub x y = (if - (2 ^ 31) \<le> x - y \<and> x - y < 2 ^ 31 then Some (x - y) else None)"

definition pos_cmp_int :: "position \<Rightarrow> position \<Rightarrow> int option" where
  "pos_cmp_int p1 p2 =
     (if p_pos p1 \<noteq> p_pos p2 then int_sub (p_pos p1) (p_pos p2)
      else if p_pid p1 \<noteq> p_pid p2 then int_sub (p_pid p1) (p_pid p2)
      else int_sub (p_count p1) (p_count p2))"

fun leid_cmp_int :: "leid \<Rightarrow> leid \<Rightarrow> int option" where
  "leid_cmp_int (p # ps) (q # qs) =
     (case pos_cmp_int p q of None \<Rightarrow> None | Some d \<Rightarrow> if d \<noteq> 0 then Some d else leid_cmp_int ps qs)"
| "leid_cmp_int ps qs = int_sub (int (length ps)) (int (length qs))"

definition fits :: "int \<Rightarrow> bool" where
  "fits x \<longleftrightarrow> 0 \<le> x \<and> x < 2 ^ 31"

definition leid_fits :: "leid \<Rightarrow> bool" where
  "leid_fits ps \<longleftrightarrow> fits (int (length ps)) \<and> list_all (\<lambda>x. fits (p_pos x) \<and> fits (p_pid x) \<and> fits (p_count x)) ps"

lemma int_sub_fits: "fits x \<Longrightarrow> fits y \<Longrightarrow> int_sub x y = Some (x - y)"
  by (simp add: int_sub_def fits_def)

lemma leid_cmp_int_eq: "leid_fits ps \<Longrightarrow> leid_fits qs \<Longrightarrow> leid_cmp_int ps qs = Some (leid_cmp ps qs)"
proof (induction ps qs rule: leid_cmp_int.induct)
  case (1 p ps q qs)
  have "pos_cmp_int p q = Some (pos_cmp p q)"
    using 1(2,3) by (auto simp: leid_fits_def pos_cmp_int_def pos_cmp_def int_sub_fits)
  moreover have "leid_fits ps" "leid_fits qs" using 1(2,3) by (auto simp: leid_fits_def fits_def)
  ultimately show ?case using 1(1) by simp
qed (simp_all add: leid_fits_def int_sub_fits)

definition leid_ok :: "leid \<Rightarrow> bool" where
  "leid_ok ps \<longleftrightarrow> ps \<noteq> [] \<and> 1 \<le> p_pos (last ps) \<and>
     list_all (\<lambda>x. 0 \<le> p_pos x \<and> p_pos x < BASE \<and> 0 \<le> p_pid x \<and> 0 \<le> p_count x) ps"

lemma leid_ok_Cons:
  "leid_ok (q # qs) \<Longrightarrow> qs \<noteq> [] \<Longrightarrow> leid_ok qs"
  by (simp add: leid_ok_def)

lemma zero_pos_least: "0 \<le> p_pos q \<Longrightarrow> 0 \<le> p_pid q \<Longrightarrow> 0 \<le> p_count q \<Longrightarrow> q = zero_pos \<or> pos_cmp zero_pos q < 0"
  by (cases q) (auto simp: pos_cmp_def zero_pos_def)

lemma room_index_room: "2 \<le> rprefix q (room_index p q i) - lprefix p (room_index p q i)"
  by (induction p q i rule: room_index.induct) (subst (1 2) room_index.simps, auto)

lemma step_bounds:
  fixes step :: int and r :: nat
  assumes "0 \<le> step"
  defines "s \<equiv> (if step \<noteq> 0 then (if step < RDM_STEP then int r mod step else int r mod RDM_STEP) else step)"
  shows "0 \<le> s" and "s \<le> step"
proof -
  have "step \<noteq> 0 \<Longrightarrow> 0 \<le> int r mod step \<and> int r mod step < step"
    using assms(1) by (simp add: pos_mod_bound)
  moreover have "0 \<le> int r mod RDM_STEP" "int r mod RDM_STEP < RDM_STEP" by simp_all
  ultimately show "0 \<le> s" "s \<le> step" unfolding s_def by auto
qed

text \<open>A new identifier is a copied prefix and one position with room on both sides.\<close>

lemma constructLeid_shape:
  obtains x where "constructLeid r p q t = copy_prefix p (room_index p q 0) @ [x]"
    and "lprefix p (room_index p q 0) < p_pos x" and "p_pos x < rprefix q (room_index p q 0)"
    and "p_pid x = vc_id t" and "p_count x = sum_list (vc_vector t)"
proof -
  let ?l = "lprefix p (room_index p q 0)" and ?r = "rprefix q (room_index p q 0)"
  let ?s = "?r - ?l - 2"
  let ?st = "if ?s \<noteq> 0 then (if ?s < RDM_STEP then int r mod ?s else int r mod RDM_STEP) else ?s"
  have "0 \<le> ?s" using room_index_room[of q p 0] by simp
  from step_bounds[OF this, of r] have "0 \<le> ?st" "?st \<le> ?s" .
  then show thesis
    by (intro that[of "\<lparr>p_pos = ?l + ?st + 1, p_pid = vc_id t, p_count = sum_list (vc_vector t)\<rparr>"])
      (simp_all add: constructLeid_def Let_def)
qed

lemma pos_cmp_by_pos: "p_pos x < p_pos q \<Longrightarrow> pos_cmp x q < 0"
  by (simp add: pos_cmp_def)

lemma zeros_before:
  assumes "leid_ok qs" and "n < length qs \<longrightarrow> p_pos x < p_pos (qs ! n)"
  shows "leid_lt (replicate n zero_pos @ [x]) qs"
  using assms
proof (induction n arbitrary: qs)
  case 0
  then obtain q rest where "qs = q # rest" by (cases qs) (auto simp: leid_ok_def)
  then show ?case using 0 pos_cmp_by_pos[of x q] by (auto simp: leid_lt_def)
next
  case (Suc n)
  then obtain q rest where qs: "qs = q # rest" by (cases qs) (auto simp: leid_ok_def)
  have q: "q = zero_pos \<or> pos_cmp zero_pos q < 0"
    using Suc.prems(1) qs zero_pos_least[of q] by (simp add: leid_ok_def)
  show ?case
  proof (cases "q = zero_pos")
    case True
    then have "rest \<noteq> []" using Suc.prems(1) qs by (auto simp: leid_ok_def zero_pos_def)
    then have "leid_ok rest" using Suc.prems(1) qs leid_ok_Cons by blast
    then show ?thesis using Suc qs True by (simp add: leid_lt_def)
  next
    case False
    then show ?thesis using q qs by (auto simp: leid_lt_def)
  qed
qed

lemma prefix_before:
  assumes "leid_lt ps qs" and "leid_ok qs" and "n < length qs \<longrightarrow> p_pos x < p_pos (qs ! n)"
  shows "leid_lt (take n ps @ replicate (n - length ps) zero_pos @ [x]) qs"
  using assms
proof (induction ps arbitrary: qs n)
  case Nil
  then show ?case using zeros_before by simp
next
  case (Cons p ps)
  obtain q rest where qs: "qs = q # rest" using Cons.prems(2) by (cases qs) (auto simp: leid_ok_def)
  show ?case
  proof (cases n)
    case 0
    then show ?thesis using Cons.prems(3) qs pos_cmp_by_pos[of x q] by (auto simp: leid_lt_def)
  next
    case (Suc m)
    show ?thesis
    proof (cases "p = q")
      case True
      then have lt: "leid_lt ps rest" using Cons.prems(1) qs by (simp add: leid_lt_def)
      then have "rest \<noteq> []" by (auto simp: leid_lt_def)
      then have "leid_ok rest" using Cons.prems(2) qs leid_ok_Cons by blast
      then show ?thesis using Cons.IH[OF lt, of m] Cons.prems(3) qs Suc True by (simp add: leid_lt_def)
    next
      case False
      then show ?thesis using Cons.prems(1) qs Suc by (simp add: leid_lt_def)
    qed
  qed
qed

lemma prefix_after:
  assumes "n < length ps \<longrightarrow> p_pos (ps ! n) < p_pos x"
  shows "leid_lt ps (take n ps @ replicate (n - length ps) zero_pos @ [x])"
  using assms
proof (induction ps arbitrary: n)
  case Nil
  then show ?case by (cases n) (auto simp: leid_lt_def)
next
  case (Cons p ps)
  show ?case
  proof (cases n)
    case 0
    then show ?thesis using Cons.prems pos_cmp_by_pos[of p x] by (auto simp: leid_lt_def)
  next
    case (Suc m)
    then show ?thesis using Cons.IH[of m] Cons.prems by (simp add: leid_lt_def)
  qed
qed

lemma constructLeid_after: "leid_lt ps (constructLeid r (Some ps) q t)"
proof (rule constructLeid_shape[of r "Some ps" q t])
  fix x
  assume "constructLeid r (Some ps) q t = copy_prefix (Some ps) (room_index (Some ps) q 0) @ [x]"
    "lprefix (Some ps) (room_index (Some ps) q 0) < p_pos x"
  then show ?thesis using prefix_after[of "room_index (Some ps) q 0" ps x]
    by (auto simp: copy_prefix_def lprefix_def not_le split: if_splits)
qed

lemma constructLeid_before:
  assumes "leid_ok qs" and "p = None \<or> (\<exists>ps. p = Some ps \<and> leid_lt ps qs)"
  shows "leid_lt (constructLeid r p (Some qs) t) qs"
proof (rule constructLeid_shape[of r p "Some qs" t])
  fix x
  let ?n = "room_index p (Some qs) 0"
  assume x: "constructLeid r p (Some qs) t = copy_prefix p ?n @ [x]" "p_pos x < rprefix (Some qs) ?n"
  then have room: "?n < length qs \<longrightarrow> p_pos x < p_pos (qs ! ?n)"
    by (auto simp: rprefix_def not_le split: if_splits)
  show ?thesis
  proof (cases p)
    case None
    then show ?thesis using x(1) zeros_before[OF assms(1) room] by (simp add: copy_prefix_def)
  next
    case (Some ps)
    then show ?thesis using x(1) prefix_before[OF _ assms(1) room, of ps] assms(2) by (simp add: copy_prefix_def)
  qed
qed

lemma list_all_copy_prefix:
  assumes "P zero_pos" and "\<And>ps. p = Some ps \<Longrightarrow> list_all P ps"
  shows "list_all P (copy_prefix p n)"
  using assms by (auto simp: copy_prefix_def list_all_iff dest: in_set_takeD split: option.splits)

lemma constructLeid_ok:
  assumes "p = None \<or> (\<exists>ps. p = Some ps \<and> leid_ok ps)" and "q = None \<or> (\<exists>qs. q = Some qs \<and> leid_ok qs)"
    and "0 \<le> vc_id t" and "list_all (\<lambda>x. 0 \<le> x) (vc_vector t)"
  shows "leid_ok (constructLeid r p q t)"
proof (rule constructLeid_shape[of r p q t])
  fix x
  let ?n = "room_index p q 0"
  assume x: "constructLeid r p q t = copy_prefix p ?n @ [x]" "lprefix p ?n < p_pos x" "p_pos x < rprefix q ?n"
    "p_pid x = vc_id t" "p_count x = sum_list (vc_vector t)"
  let ?P = "\<lambda>x. 0 \<le> p_pos x \<and> p_pos x < BASE \<and> 0 \<le> p_pid x \<and> 0 \<le> p_count x"
  have "0 \<le> lprefix p ?n" using assms(1) by (auto simp: lprefix_def leid_ok_def list_all_iff)
  moreover have "rprefix q ?n \<le> BASE" using assms(2)
    by (auto simp: rprefix_def leid_ok_def list_all_length less_imp_le)
  moreover have "0 \<le> sum_list (vc_vector t)" using assms(4) by (intro sum_list_nonneg) (simp add: list_all_iff)
  moreover have "list_all ?P (copy_prefix p ?n)"
    using assms(1) by (intro list_all_copy_prefix) (auto simp: zero_pos_def leid_ok_def)
  ultimately show ?thesis using x assms(3) by (simp add: leid_ok_def)
qed

text \<open>Two identifiers made by different replicas, or by one replica with different counts, differ.\<close>

lemma constructLeid_last:
  "p_pid (last (constructLeid r p q t)) = vc_id t" "p_count (last (constructLeid r p q t)) = sum_list (vc_vector t)"
  by (rule constructLeid_shape[of r p q t], simp)+

section \<open>The wire format\<close>

lemma dropWhile_first:
  "\<forall>c \<in> set xs. P c \<Longrightarrow> \<not> P y \<Longrightarrow> dropWhile P (xs @ y # ys) = y # ys"
  by (induction xs) auto

lemma after_comma_show_int: "after_comma (show_int x @ CHR '','' # s) = Some s"
proof -
  have "dropWhile (\<lambda>c. c \<noteq> CHR '','') (show_int x @ CHR '','' # s) = CHR '','' # s"
    using show_int_no_sep[of x] by (intro dropWhile_first) auto
  then show ?thesis by (simp add: after_comma_def)
qed

lemma show_int_no_nul: "CHR 0x00 \<notin> set (show_int x)"
  using show_int_chars[of "CHR 0x00" x] by (auto simp: is_digit_def chr_code_def)

lemma read_leid_show:
  assumes "leidToSds ps = Some s" and "n + length ps \<le> LEID_BUF"
  shows "read_leid n s = Some ps"
  using assms
proof (induction ps arbitrary: n s rule: leidToSds.induct)
  case (2 p)
  then have s: "s = show_position p" by simp
  have "dropWhile (\<lambda>c. c \<noteq> CHR ''|'' \<and> c \<noteq> CHR 0x00) (show_int (p_count p)) = []"
    using show_int_no_sep[of "p_count p"] show_int_no_nul[of "p_count p"]
    unfolding dropWhile_eq_Nil_conv by metis
  moreover have "atoi (show_int (p_count p)) = p_count p" using atoi_show_int[of "[]"] by simp
  ultimately show ?case using 2 unfolding s
    by (subst read_leid.simps)
      (simp add: show_position_def after_comma_show_int atoi_show_int del: dropWhile_eq_Nil_conv)
next
  case (3 p q ps)
  then obtain u where u: "leidToSds (q # ps) = Some u" "s = show_position p @ CHR ''|'' # u" by auto
  have IH: "read_leid (Suc n) u = Some (q # ps)" using 3 u by simp
  have "dropWhile (\<lambda>c. c \<noteq> CHR ''|'' \<and> c \<noteq> CHR 0x00) (show_int (p_count p) @ CHR ''|'' # u) = CHR ''|'' # u"
    using show_int_no_sep[of "p_count p"] show_int_no_nul[of "p_count p"] by (intro dropWhile_first) auto
  with IH u 3(3) show ?case
    by (subst read_leid.simps) (simp add: show_position_def after_comma_show_int atoi_show_int)
qed simp

lemma leidToSds_Some: "ps \<noteq> [] \<Longrightarrow> \<exists>s. leidToSds ps = Some s"
  by (induction ps rule: leidToSds.induct) auto

lemma sdsToLeid_leidToSds:
  "leidToSds ps = Some s \<Longrightarrow> length ps \<le> LEID_BUF \<Longrightarrow> sdsToLeid s = Some ps"
  by (simp add: sdsToLeid_def read_leid_show)

section \<open>Properties\<close>

text \<open>C9: a new position fits. \<open>constructLeid\<close> terminates and, whatever \<open>rand\<close> returns, its
  result lies strictly after the left neighbour and strictly before the right one, is again a
  well-formed identifier, and ends with the identifier and the sum of the clock of the
  inserting replica.\<close>

theorem constructLeid_between:
  assumes p: "p = None \<or> (\<exists>ps. p = Some ps \<and> leid_ok ps)" and q: "q = None \<or> (\<exists>qs. q = Some qs \<and> leid_ok qs)"
    and pq: "case (p, q) of (Some ps, Some qs) \<Rightarrow> leid_cmp ps qs < 0 | _ \<Rightarrow> True"
    and t: "0 \<le> vc_id t" "list_all (\<lambda>x. 0 \<le> x) (vc_vector t)"
  shows "leid_ok (constructLeid r p q t) \<and>
    (\<forall>ps. p = Some ps \<longrightarrow> leid_cmp ps (constructLeid r p q t) < 0) \<and>
    (\<forall>qs. q = Some qs \<longrightarrow> leid_cmp (constructLeid r p q t) qs < 0) \<and>
    p_pid (last (constructLeid r p q t)) = vc_id t \<and>
    p_count (last (constructLeid r p q t)) = sum_list (vc_vector t)"
proof (intro conjI allI impI)
  show "leid_ok (constructLeid r p q t)" by (rule constructLeid_ok[OF p q t])
  show "leid_cmp ps (constructLeid r p q t) < 0" if "p = Some ps" for ps
    using constructLeid_after[of ps r q t] that by (simp add: leid_lt_def)
  show "leid_cmp (constructLeid r p q t) qs < 0" if "q = Some qs" for qs
    using constructLeid_before[of qs p r t] that q pq by (cases p) (auto simp: leid_lt_def)
qed (rule constructLeid_last)+

theorem constructLeid_between_witness:
  "leid_cmp [\<lparr>p_pos = 5, p_pid = 1, p_count = 2\<rparr>]
     (constructLeid 77 (Some [\<lparr>p_pos = 5, p_pid = 1, p_count = 2\<rparr>]) (Some [\<lparr>p_pos = 6, p_pid = 0, p_count = 1\<rparr>])
        \<lparr>vc_vector = [3, 4], vc_id = 1\<rparr>) < 0"
  using constructLeid_between[of "Some [\<lparr>p_pos = 5, p_pid = 1, p_count = 2\<rparr>]" "Some [\<lparr>p_pos = 6, p_pid = 0, p_count = 1\<rparr>]"
      "\<lparr>vc_vector = [3, 4], vc_id = 1\<rparr>" 77]
  by (simp add: leid_ok_def leid_cmp.simps pos_cmp_def)

text \<open>C17: on identifiers whose fields and length are not negative and fit an \<open>int\<close>, the subtractions
  of \<open>leid_cmp\<close> never overflow, and the comparison is a total order: it is zero only for equal
  identifiers, changes sign when its arguments are swapped, and is transitive.\<close>

theorem leid_cmp_total_order:
  assumes "leid_fits a" "leid_fits b" "leid_fits c"
  shows "\<exists>ab ba bc ac. leid_cmp_int a b = Some ab \<and> leid_cmp_int b a = Some ba \<and> leid_cmp_int b c = Some bc \<and>
    leid_cmp_int a c = Some ac \<and> ab = leid_cmp a b \<and>
    (ab = 0 \<longleftrightarrow> a = b) \<and> (ab < 0 \<longleftrightarrow> 0 < ba) \<and> \<not> (ab < 0 \<and> bc < 0 \<and> 0 \<le> ac)"
  using leid_cmp_0[of a b] leid_cmp_neg[of b a] leid_cmp_trans[of a b c] assms
  by (auto simp: leid_cmp_int_eq)

theorem leid_cmp_total_order_witness:
  "leid_cmp_int [\<lparr>p_pos = 5, p_pid = 1, p_count = 2\<rparr>] [\<lparr>p_pos = 2147483647, p_pid = 0, p_count = 7\<rparr>] = Some (- 2147483642) \<and>
   \<not> leid_cmp [\<lparr>p_pos = 5, p_pid = 1, p_count = 2\<rparr>] [\<lparr>p_pos = 5, p_pid = 1, p_count = 2\<rparr>] < 0"
  using leid_cmp_total_order[of "[\<lparr>p_pos = 5, p_pid = 1, p_count = 2\<rparr>]" "[\<lparr>p_pos = 2147483647, p_pid = 0, p_count = 7\<rparr>]"
      "[\<lparr>p_pos = 5, p_pid = 1, p_count = 2\<rparr>]"]
  by (auto simp: leid_fits_def fits_def leid_cmp.simps pos_cmp_def)

text \<open>C16: the text an identifier is sent as reads back as the identifier, for the up to 1024
  positions the buffer of \<open>sdsToLeid\<close> has room for.\<close>

theorem leid_wire_roundtrip:
  assumes "ps \<noteq> []" and "length ps \<le> LEID_BUF"
  shows "\<exists>s. leidToSds ps = Some s \<and> sdsToLeid s = Some ps"
proof -
  have "ps \<noteq> [] \<Longrightarrow> \<exists>s. leidToSds ps = Some s" for ps
    by (induction ps rule: leidToSds.induct) auto
  then show ?thesis using assms sdsToLeid_leidToSds by blast
qed

theorem leid_wire_roundtrip_witness:
  "\<exists>s. leidToSds [\<lparr>p_pos = 0, p_pid = 0, p_count = 0\<rparr>, \<lparr>p_pos = 9, p_pid = 2, p_count = 14\<rparr>] = Some s \<and>
     sdsToLeid s = Some [\<lparr>p_pos = 0, p_pid = 0, p_count = 0\<rparr>, \<lparr>p_pos = 9, p_pid = 2, p_count = 14\<rparr>]"
  using leid_wire_roundtrip[of "[\<lparr>p_pos = 0, p_pid = 0, p_count = 0\<rparr>, \<lparr>p_pos = 9, p_pid = 2, p_count = 14\<rparr>]"] by simp

end
