(* ===== verification/ListElems.thy ===== *)
theory ListElems
  imports ListBasics RwfCore AddSets
begin

text \<open>
  The elements of the two replicated lists: \<open>rwfle\<close> of \<open>t_rwflist.c\<close>, with the remove-win header
  and a last-writer-wins register per property, and \<open>rle\<close> of \<open>t_rlist.c\<close>, with add and remove
  sets. The macros \<open>FORALL_NORMAL\<close> and \<open>FORALL_BITMAP\<close> become functions over the property names.
\<close>

unbundle bit_operations_syntax

section \<open>Properties\<close>

datatype nprop = font | fsize | color

datatype bprop = bold | italic | underline

datatype lprop = NP nprop | BP bprop

definition prop_of_name :: "string \<Rightarrow> lprop option" where
  "prop_of_name s =
     (if s = ''font'' then Some (NP font)
      else if s = ''size'' then Some (NP fsize)
      else if s = ''color'' then Some (NP color)
      else if s = ''bold'' then Some (BP bold)
      else if s = ''italic'' then Some (BP italic)
      else if s = ''underline'' then Some (BP underline)
      else None)"

fun prop_mask :: "bprop \<Rightarrow> int" where
  "prop_mask bold = 1"
| "prop_mask italic = 2"
| "prop_mask underline = 4"

definition set_bit_prop :: "bprop \<Rightarrow> bool \<Rightarrow> int \<Rightarrow> int" where
  "set_bit_prop b on property = (if on then property OR prop_mask b else property AND NOT (prop_mask b))"

text \<open>Storing a \<open>long long\<close> into an \<open>int\<close>.\<close>

definition to_int :: "int \<Rightarrow> int" where
  "to_int v = signed_take_bit 31 v"

section \<open>Elements of the remove-win framework list\<close>

record rwfle =
  rwfle_header :: reh
  rwfle_oid :: "sds option"
  rwfle_pos_id :: "leid option"
  rwfle_current :: lc
  rwfle_content :: "sds option"
  rwfle_ts :: "lprop \<Rightarrow> lc option"
  rwfle_normal :: "nprop \<Rightarrow> int"
  rwfle_property :: int
  rwfle_next :: "addr option"

text \<open>\<open>font\<close>, \<open>size\<close> and \<open>color\<close> stay uninitialised: \<open>junk\<close> is what the memory holds.\<close>

definition rwfleNew :: "(nprop \<Rightarrow> int) \<Rightarrow> int \<Rightarrow> int \<Rightarrow> rwfle" where
  "rwfleNew junk n me =
     \<lparr>rwfle_header = REH_INIT n me, rwfle_oid = None, rwfle_pos_id = None, rwfle_current = lc_new 0 me,
      rwfle_content = None, rwfle_ts = (\<lambda>_. None), rwfle_normal = junk, rwfle_property = 0, rwfle_next = None\<rparr>"

text \<open>The test of the two macros, and the body they share.\<close>

definition ts_allows :: "rwfle \<Rightarrow> lprop \<Rightarrow> lc \<Rightarrow> bool" where
  "ts_allows e p t = (case rwfle_ts e p of None \<Rightarrow> True | Some u \<Rightarrow> lc_cmp u t \<le> 0)"

definition acquired_update :: "rwfle \<Rightarrow> sds \<Rightarrow> lc \<Rightarrow> int \<Rightarrow> rwfle" where
  "acquired_update e ty t v = (case prop_of_name (cstr (sdstolower ty)) of
       None \<Rightarrow> e
     | Some p \<Rightarrow>
         if ts_allows e p t then
           let e = e\<lparr>rwfle_ts := (rwfle_ts e)(p := lc_copy (rwfle_ts e p) t)\<rparr>;
               e = (case p of
                      NP n \<Rightarrow> e\<lparr>rwfle_normal := (rwfle_normal e)(n := v)\<rparr>
                    | BP b \<Rightarrow> e\<lparr>rwfle_property := set_bit_prop b (v \<noteq> 0) (rwfle_property e)\<rparr>)
           in e\<lparr>rwfle_current := lc_update (rwfle_current e) t\<rparr>
         else e)"

text \<open>The properties an insertion sets: those no update has touched.\<close>

definition innate_normal :: "(nprop \<Rightarrow> int) \<Rightarrow> rwfle \<Rightarrow> rwfle" where
  "innate_normal vals e =
     e\<lparr>rwfle_normal := (\<lambda>n. if rwfle_ts e (NP n) = None then to_int (vals n) else rwfle_normal e n)\<rparr>"

definition innate_bit :: "int \<Rightarrow> bprop \<Rightarrow> rwfle \<Rightarrow> rwfle" where
  "innate_bit property b e =
     (if rwfle_ts e (BP b) = None
      then e\<lparr>rwfle_property := set_bit_prop b ((property AND prop_mask b) \<noteq> 0) (rwfle_property e)\<rparr>
      else e)"

definition innate_update :: "(nprop \<Rightarrow> int) \<Rightarrow> int \<Rightarrow> rwfle \<Rightarrow> rwfle" where
  "innate_update vals property e =
     innate_bit property underline (innate_bit property italic (innate_bit property bold (innate_normal vals e)))"

text \<open>What \<open>removeFunc\<close> resets when its check passes.\<close>

definition rwfle_reset :: "rwfle \<Rightarrow> rwfle" where
  "rwfle_reset e =
     e\<lparr>rwfle_ts := (\<lambda>_. None), rwfle_current := (rwfle_current e)\<lparr>lc_x := 0\<rparr>\<rparr>"

section \<open>Elements of the causal list\<close>

record rl_ase =
  rla_t :: vc
  rla_ts :: "lprop \<Rightarrow> vc"
  rla_normal :: "nprop \<Rightarrow> int"
  rla_property :: int

datatype rl_cmd_type = RLADD | RLUPDATE | RLREM

record rl_cmd =
  rlc_type :: rl_cmd_type
  rlc_argv :: "sds list"
  rlc_t :: vc

record rle =
  rle_oid :: "sds option"
  rle_pos_id :: "leid option"
  rle_content :: "sds option"
  rle_sets :: "rl_ase addsets"
  rle_next :: "addr option"

definition rleNew :: rle where
  "rleNew = \<lparr>rle_oid = None, rle_pos_id = None, rle_content = None, rle_sets = as_empty, rle_next = None\<rparr>"

definition rl_LOOKUP :: "rle \<Rightarrow> bool" where
  "rl_LOOKUP e = as_LOOKUP (rle_sets e)"

text \<open>\<open>rl_aseNew\<close> with the assignments that follow it.\<close>

definition rl_aseNew :: "vc \<Rightarrow> (nprop \<Rightarrow> int) \<Rightarrow> int \<Rightarrow> rl_ase" where
  "rl_aseNew t vals property =
     \<lparr>rla_t = vc_dup t, rla_ts = (\<lambda>_. vc_dup t), rla_normal = (\<lambda>n. to_int (vals n)),
      rla_property = to_int property\<rparr>"

text \<open>\<open>rl_cmdNew\<close> keeps the arguments of the client but for the command name and the clock.\<close>

definition rl_cmdNew :: "rl_cmd_type \<Rightarrow> sds list \<Rightarrow> vc \<Rightarrow> rl_cmd" where
  "rl_cmdNew ty rargv t = \<lparr>rlc_type = ty, rlc_argv = take (length rargv - 2) (tl rargv), rlc_t = t\<rparr>"

definition rl_ase_update :: "lprop \<Rightarrow> int \<Rightarrow> vc \<Rightarrow> rl_ase \<Rightarrow> rl_ase" where
  "rl_ase_update p v t a =
     (if vc_cmp (rla_ts a p) t < 0 then
        let a = a\<lparr>rla_ts := (rla_ts a)(p := (vc_update (rla_ts a p) t)\<lparr>vc_id := vc_id t\<rparr>)\<rparr> in
        (case p of
           NP n \<Rightarrow> a\<lparr>rla_normal := (rla_normal a)(n := to_int v)\<rparr>
         | BP b \<Rightarrow> a\<lparr>rla_property := set_bit_prop b (v \<noteq> 0) (rla_property a)\<rparr>)
      else a)"

definition rl_update_sets :: "string \<Rightarrow> int \<Rightarrow> vc \<Rightarrow> rle \<Rightarrow> rle" where
  "rl_update_sets ty v t e = (case prop_of_name ty of
       None \<Rightarrow> e
     | Some p \<Rightarrow> e\<lparr>rle_sets := update_sets rla_t t (rl_ase_update p v t) (rle_sets e)\<rparr>)"

end
