(* ===== verification/Keyspace.thy ===== *)
theory Keyspace
  imports Zset RwfzElem OzElem RzElem ListElems
begin

text \<open>
  The state of a server that the replicated types use, and the layers between them and the key
  space: key lookup (\<open>db.c\<close>), hash objects (\<open>t_hash.c\<close>), the metadata tables of
  \<open>RWFramework.c\<close>, the table fields of \<open>list_basics.c\<close>, and \<open>getZsetOrCreate\<close>. The metadata of a
  queue element is owned by its table field and stored there; list elements are linked to each
  other and live on a heap. A field that holds something of another type than the reader casts
  it to, a failed assertion and a panic are \<open>None\<close>. Keys have no time to live.
\<close>

section \<open>The server\<close>

datatype hval =
    HRwfze rwfze
  | HOze oze
  | HRze rze
  | HPtr addr
  | HVc vc
  | HInt int
  | HOps "rl_cmd list"

datatype robj = OZset zobj | OHash "sds \<Rightarrow> hval option" | OOther

datatype lobj = LRwfle rwfle | LRle rle

text \<open>A connection to another replica: the commands queued for it.\<close>

record link =
  lk_peer :: nat
  lk_out :: "sds list list"

record server =
  db :: "sds \<Rightarrow> robj option"
  lheap :: "addr \<Rightarrow> lobj option"
  lfresh :: addr
  p2p_count :: int
  p2p_id :: int
  replicas :: "link list"
  dirty :: int
  zset_max_ziplist_entries :: int
  zset_max_ziplist_value :: int
  cluster_enabled :: bool
  exp_local :: int
  bindaddr :: "sds list"
  connecting :: "(sds \<times> int) list"
  random_draws :: "nat list"
  rand_draws :: "nat list"
  mem_dbl :: "addr \<Rightarrow> dbl"
  mem_int :: "addr \<Rightarrow> nprop \<Rightarrow> int"

text \<open>A server after \<open>initServer\<close> with the default configuration. The sequences of \<open>random\<close> and \<open>rand\<close> and
  the contents of fresh memory are the environment's.\<close>

definition initServer :: "nat list \<Rightarrow> nat list \<Rightarrow> (addr \<Rightarrow> dbl) \<Rightarrow> (addr \<Rightarrow> nprop \<Rightarrow> int) \<Rightarrow> server" where
  "initServer rnd rn md mi =
     \<lparr>db = Map.empty, lheap = Map.empty, lfresh = 0, p2p_count = 0, p2p_id = -1, replicas = [], dirty = 0,
      zset_max_ziplist_entries = 128, zset_max_ziplist_value = 64, cluster_enabled = False, exp_local = 0,
      bindaddr = [], connecting = [],
      random_draws = rnd, rand_draws = rn, mem_dbl = md, mem_int = mi\<rparr>"

section \<open>Keys\<close>

definition lookupKey :: "server \<Rightarrow> sds \<Rightarrow> robj option" where
  "lookupKey s key = db s key"

definition lookupKeyRead :: "server \<Rightarrow> sds \<Rightarrow> robj option" where
  "lookupKeyRead s key = lookupKey s key"

definition lookupKeyWrite :: "server \<Rightarrow> sds \<Rightarrow> robj option" where
  "lookupKeyWrite s key = lookupKey s key"

definition db_put :: "sds \<Rightarrow> robj \<Rightarrow> server \<Rightarrow> server" where
  "db_put key v s = s\<lparr>db := (db s)(key \<mapsto> v)\<rparr>"

definition dbAdd :: "sds \<Rightarrow> robj \<Rightarrow> server \<Rightarrow> server option" where
  "dbAdd key v s = (if db s key \<noteq> None then None else Some (db_put key v s))"

section \<open>Hash objects\<close>

definition hash_at :: "server \<Rightarrow> sds \<Rightarrow> (sds \<Rightarrow> hval option) option" where
  "hash_at s name = (case db s name of Some (OHash h) \<Rightarrow> Some h | _ \<Rightarrow> None)"

definition hashTypeGetValueObject :: "server \<Rightarrow> sds \<Rightarrow> sds \<Rightarrow> hval option option" where
  "hashTypeGetValueObject s name field = map_option (\<lambda>h. h field) (hash_at s name)"

definition hashTypeSet :: "sds \<Rightarrow> sds \<Rightarrow> hval \<Rightarrow> server \<Rightarrow> server option" where
  "hashTypeSet name field v s = map_option (\<lambda>h. db_put name (OHash (h(field \<mapsto> v))) s) (hash_at s name)"

section \<open>The metadata tables\<close>

text \<open>A table is denoted by its key. \<open>None\<close> inside is the null pointer.\<close>

definition getInnerHT :: "sds \<Rightarrow> sds \<Rightarrow> bool \<Rightarrow> server \<Rightarrow> (sds option \<times> server) option" where
  "getInnerHT tname suffix create s =
     (let htname = tname @ suffix in
      case lookupKeyRead s htname of
        Some _ \<Rightarrow> Some (Some htname, s)
      | None \<Rightarrow> if create then map_option (\<lambda>s. (Some htname, s)) (dbAdd htname (OHash Map.empty) s)
                else Some (None, s))"

definition rehHTGet ::
  "(server \<Rightarrow> hval \<times> server) \<Rightarrow> sds \<Rightarrow> sds \<Rightarrow> sds \<Rightarrow> bool \<Rightarrow> server \<Rightarrow> (hval option \<times> server) option" where
  "rehHTGet rehNew tname suffix key create s = do {
     (ht, s) \<leftarrow> getInnerHT tname suffix create s;
     (case ht of
        None \<Rightarrow> Some (None, s)
      | Some name \<Rightarrow> do {
          v \<leftarrow> hashTypeGetValueObject s name key;
          (case v of
             Some e \<Rightarrow> Some (Some e, s)
           | None \<Rightarrow>
               if \<not> create then Some (None, s)
               else
                 let (e, s) = rehNew s in
                 map_option (\<lambda>s. (Some e, s)) (hashTypeSet name key e s))
        })
   }"

abbreviation (input) RWF_RPQ_TABLE_SUFFIX :: string where "RWF_RPQ_TABLE_SUFFIX \<equiv> ''_rwfzets_''"
abbreviation (input) ORI_RPQ_TABLE_SUFFIX :: string where "ORI_RPQ_TABLE_SUFFIX \<equiv> ''_ozets_''"
abbreviation (input) RW_RPQ_TABLE_SUFFIX :: string where "RW_RPQ_TABLE_SUFFIX \<equiv> ''_rzets_''"

definition GET_RWFZE :: "sds \<Rightarrow> sds \<Rightarrow> bool \<Rightarrow> server \<Rightarrow> (rwfze option \<times> server) option" where
  "GET_RWFZE tname key create s = do {
     (v, s) \<leftarrow> rehHTGet (\<lambda>s. (HRwfze (rwfzeNew (p2p_count s) (p2p_id s)), s))
       tname RWF_RPQ_TABLE_SUFFIX key create s;
     (case v of
        None \<Rightarrow> Some (None, s)
      | Some (HRwfze e) \<Rightarrow> Some (Some e, s)
      | _ \<Rightarrow> None)
   }"

definition GET_OZE :: "sds \<Rightarrow> sds \<Rightarrow> bool \<Rightarrow> server \<Rightarrow> (oze option \<times> server) option" where
  "GET_OZE tname key create s = do {
     (v, s) \<leftarrow> rehHTGet (\<lambda>s. (HOze ozeNew, s)) tname ORI_RPQ_TABLE_SUFFIX key create s;
     (case v of
        None \<Rightarrow> Some (None, s)
      | Some (HOze e) \<Rightarrow> Some (Some e, s)
      | _ \<Rightarrow> None)
   }"

definition GET_RZE :: "sds \<Rightarrow> sds \<Rightarrow> bool \<Rightarrow> server \<Rightarrow> (rze option \<times> server) option" where
  "GET_RZE tname key create s = do {
     (v, s) \<leftarrow> rehHTGet (\<lambda>s. (HRze (rzeNew (p2p_count s) (p2p_id s)), s))
       tname RW_RPQ_TABLE_SUFFIX key create s;
     (case v of
        None \<Rightarrow> Some (None, s)
      | Some (HRze e) \<Rightarrow> Some (Some e, s)
      | _ \<Rightarrow> None)
   }"

text \<open>Writing through the pointer an element was read from.\<close>

definition put_rwfze :: "sds \<Rightarrow> sds \<Rightarrow> rwfze \<Rightarrow> server \<Rightarrow> server option" where
  "put_rwfze tname key e s = hashTypeSet (tname @ RWF_RPQ_TABLE_SUFFIX) key (HRwfze e) s"

definition put_oze :: "sds \<Rightarrow> sds \<Rightarrow> oze \<Rightarrow> server \<Rightarrow> server option" where
  "put_oze tname key e s = hashTypeSet (tname @ ORI_RPQ_TABLE_SUFFIX) key (HOze e) s"

definition put_rze :: "sds \<Rightarrow> sds \<Rightarrow> rze \<Rightarrow> server \<Rightarrow> server option" where
  "put_rze tname key e s = hashTypeSet (tname @ RW_RPQ_TABLE_SUFFIX) key (HRze e) s"

section \<open>Sorted sets in the key space\<close>

definition getZsetOrCreate :: "sds \<Rightarrow> sds \<Rightarrow> server \<Rightarrow> server option" where
  "getZsetOrCreate zset_name element_name s = (case lookupKeyWrite s zset_name of
       Some _ \<Rightarrow> Some s
     | None \<Rightarrow>
         dbAdd zset_name
           (OZset (if zset_max_ziplist_entries s = 0 \<or> zset_max_ziplist_value s < int (length element_name)
                   then createZsetObject else createZsetZiplistObject)) s)"

definition zset_at :: "server \<Rightarrow> sds \<Rightarrow> zobj option" where
  "zset_at s name = (case db s name of Some (OZset z) \<Rightarrow> Some z | _ \<Rightarrow> None)"

text \<open>\<open>getZsetOrCreate\<close> followed by \<open>zsetAdd\<close> without flags, and by \<open>zsetDel\<close>.\<close>

definition zset_set_score :: "sds \<Rightarrow> sds \<Rightarrow> dbl \<Rightarrow> server \<Rightarrow> server option" where
  "zset_set_score tname key score s = do {
     s \<leftarrow> getZsetOrCreate tname key s;
     z \<leftarrow> zset_at s tname;
     (r, rs) \<leftarrow> zsetAdd (zset_max_ziplist_entries s) (zset_max_ziplist_value s) (random_draws s) z score key ZADD_NONE;
     Some (db_put tname (OZset (za_obj r)) s\<lparr>random_draws := rs\<rparr>)
   }"

definition zset_del_key :: "sds \<Rightarrow> sds \<Rightarrow> server \<Rightarrow> server option" where
  "zset_del_key tname key s = do {
     s \<leftarrow> getZsetOrCreate tname key s;
     z \<leftarrow> zset_at s tname;
     (b, z) \<leftarrow> zsetDel z key;
     Some (db_put tname (OZset z) s)
   }"

definition incr_dirty :: "server \<Rightarrow> server" where
  "incr_dirty s = s\<lparr>dirty := dirty s + 1\<rparr>"

section \<open>List tables\<close>

text \<open>Lists keep their table under their own key: the suffix is null.\<close>

definition GET_LIST_HT :: "sds \<Rightarrow> bool \<Rightarrow> server \<Rightarrow> (sds option \<times> server) option" where
  "GET_LIST_HT tname create s = getInnerHT tname [] create s"

definition getHead :: "sds \<Rightarrow> server \<Rightarrow> addr option option" where
  "getHead ht s = do {
     v \<leftarrow> hashTypeGetValueObject s ht ''head'';
     (case v of
        None \<Rightarrow> Some None
      | Some (HPtr a) \<Rightarrow> Some (Some a)
      | _ \<Rightarrow> None)
   }"

definition setHead :: "sds \<Rightarrow> addr \<Rightarrow> server \<Rightarrow> server option" where
  "setHead ht e s = hashTypeSet ht ''head'' (HPtr e) s"

definition getCurrent :: "sds \<Rightarrow> server \<Rightarrow> (vc \<times> server) option" where
  "getCurrent ht s = do {
     v \<leftarrow> hashTypeGetValueObject s ht ''current'';
     (case v of
        None \<Rightarrow>
          let e = vc_new (p2p_count s) (p2p_id s) in
          map_option (\<lambda>s. (e, s)) (hashTypeSet ht ''current'' (HVc e) s)
      | Some (HVc e) \<Rightarrow> Some (e, s)
      | _ \<Rightarrow> None)
   }"

definition putCurrent :: "sds \<Rightarrow> vc \<Rightarrow> server \<Rightarrow> server option" where
  "putCurrent ht e s = hashTypeSet ht ''current'' (HVc e) s"

definition getLen :: "sds \<Rightarrow> server \<Rightarrow> int option" where
  "getLen ht s = do {
     v \<leftarrow> hashTypeGetValueObject s ht ''length'';
     (case v of
        None \<Rightarrow> Some 0
      | Some (HInt n) \<Rightarrow> Some n
      | _ \<Rightarrow> None)
   }"

definition incrLen :: "sds \<Rightarrow> int \<Rightarrow> server \<Rightarrow> server option" where
  "incrLen ht inc s =
     (if inc = 0 then Some s
      else do {
        len \<leftarrow> getLen ht s;
        hashTypeSet ht ''length'' (HInt (len + inc)) s
      })"

definition getOps :: "sds \<Rightarrow> server \<Rightarrow> (rl_cmd list \<times> server) option" where
  "getOps ht s = do {
     v \<leftarrow> hashTypeGetValueObject s ht ''ops'';
     (case v of
        None \<Rightarrow> map_option (\<lambda>s. ([], s)) (hashTypeSet ht ''ops'' (HOps []) s)
      | Some (HOps l) \<Rightarrow> Some (l, s)
      | _ \<Rightarrow> None)
   }"

definition putOps :: "sds \<Rightarrow> rl_cmd list \<Rightarrow> server \<Rightarrow> server option" where
  "putOps ht l s = hashTypeSet ht ''ops'' (HOps l) s"

text \<open>Elements on the heap, and the table entries that point to them.\<close>

definition rwfle_at :: "server \<Rightarrow> addr \<Rightarrow> rwfle option" where
  "rwfle_at s a = (case lheap s a of Some (LRwfle e) \<Rightarrow> Some e | _ \<Rightarrow> None)"

definition rle_at :: "server \<Rightarrow> addr \<Rightarrow> rle option" where
  "rle_at s a = (case lheap s a of Some (LRle e) \<Rightarrow> Some e | _ \<Rightarrow> None)"

definition heap_put :: "addr \<Rightarrow> lobj \<Rightarrow> server \<Rightarrow> server" where
  "heap_put a v s = s\<lparr>lheap := (lheap s)(a \<mapsto> v)\<rparr>"

definition heap_new :: "lobj \<Rightarrow> server \<Rightarrow> hval \<times> server" where
  "heap_new v s = (HPtr (lfresh s), s\<lparr>lheap := (lheap s)(lfresh s \<mapsto> v), lfresh := Suc (lfresh s)\<rparr>)"

definition GET_RWFLE :: "sds \<Rightarrow> sds \<Rightarrow> bool \<Rightarrow> server \<Rightarrow> (addr option \<times> server) option" where
  "GET_RWFLE tname key create s = do {
     (v, s) \<leftarrow> rehHTGet (\<lambda>s. heap_new (LRwfle (rwfleNew (mem_int s (lfresh s)) (p2p_count s) (p2p_id s))) s)
       tname [] key create s;
     (case v of
        None \<Rightarrow> Some (None, s)
      | Some (HPtr a) \<Rightarrow> Some (Some a, s)
      | _ \<Rightarrow> None)
   }"

definition GET_RLE :: "sds \<Rightarrow> sds \<Rightarrow> bool \<Rightarrow> server \<Rightarrow> (addr option \<times> server) option" where
  "GET_RLE tname key create s = do {
     (v, s) \<leftarrow> rehHTGet (\<lambda>s. heap_new (LRle rleNew) s) tname [] key create s;
     (case v of
        None \<Rightarrow> Some (None, s)
      | Some (HPtr a) \<Rightarrow> Some (Some a, s)
      | _ \<Rightarrow> None)
   }"

end
