(* ===== verification/Crdt.thy ===== *)
theory Crdt
  imports Keyspace
begin

text \<open>
  The command framework of \<open>CRDT.h\<close>: clients and their replies, the argument checks of the prepare
  phase, the construction of the arguments to broadcast, and the combination of a prepare and an
  effect phase into a command; the arity check of \<open>processCommand\<close>, the part of \<open>call\<close> that hands
  arguments to replicas and broadcasts them, and \<open>replicationBroadcast\<close> of \<open>p2p.c\<close>. The capacity
  of \<open>rargv\<close> grows on demand and is not part of the model.
\<close>

section \<open>Clients and replies\<close>

datatype rep =
    ROk
  | RErr string
  | RNull
  | REmptyArray
  | RArrayLen int
  | RBulk sds
  | RBulkInt int
  | RDouble dbl
  | RInt int

record client =
  argv :: "sds list"
  rargv :: "sds list option"
  flag_replica :: bool
  flag_message :: bool
  replies :: "rep list"

definition createClient :: client where
  "createClient = \<lparr>argv = [], rargv = None, flag_replica = False, flag_message = False, replies = []\<rparr>"

abbreviation (input) ele_exist :: rep where "ele_exist \<equiv> RErr ''Element already exists''"
abbreviation (input) ele_nexist :: rep where "ele_nexist \<equiv> RErr ''Element does not exist''"
abbreviation (input) notreplerr :: rep where "notreplerr \<equiv> RErr ''Not replication mod''"
abbreviation (input) wrongtypeerr :: rep where
  "wrongtypeerr \<equiv> RErr ''WRONGTYPE Operation against a key holding the wrong kind of value''"
abbreviation (input) syntaxerr :: rep where "syntaxerr \<equiv> RErr ''ERR syntax error''"

definition prepareClientToWrite :: "client \<Rightarrow> bool" where
  "prepareClientToWrite c \<longleftrightarrow> \<not> (flag_replica c \<and> \<not> flag_message c)"

definition addReply :: "rep \<Rightarrow> client \<Rightarrow> client" where
  "addReply r c = (if prepareClientToWrite c then c\<lparr>replies := replies c @ [r]\<rparr> else c)"

definition addReplyError :: "string \<Rightarrow> client \<Rightarrow> client" where
  "addReplyError msg c = addReply (RErr (''ERR '' @ msg)) c"

definition lookupKeyReadOrReply :: "client \<Rightarrow> sds \<Rightarrow> rep \<Rightarrow> server \<Rightarrow> robj option \<times> client" where
  "lookupKeyReadOrReply c key r s = (case lookupKeyRead s key of
       None \<Rightarrow> (None, addReply r c)
     | Some v \<Rightarrow> (Some v, c))"

definition getDoubleFromObject :: "sds \<Rightarrow> dbl option" where
  "getDoubleFromObject v = string2d v"

definition getLongLongFromObject :: "sds \<Rightarrow> int option" where
  "getLongLongFromObject v = string2ll v"

section \<open>The prepare phase\<close>

text \<open>A check lets the command go on, ends it with a reply, or reads an argument that is not there.\<close>

datatype 'a step = Go 'a | Done client | Crash

definition arg :: "sds list \<Rightarrow> nat \<Rightarrow> sds option" where
  "arg args i = (if i < length args then Some (args ! i) else None)"

definition CHECK_ARGC :: "nat \<Rightarrow> client \<Rightarrow> client step" where
  "CHECK_ARGC mx c = (if length (argv c) > mx \<or> length (argv c) < 2 then Done (addReply syntaxerr c) else Go c)"

fun is_zset :: "robj \<Rightarrow> bool" where
  "is_zset (OZset z) = True"
| "is_zset _ = False"

fun is_hash :: "robj \<Rightarrow> bool" where
  "is_hash (OHash h) = True"
| "is_hash _ = False"

definition CHECK_CONTAINER_TYPE :: "(robj \<Rightarrow> bool) \<Rightarrow> server \<Rightarrow> client \<Rightarrow> client step" where
  "CHECK_CONTAINER_TYPE ty s c = (case arg (argv c) 1 of
       None \<Rightarrow> Crash
     | Some key \<Rightarrow> (case lookupKeyRead s key of
         Some v \<Rightarrow> if ty v then Go c else Done (addReply wrongtypeerr c)
       | None \<Rightarrow> Go c))"

definition CHECK_ARG_TYPE_INT :: "nat \<Rightarrow> client \<Rightarrow> client step" where
  "CHECK_ARG_TYPE_INT i c = (case arg (argv c) i of
       None \<Rightarrow> Crash
     | Some v \<Rightarrow> (case getLongLongFromObject v of
         Some _ \<Rightarrow> Go c
       | None \<Rightarrow> Done (addReplyError ''value is not an integer'' c)))"

definition CHECK_ARG_TYPE_DOUBLE :: "nat \<Rightarrow> client \<Rightarrow> client step" where
  "CHECK_ARG_TYPE_DOUBLE i c = (case arg (argv c) i of
       None \<Rightarrow> Crash
     | Some v \<Rightarrow> (case getDoubleFromObject v of
         Some _ \<Rightarrow> Go c
       | None \<Rightarrow> Done (addReplyError ''value is not a valid float'' c)))"

fun then_check :: "client step \<Rightarrow> (client \<Rightarrow> client step) \<Rightarrow> client step" where
  "then_check (Go c) f = f c"
| "then_check (Done c) f = Done c"
| "then_check Crash f = Crash"

text \<open>The rest of a prepare phase after its checks.\<close>

definition after_checks ::
  "client step \<Rightarrow> server \<Rightarrow> (client \<Rightarrow> (client step \<times> server) option) \<Rightarrow> (client step \<times> server) option" where
  "after_checks r s f = (case r of Go c \<Rightarrow> f c | Done c \<Rightarrow> Some (Done c, s) | Crash \<Rightarrow> None)"

definition INIT_RARGV :: "client \<Rightarrow> client" where
  "INIT_RARGV c = c\<lparr>rargv := Some (argv c)\<rparr>"

definition RARGV_ADD_SDS :: "sds \<Rightarrow> client \<Rightarrow> client" where
  "RARGV_ADD_SDS x c =
     (let c = (if rargv c = None then INIT_RARGV c else c) in
      c\<lparr>rargv := map_option (\<lambda>r. r @ [x]) (rargv c)\<rparr>)"

definition CR_GET_LAST :: "sds list \<Rightarrow> vc option" where
  "CR_GET_LAST args = (if args = [] then None else sdsToVC (last args))"

section \<open>Commands\<close>

definition REPLICATION_MODE :: "server \<Rightarrow> bool" where
  "REPLICATION_MODE s \<longleftrightarrow> length (replicas s) \<noteq> 0 \<or> p2p_count s \<noteq> 0"

type_synonym prepare = "client \<Rightarrow> server \<Rightarrow> (client step \<times> server) option"

type_synonym effect = "client \<Rightarrow> server \<Rightarrow> (client \<times> server) option"

text \<open>\<open>CRDT_BEGIN CRDT_PREPARE\<close> prep \<open>CRDT_EFFECT\<close> eff \<open>CRDT_END\<close>.\<close>

definition CRDT_COMMAND :: "prepare \<Rightarrow> effect \<Rightarrow> client \<Rightarrow> server \<Rightarrow> (client \<times> server) option" where
  "CRDT_COMMAND prep eff c s =
     (if REPLICATION_MODE s then do {
        (r, s) \<leftarrow> (if \<not> flag_replica c then do {
             (r, s) \<leftarrow> prep c s;
             (case r of
                Done c \<Rightarrow> Some (Done c, s)
              | Go c \<Rightarrow>
                  let c = addReply ROk c;
                      c = (if rargv c = None then INIT_RARGV c else c)
                  in Some (Go c, s)
              | Crash \<Rightarrow> None)
           }
           else Some (Go c, s));
        (case r of
           Done c \<Rightarrow> Some (c, s)
         | Go c \<Rightarrow> do {
             (c, s) \<leftarrow> eff c s;
             Some (if flag_message c then addReply ROk c else c, s)
           }
         | Crash \<Rightarrow> None)
      }
      else Some (addReply notreplerr c, s))"

section \<open>Dispatch and broadcast\<close>

definition replicationBroadcast :: "sds list \<Rightarrow> server \<Rightarrow> server" where
  "replicationBroadcast args s = s\<lparr>replicas := map (\<lambda>l. l\<lparr>lk_out := lk_out l @ [args]\<rparr>) (replicas s)\<rparr>"

definition call :: "(client \<Rightarrow> server \<Rightarrow> (client \<times> server) option) \<Rightarrow> client \<Rightarrow> server \<Rightarrow> (client \<times> server) option" where
  "call proc c s = do {
     let c = (if flag_replica c then c\<lparr>rargv := Some (argv c)\<rparr> else c);
     (c, s) \<leftarrow> proc c s;
     let s = (case rargv c of
         Some args \<Rightarrow> if \<not> flag_replica c then replicationBroadcast args s else s
       | None \<Rightarrow> s);
     let c = (if flag_replica c then c\<lparr>rargv := None\<rparr> else c);
     Some (c, s)
   }"

definition freeClientArgv :: "client \<Rightarrow> client" where
  "freeClientArgv c = c\<lparr>argv := [], rargv := None\<rparr>"

text \<open>A row of the command table: the procedure and its arity.\<close>

record redisCommand =
  cmd_proc :: "client \<Rightarrow> server \<Rightarrow> (client \<times> server) option"
  cmd_arity :: int

definition arity_ok :: "int \<Rightarrow> client \<Rightarrow> bool" where
  "arity_ok ar c \<longleftrightarrow> \<not> (ar > 0 \<and> ar \<noteq> int (length (argv c)) \<or> int (length (argv c)) < - ar)"

definition processCommand :: "(sds \<Rightarrow> redisCommand option) \<Rightarrow> client \<Rightarrow> server \<Rightarrow> (client \<times> server) option" where
  "processCommand table c s = (case argv c of
       [] \<Rightarrow> None
     | name # _ \<Rightarrow>
         (case table (sdstolower name) of
            None \<Rightarrow> Some (addReplyError ''unknown command'' c, s)
          | Some cmd \<Rightarrow>
              if \<not> arity_ok (cmd_arity cmd) c
              then Some (addReplyError ''wrong number of arguments'' c, s)
              else call (cmd_proc cmd) c s))"

text \<open>The reply to a client that receives one command, and the server after it.\<close>

definition serve :: "(sds \<Rightarrow> redisCommand option) \<Rightarrow> client \<Rightarrow> sds list \<Rightarrow> server \<Rightarrow> (client \<times> server) option" where
  "serve table c args s =
     map_option (\<lambda>(c, s). (freeClientArgv c, s)) (processCommand table (c\<lparr>argv := args\<rparr>) s)"

section \<open>Queries on sorted sets\<close>

text \<open>The three priority queues answer their score and max queries with the same code.\<close>

definition score_reply :: "client \<Rightarrow> server \<Rightarrow> (client \<times> server) option" where
  "score_reply c s = do {
     key \<leftarrow> arg (argv c) 1;
     let (o', c) = lookupKeyReadOrReply c key RNull s;
     (case o' of
        None \<Rightarrow> Some (c, s)
      | Some (OZset z) \<Rightarrow> do {
          member \<leftarrow> arg (argv c) 2;
          score \<leftarrow> zsetScore z member;
          Some (addReply (case score of None \<Rightarrow> RNull | Some v \<Rightarrow> RDouble v) c, s)
        }
      | Some _ \<Rightarrow> Some (addReply wrongtypeerr c, s))
   }"

definition zset_max :: "zobj \<Rightarrow> zentry option" where
  "zset_max z = (case z of
       ZL zl \<Rightarrow> if zl = [] then None else Some (last zl)
     | ZS zs \<Rightarrow> do {
         a \<leftarrow> zsl_tail (zs_zsl zs);
         nd \<leftarrow> zsl_nodes (zs_zsl zs) a;
         e \<leftarrow> zn_ele nd;
         Some (e, zn_score nd)
       })"

definition max_reply :: "client \<Rightarrow> server \<Rightarrow> (client \<times> server) option" where
  "max_reply c s = do {
     key \<leftarrow> arg (argv c) 1;
     let (o', c) = lookupKeyReadOrReply c key REmptyArray s;
     (case o' of
        None \<Rightarrow> Some (c, s)
      | Some (OZset z) \<Rightarrow>
          if zsetLength z = 0 then Some (addReply REmptyArray c, s)
          else do {
            let c = addReply (RArrayLen 2) c;
            (e, v) \<leftarrow> zset_max z;
            Some (addReply (RDouble v) (addReply (RBulk e) c), s)
          }
      | Some _ \<Rightarrow> Some (addReply wrongtypeerr c, s))
   }"

lemma zset_max_holds:
  assumes "zset_holds z xs" and "xs \<noteq> []"
  shows "zset_max z = Some (last xs)"
proof (cases z)
  case (ZL zl)
  then show ?thesis using assms by (simp add: zset_max_def zset_holds_def zl_holds_def)
next
  case (ZS zs)
  then obtain L where L: "zsl_rep (zs_zsl zs) L" "entries L = xs"
    using assms by (auto simp: zset_holds_def zs_holds_def)
  then have ne: "L \<noteq> []" using assms(2) by auto
  obtain nd where "zsl_nodes (zs_zsl zs) (sn_addr (last L)) = Some nd" "zn_ele nd = Some (sn_ele (last L))"
    "zn_score nd = sn_score (last L)"
    using node_data_in[OF zsl_repD(3)[OF L(1)], of "last L"] ne by auto
  moreover have "last xs = (sn_ele (last L), sn_score (last L))"
    using L(2) ne by (auto simp: entries_def entry_def last_map)
  ultimately show ?thesis using ZS zsl_repD(10)[OF L(1)] ne by (simp add: zset_max_def pred_addr_def)
qed

section \<open>Facts about the framework\<close>

lemma addReply_simps [simp]:
  "argv (addReply r c) = argv c" "rargv (addReply r c) = rargv c"
  "flag_replica (addReply r c) = flag_replica c" "flag_message (addReply r c) = flag_message c"
  by (simp_all add: addReply_def)

lemma RARGV_ADD_SDS_simps [simp]:
  "argv (RARGV_ADD_SDS x c) = argv c" "flag_replica (RARGV_ADD_SDS x c) = flag_replica c"
  "flag_message (RARGV_ADD_SDS x c) = flag_message c"
  "rargv (RARGV_ADD_SDS x c) = Some ((case rargv c of None \<Rightarrow> argv c | Some r \<Rightarrow> r) @ [x])"
  by (auto simp: RARGV_ADD_SDS_def INIT_RARGV_def Let_def split: option.splits)

lemma then_check_Go: "then_check r f = Go c \<longleftrightarrow> (\<exists>d. r = Go d \<and> f d = Go c)"
  by (cases r) auto

lemma arg_Some [simp]: "arg args i = Some v \<longleftrightarrow> i < length args \<and> args ! i = v"
  by (auto simp: arg_def)

lemma arg_None [simp]: "arg args i = None \<longleftrightarrow> length args \<le> i"
  by (auto simp: arg_def)

lemma CHECK_Go [simp]:
  "CHECK_ARGC n c = Go d \<longleftrightarrow> d = c \<and> length (argv c) \<le> n \<and> 2 \<le> length (argv c)"
  "CHECK_CONTAINER_TYPE ty s c = Go d \<longleftrightarrow>
     d = c \<and> 1 < length (argv c) \<and> (\<forall>v. db s (argv c ! 1) = Some v \<longrightarrow> ty v)"
  "CHECK_ARG_TYPE_DOUBLE i c = Go d \<longleftrightarrow> d = c \<and> i < length (argv c) \<and> string2d (argv c ! i) \<noteq> None"
  "CHECK_ARG_TYPE_INT i c = Go d \<longleftrightarrow> d = c \<and> i < length (argv c) \<and> string2ll (argv c ! i) \<noteq> None"
  by (auto simp: CHECK_ARGC_def CHECK_CONTAINER_TYPE_def CHECK_ARG_TYPE_DOUBLE_def CHECK_ARG_TYPE_INT_def
      lookupKeyRead_def lookupKey_def getDoubleFromObject_def getLongLongFromObject_def
      split: option.splits if_splits)

text \<open>A replica's command runs the effect on the arguments it carries and broadcasts nothing.\<close>

lemma call_replica:
  assumes "flag_replica c" "REPLICATION_MODE s"
    and "eff (c\<lparr>rargv := Some (argv c)\<rparr>) s = Some (d, s')" "flag_replica d" "\<not> flag_message d"
  shows "call (CRDT_COMMAND prep eff) c s = Some (d\<lparr>rargv := None\<rparr>, s')"
  using assms by (simp add: call_def CRDT_COMMAND_def split: option.split)

text \<open>A command that the prepare phase ends is neither applied nor broadcast.\<close>

lemma call_rejected:
  assumes "\<not> flag_replica c" "REPLICATION_MODE s" "prep c s = Some (Done d, s')" "rargv d = None" "\<not> flag_replica d"
  shows "call (CRDT_COMMAND prep eff) c s = Some (d, s')"
  using assms by (simp add: call_def CRDT_COMMAND_def)

text \<open>A command that passes is answered, applied locally and queued for every replica.\<close>

lemma call_accepted:
  assumes "\<not> flag_replica c" "REPLICATION_MODE s" "prep c s = Some (Go d, s1)"
    and d: "rargv d = Some args" "\<not> flag_replica d" "\<not> flag_message d"
    and eff: "eff (addReply ROk d) s1 = Some (d', s2)" "rargv d' = Some args'" "\<not> flag_replica d'" "\<not> flag_message d'"
  shows "call (CRDT_COMMAND prep eff) c s = Some (d', replicationBroadcast args' s2)"
  using assms by (simp add: call_def CRDT_COMMAND_def)

end
