(* ===== verification/P2p.thy ===== *)
theory P2p
  imports Crdt
begin

text \<open>
  The peer-to-peer links of \<open>p2p.c\<close>: the \<open>REPLICATE\<close> command, the connection to a peer and the
  handler that runs once a connection is up. Opening a socket is the environment's: the
  parameter \<open>net\<close> tells whether \<open>connConnect\<close> to an address, port and source address succeeds.
  A connection that it opened is pending in the field \<open>connecting\<close> until the event loop finds its
  socket writable and runs \<open>replicationHandler\<close> on it.
  A variable that a failed conversion leaves unset has the value \<open>junk\<close>.
\<close>

definition strcaseeq :: "sds \<Rightarrow> string \<Rightarrow> bool" where
  "strcaseeq a b \<longleftrightarrow> sdstolower (cstr a) = sdstolower (cstr b)"

definition getLongFromObjectOrReply :: "client \<Rightarrow> sds \<Rightarrow> int \<Rightarrow> string \<Rightarrow> int \<times> client" where
  "getLongFromObjectOrReply c v junk msg = (case getLongLongFromObject v of
       Some x \<Rightarrow> (x, c)
     | None \<Rightarrow> (junk, addReplyError msg c))"

text \<open>What the handler sends first.\<close>

definition replhandshake :: "sds list" where
  "replhandshake = [''REPLICATE'', ''replica'', ''handshake'']"

definition replicationHandler :: "nat \<Rightarrow> server \<Rightarrow> server" where
  "replicationHandler peer s = s\<lparr>replicas := replicas s @ [\<lparr>lk_peer = peer, lk_out = [replhandshake]\<rparr>]\<rparr>"

text \<open>The event on the \<open>k\<close>-th pending connection: its handler runs, whether the socket reports an
  error or not, and the connection is no longer pending. The replica at the other end is \<open>peer\<close>.\<close>

definition connSocketEventHandler :: "nat \<Rightarrow> nat \<Rightarrow> server \<Rightarrow> server option" where
  "connSocketEventHandler k peer s =
     (if k < length (connecting s)
      then Some (replicationHandler peer (s\<lparr>connecting := take k (connecting s) @ drop (Suc k) (connecting s)\<rparr>))
      else None)"

text \<open>The first configured address, the source address of connections unless the peers share a
  machine.\<close>

definition NET_FIRST_BIND_ADDR :: "server \<Rightarrow> sds option" where
  "NET_FIRST_BIND_ADDR s = (case bindaddr s of [] \<Rightarrow> None | a # _ \<Rightarrow> Some a)"

definition connectWithReplica ::
  "(sds \<Rightarrow> int \<Rightarrow> sds option \<Rightarrow> bool) \<Rightarrow> sds \<Rightarrow> int \<Rightarrow> server \<Rightarrow> bool \<times> server" where
  "connectWithReplica net ip port s =
     (let source_addr = (if exp_local s \<noteq> 0 then Some ip else NET_FIRST_BIND_ADDR s) in
      if net ip port source_addr then (True, s\<lparr>connecting := connecting s @ [(ip, port)]\<rparr>) else (False, s))"

text \<open>The indices of a loop that advances by two.\<close>

function by_two :: "int \<Rightarrow> int \<Rightarrow> int list" where
  "by_two i n = (if i < n then i # by_two (i + 2) n else [])"
  by pat_completeness auto
termination
  by (relation "measure (\<lambda>(i, n). nat (n - i))") auto

declare by_two.simps [simp del]

text \<open>The body of both loops: the pair of arguments at an index is an address and a port. The
  list collects the peers a connection was opened to.\<close>

fun connect_loop ::
  "(sds \<Rightarrow> int \<Rightarrow> sds option \<Rightarrow> bool) \<Rightarrow> int \<Rightarrow> int list \<Rightarrow> client \<Rightarrow> server \<Rightarrow> (sds \<times> int) list \<Rightarrow>
   (client \<times> server \<times> (sds \<times> int) list) option" where
  "connect_loop net junk [] c s peers = Some (addReply ROk c, s, peers)"
| "connect_loop net junk (i # is) c s peers = do {
     p \<leftarrow> arg (argv c) (nat (i + 1));
     let (port, c) = getLongFromObjectOrReply c p junk ''invalid port number.'';
     ip \<leftarrow> arg (argv c) (nat i);
     let (ok, s) = connectWithReplica net ip (to_int port) s;
     if ok
     then connect_loop net junk is c s (peers @ [(ip, to_int port)])
     else Some (addReply (RErr ''Something wrong connecting replicas.'') c, s, peers)
   }"

definition replicateCommand ::
  "(sds \<Rightarrow> int \<Rightarrow> sds option \<Rightarrow> bool) \<Rightarrow> int \<Rightarrow> nat \<Rightarrow> client \<Rightarrow> server \<Rightarrow> (client \<times> server \<times> (sds \<times> int) list) option" where
  "replicateCommand net junk peer c s =
     (if cluster_enabled s then Some (addReplyError ''REPLICATE not allowed in cluster mode.'' c, s, [])
      else do {
        a1 \<leftarrow> arg (argv c) 1;
        a2 \<leftarrow> arg (argv c) 2;
        if strcaseeq a1 ''replica'' \<and> strcaseeq a2 ''handshake''
        then Some (c\<lparr>flag_replica := True\<rparr>, s\<lparr>replicas := replicas s @ [\<lparr>lk_peer = peer, lk_out = []\<rparr>]\<rparr>, [])
        else do {
          let (size, c) = getLongFromObjectOrReply c a1 junk ''invalid replica size.'';
          let (id, c) = getLongFromObjectOrReply c a2 junk ''invalid replica id.'';
          let s = s\<lparr>p2p_count := to_int size, p2p_id := to_int id\<rparr>;
          a3 \<leftarrow> arg (argv c) 3;
          if strcaseeq a3 ''automat''
          then connect_loop net junk (map (\<lambda>i. 4 + i) (by_two 0 (p2p_id s))) c s []
          else do {
            let s = (if length (argv c) > 3 \<and> strcaseeq a3 ''exp_local'' then s\<lparr>exp_local := 1\<rparr> else s);
            connect_loop net junk (by_two (3 + exp_local s) (int (length (argv c)))) c s []
          }
        }
      })"

section \<open>Properties\<close>

lemma by_two_simps: "i < n \<Longrightarrow> by_two i n = i # by_two (i + 2) n" "\<not> i < n \<Longrightarrow> by_two i n = []"
  by (subst by_two.simps; simp)+

lemma getLong_argv: "getLongFromObjectOrReply c v junk msg = (n, d) \<Longrightarrow> argv d = argv c"
  by (auto simp: getLongFromObjectOrReply_def addReplyError_def split: option.splits)

text \<open>The addresses and ports in the arguments from the fourth on.\<close>

fun peer_pairs :: "sds list \<Rightarrow> (sds \<times> sds) list" where
  "peer_pairs (ip # port # rest) = (ip, port) # peer_pairs rest"
| "peer_pairs _ = []"

lemma connect_loop_all:
  assumes "exp_local s = 0" "\<And>ip port. net ip port (NET_FIRST_BIND_ADDR s)"
    and "list_all (\<lambda>(ip, p). string2ll p \<noteq> None) (peer_pairs xs)" and "even (length xs)"
    and "argv c = ys @ xs"
  shows "connect_loop net junk (by_two (int (length ys)) (int (length (argv c)))) c s peers =
    Some (addReply ROk c, s\<lparr>connecting := connecting s @ map (\<lambda>(ip, p). (ip, to_int (the (string2ll p)))) (peer_pairs xs)\<rparr>,
      peers @ map (\<lambda>(ip, p). (ip, to_int (the (string2ll p)))) (peer_pairs xs))"
  using assms
proof (induction xs arbitrary: ys s peers rule: peer_pairs.induct)
  case (1 ip p rest)
  have i: "by_two (int (length ys)) (int (length (argv c))) =
      int (length ys) # by_two (int (length (ys @ [ip, p]))) (int (length (argv c)))"
    using 1(6) by (subst by_two_simps(1)) (simp_all add: add.commute)
  obtain v where v: "string2ll p = Some v" using 1(4) by auto
  have "arg (argv c) (nat (int (length ys) + 1)) = Some p" "arg (argv c) (nat (int (length ys))) = Some ip"
    using 1(6) by (auto simp: nat_add_distrib nth_append)
  then have step: "connect_loop net junk (int (length ys) # js) c s peers = connect_loop net junk js c
      (s\<lparr>connecting := connecting s @ [(ip, to_int v)]\<rparr>) (peers @ [(ip, to_int v)])" for js
    using v 1(2,3)
    by (simp del: arg_Some add: getLongFromObjectOrReply_def getLongLongFromObject_def connectWithReplica_def)
  let ?s = "s\<lparr>connecting := connecting s @ [(ip, to_int v)]\<rparr>"
  have IH: "connect_loop net junk (by_two (int (length (ys @ [ip, p]))) (int (length (argv c)))) c ?s (peers @ [(ip, to_int v)]) =
      Some (addReply ROk c, ?s\<lparr>connecting := connecting ?s @ map (\<lambda>(ip, p). (ip, to_int (the (string2ll p)))) (peer_pairs rest)\<rparr>,
        (peers @ [(ip, to_int v)]) @ map (\<lambda>(ip, p). (ip, to_int (the (string2ll p)))) (peer_pairs rest))"
    by (rule 1(1)) (use 1(2-6) in \<open>simp_all add: NET_FIRST_BIND_ADDR_def\<close>)
  show ?case unfolding i step IH using v by simp
next
  case "2_1"
  then show ?case by (simp add: by_two_simps(2))
next
  case "2_2"
  then show ?case by simp
qed

lemma to_int_small [simp]: "- (2 ^ 31) \<le> v \<Longrightarrow> v < 2 ^ 31 \<Longrightarrow> to_int v = v"
  by (simp add: to_int_def signed_take_bit_int_eq_self)

text \<open>The events on pending connections, always on the oldest, with the replicas at the other ends.\<close>

fun connections_up :: "nat list \<Rightarrow> server \<Rightarrow> server option" where
  "connections_up [] s = Some s"
| "connections_up (p # ps) s = Option.bind (connSocketEventHandler 0 p s) (connections_up ps)"

lemma connections_up_all:
  "length (connecting s) = length ps \<Longrightarrow> connections_up ps s =
    Some (s\<lparr>connecting := [], replicas := replicas s @ map (\<lambda>p. \<lparr>lk_peer = p, lk_out = [replhandshake]\<rparr>) ps\<rparr>)"
proof (induction ps arbitrary: s)
  case (Cons p ps)
  then obtain x xs where x: "connecting s = x # xs" "length xs = length ps" by (cases "connecting s") auto
  then have "connections_up (p # ps) s = connections_up ps (replicationHandler p (s\<lparr>connecting := xs\<rparr>))"
    by (simp add: connSocketEventHandler_def)
  then show ?case using x by (simp add: Cons.IH replicationHandler_def)
qed simp

text \<open>C18: on a server that has never been given \<open>EXP_LOCAL\<close> and that can open every connection,
  \<open>REPLICATE size id ip port ...\<close> with well-formed numbers replies OK, sets the size and the
  identifier and opens a connection to every listed peer, in order, from the configured source
  address; once these connections are up there is a link to every peer, with the handshake queued
  on it, and nothing else has changed.\<close>

theorem replicate_connects_all:
  assumes "\<not> cluster_enabled s" "exp_local s = 0" "connecting s = []"
    and "\<And>ip port. net ip port (NET_FIRST_BIND_ADDR s)"
    and c: "argv c = name # a1 # a2 # a3 # xs" "\<not> strcaseeq a1 ''replica''" "\<not> strcaseeq a3 ''automat''" "\<not> strcaseeq a3 ''exp_local''"
    and num: "string2ll a1 = Some n" "string2ll a2 = Some m" "0 \<le> n" "n < 2 ^ 31" "0 \<le> m" "m < 2 ^ 31"
    and ports: "list_all (\<lambda>(ip, p). string2ll p \<noteq> None) (peer_pairs (a3 # xs))" "odd (length xs)"
  shows "\<exists>s'. replicateCommand net junk peer c s =
      Some (addReply ROk c, s', map (\<lambda>(ip, p). (ip, to_int (the (string2ll p)))) (peer_pairs (a3 # xs))) \<and>
    (\<forall>ps. length ps = length (peer_pairs (a3 # xs)) \<longrightarrow>
      connections_up ps s' = Some (s\<lparr>p2p_count := n, p2p_id := m,
        replicas := replicas s @ map (\<lambda>p. \<lparr>lk_peer = p, lk_out = [replhandshake]\<rparr>) ps\<rparr>))"
proof -
  let ?s = "s\<lparr>p2p_count := n, p2p_id := m\<rparr>" and ?peers = "map (\<lambda>(ip, p). (ip, to_int (the (string2ll p)))) (peer_pairs (a3 # xs))"
  have "replicateCommand net junk peer c s = Some (addReply ROk c, ?s\<lparr>connecting := ?peers\<rparr>, ?peers)"
    using connect_loop_all[where net = net and c = c and ys = "[name, a1, a2]" and junk = junk and s = ?s and peers = "[]" and xs = "a3 # xs"] assms
    by (simp add: replicateCommand_def arg_def getLongFromObjectOrReply_def getLongLongFromObject_def NET_FIRST_BIND_ADDR_def)
  moreover have "?s\<lparr>connecting := [], replicas := r\<rparr> = s\<lparr>p2p_count := n, p2p_id := m, replicas := r\<rparr>" for r
    using assms(3) by (cases s) simp
  ultimately show ?thesis by (intro exI[of _ "?s\<lparr>connecting := ?peers\<rparr>"]) (simp add: connections_up_all)
qed

theorem replicate_connects_all_witness:
  "\<exists>d s'. replicateCommand (\<lambda>_ _ _. True) 7 0 (createClient\<lparr>argv := [''REPLICATE'', ''3'', ''1'', ''host'', ''6379'']\<rparr>)
      (initServer [] [] (\<lambda>_. dzero) (\<lambda>_ _. 0)) = Some (d, s', [(''host'', 6379)]) \<and>
    connections_up [0] s' = Some ((initServer [] [] (\<lambda>_. dzero) (\<lambda>_ _. 0))\<lparr>p2p_count := 3, p2p_id := 1,
      replicas := [\<lparr>lk_peer = 0, lk_out = [replhandshake]\<rparr>]\<rparr>)"
proof -
  let ?c = "createClient\<lparr>argv := [''REPLICATE'', ''3'', ''1'', ''host'', ''6379'']\<rparr>"
  let ?s = "initServer [] [] (\<lambda>_. dzero) (\<lambda>_ _. 0)"
  have ini: "\<not> cluster_enabled ?s" "exp_local ?s = 0" "connecting ?s = []" "replicas ?s = []" by (simp_all add: initServer_def)
  have p: "string2ll ''6379'' = Some 6379" by (simp add: eval_string)
  moreover have "string2ll ''3'' = Some 3" "string2ll ''1'' = Some 1" by (simp_all add: eval_string)
  moreover have "\<not> strcaseeq ''3'' ''replica''" "\<not> strcaseeq ''host'' ''automat''" "\<not> strcaseeq ''host'' ''exp_local''"
    by (simp_all add: strcaseeq_def eval_string)
  ultimately have "\<exists>s'. replicateCommand (\<lambda>_ _ _. True) 7 0 ?c ?s =
      Some (addReply ROk ?c, s', map (\<lambda>(ip, p). (ip, to_int (the (string2ll p)))) (peer_pairs [''host'', ''6379''])) \<and>
    (\<forall>ps. length ps = length (peer_pairs [''host'', ''6379'']) \<longrightarrow>
      connections_up ps s' = Some (?s\<lparr>p2p_count := 3, p2p_id := 1,
        replicas := replicas ?s @ map (\<lambda>p. \<lparr>lk_peer = p, lk_out = [replhandshake]\<rparr>) ps\<rparr>))"
    using ini by (intro replicate_connects_all[where name = "''REPLICATE''"]) simp_all
  then obtain s' where s': "replicateCommand (\<lambda>_ _ _. True) 7 0 ?c ?s =
      Some (addReply ROk ?c, s', map (\<lambda>(ip, p). (ip, to_int (the (string2ll p)))) (peer_pairs [''host'', ''6379'']))"
    "length [0::nat] = length (peer_pairs [''host'', ''6379'']) \<longrightarrow>
      connections_up [0] s' = Some (?s\<lparr>p2p_count := 3, p2p_id := 1,
        replicas := replicas ?s @ map (\<lambda>p. \<lparr>lk_peer = p, lk_out = [replhandshake]\<rparr>) [0]\<rparr>)"
    by blast
  have "map (\<lambda>(ip, p). (ip, to_int (the (string2ll p)))) (peer_pairs [''host'', ''6379'']) = [(''host'', 6379)]"
    by (simp add: p)
  moreover have "connections_up [0] s' = Some (?s\<lparr>p2p_count := 3, p2p_id := 1, replicas := [\<lparr>lk_peer = 0, lk_out = [replhandshake]\<rparr>]\<rparr>)"
    using s'(2) unfolding ini(4) by (simp del: connections_up.simps)
  ultimately show ?thesis using s'(1) by metis
qed

text \<open>C19: without an argument after the identifier, which the arity of the command permits,
  \<open>replicateCommand\<close> reads past the end of its argument vector.\<close>

theorem replicate_reads_past_argv:
  assumes "\<not> cluster_enabled s" "length (argv c) = 3"
    and "\<not> (strcaseeq (argv c ! 1) ''replica'' \<and> strcaseeq (argv c ! 2) ''handshake'')"
  shows "arity_ok (-3) c \<and> replicateCommand net junk peer c s = None"
proof
  show "arity_ok (-3) c" using assms(2) by (simp add: arity_ok_def)
  obtain n c1 where g1: "getLongFromObjectOrReply c (argv c ! 1) junk ''invalid replica size.'' = (n, c1)" by fastforce
  obtain m c2 where g2: "getLongFromObjectOrReply c1 (argv c ! 2) junk ''invalid replica id.'' = (m, c2)" by fastforce
  have "argv c2 = argv c" using getLong_argv[OF g1] getLong_argv[OF g2] by simp
  then show "replicateCommand net junk peer c s = None"
    using assms g1 g2 by (simp add: replicateCommand_def arg_def Let_def)
qed

lemma connect_loop_length:
  "connect_loop net junk js c s peers = Some (d, s', peers') \<Longrightarrow> length peers' \<le> length peers + length js"
proof (induction js arbitrary: c s peers)
  case (Cons i js)
  obtain p where p: "arg (argv c) (nat (i + 1)) = Some p"
    using Cons.prems by (cases "arg (argv c) (nat (i + 1))") auto
  obtain port c1 where g: "getLongFromObjectOrReply c p junk ''invalid port number.'' = (port, c1)" by fastforce
  obtain ip where ip: "arg (argv c1) (nat i) = Some ip"
    using Cons.prems p g by (cases "arg (argv c1) (nat i)") (simp_all del: arg_Some)
  obtain ok s1 where k: "connectWithReplica net ip (to_int port) s = (ok, s1)" by fastforce
  show ?case
    using Cons.prems Cons.IH[of c1 s1 "peers @ [(ip, to_int port)]"] p g ip k by (cases ok) (simp_all del: arg_Some)
qed simp

theorem replicate_reads_past_argv_witness:
  "replicateCommand (\<lambda>_ _ _. True) 7 0 (createClient\<lparr>argv := [''REPLICATE'', ''5'', ''0'']\<rparr>)
      (initServer [] [] (\<lambda>_. dzero) (\<lambda>_ _. 0)) = None"
proof -
  have "\<not> strcaseeq ''5'' ''replica''" by (simp add: strcaseeq_def eval_string)
  then show ?thesis
    using replicate_reads_past_argv[of "initServer [] [] (\<lambda>_. dzero) (\<lambda>_ _. 0)"
        "createClient\<lparr>argv := [''REPLICATE'', ''5'', ''0'']\<rparr>" "\<lambda>_ _ _. True" 7 0]
    by (simp add: initServer_def)
qed

text \<open>C20: with \<open>AUTOMAT\<close> a replica opens a connection to only half of the replicas before it:
  the loop runs up to the identifier but advances by two.\<close>

theorem replicate_automat_half:
  assumes "replicateCommand net junk peer c s = Some (d, s', peers)"
    and "3 < length (argv c)" "strcaseeq (argv c ! 3) ''automat''" "\<not> strcaseeq (argv c ! 1) ''replica''"
    and "string2ll (argv c ! 2) = Some m" "0 \<le> m" "m < 2 ^ 31"
  shows "length peers \<le> nat ((m + 1) div 2)"
proof -
  have len: "length (by_two i n) = nat ((n - i + 1) div 2)" for i n
  proof (induction i n rule: by_two.induct)
    case (1 i n)
    show ?case
    proof (cases "i < n")
      case True
      then have "length (by_two i n) = Suc (nat ((n - (i + 2) + 1) div 2))" using 1 by (simp only: by_two_simps(1) list.size)
      also have "\<dots> = nat ((n - i + 1) div 2)" using True by linarith
      finally show ?thesis .
    next
      case False
      then have "nat ((n - i + 1) div 2) = 0" by linarith
      then show ?thesis using False by (simp add: by_two_simps(2))
    qed
  qed
  show ?thesis
  proof (cases "cluster_enabled s")
    case False
    obtain n c0 where g: "getLongFromObjectOrReply c (argv c ! 1) junk ''invalid replica size.'' = (n, c0)" by fastforce
    then have c0: "argv c0 = argv c" by (rule getLong_argv)
    let ?s = "s\<lparr>p2p_count := to_int n, p2p_id := m\<rparr>"
    have "connect_loop net junk (map (\<lambda>i. 4 + i) (by_two 0 m)) c0 ?s [] = Some (d, s', peers)"
      using assms False g c0
      by (simp add: replicateCommand_def arg_def getLongFromObjectOrReply_def[of c0] getLongLongFromObject_def)
    from connect_loop_length[OF this, unfolded length_map len] show ?thesis by (simp only: list.size add_0 diff_0_right)
  next
    case True
    then have "peers = []" using assms(1) by (simp add: replicateCommand_def)
    then show ?thesis by simp
  qed
qed

theorem replicate_automat_half_witness:
  "\<exists>d s' peers. replicateCommand (\<lambda>_ _ _. True) 7 0
      (createClient\<lparr>argv := [''REPLICATE'', ''3'', ''2'', ''AUTOMAT'', ''h0'', ''6379'', ''h1'', ''6379'', ''h2'', ''6379'']\<rparr>)
      (initServer [] [] (\<lambda>_. dzero) (\<lambda>_ _. 0)) = Some (d, s', peers) \<and> length peers \<le> 1"
proof -
  let ?c = "createClient\<lparr>argv := [''REPLICATE'', ''3'', ''2'', ''AUTOMAT'', ''h0'', ''6379'', ''h1'', ''6379'', ''h2'', ''6379'']\<rparr>"
  let ?s = "initServer [] [] (\<lambda>_. dzero) (\<lambda>_ _. 0)"
  have n: "string2ll ''3'' = Some 3" "string2ll ''2'' = Some 2" "string2ll ''6379'' = Some 6379" by (simp_all add: eval_string)
  have k: "\<not> strcaseeq ''3'' ''replica''" "strcaseeq ''AUTOMAT'' ''automat''" by (simp_all add: strcaseeq_def eval_string)
  have "by_two 0 2 = [0]" by (simp add: by_two.simps)
  then obtain d s' peers where r: "replicateCommand (\<lambda>_ _ _. True) 7 0 ?c ?s = Some (d, s', peers)"
    using n k by (simp add: replicateCommand_def initServer_def arg_def getLongFromObjectOrReply_def
        getLongLongFromObject_def connectWithReplica_def)
  show ?thesis using replicate_automat_half[OF r, of 2] n k r by auto
qed

lemma connect_loop_keeps:
  "connect_loop net junk js c s peers = Some (d, s', peers') \<Longrightarrow>
    exp_local s' = exp_local s \<and> cluster_enabled s' = cluster_enabled s"
proof (induction js arbitrary: c s peers)
  case (Cons i js)
  obtain p where p: "arg (argv c) (nat (i + 1)) = Some p"
    using Cons.prems by (cases "arg (argv c) (nat (i + 1))") auto
  obtain port c1 where g: "getLongFromObjectOrReply c p junk ''invalid port number.'' = (port, c1)" by fastforce
  obtain ip where ip: "arg (argv c1) (nat i) = Some ip"
    using Cons.prems p g by (cases "arg (argv c1) (nat i)") (simp_all del: arg_Some)
  obtain ok s1 where k: "connectWithReplica net ip (to_int port) s = (ok, s1)" by fastforce
  then have "exp_local s1 = exp_local s" "cluster_enabled s1 = cluster_enabled s"
    by (auto simp: connectWithReplica_def Let_def split: if_splits)
  then show ?case
    using Cons.prems Cons.IH[of c1 s1 "peers @ [(ip, to_int port)]"] p g ip k by (cases ok) (simp_all del: arg_Some)
qed simp

lemma replicate_after_exp_local:
  assumes "\<not> cluster_enabled s" "exp_local s = 1" "length (argv c) = 5"
    and "\<not> strcaseeq (argv c ! 1) ''replica''" "\<not> strcaseeq (argv c ! 3) ''automat''"
  shows "replicateCommand net junk peer c s = None"
proof -
  obtain n c1 where g1: "getLongFromObjectOrReply c (argv c ! 1) junk ''invalid replica size.'' = (n, c1)" by fastforce
  obtain m c2 where g2: "getLongFromObjectOrReply c1 (argv c ! 2) junk ''invalid replica id.'' = (m, c2)" by fastforce
  have "argv c2 = argv c" using getLong_argv[OF g1] getLong_argv[OF g2] by simp
  then show ?thesis using assms g1 g2 by (simp add: replicateCommand_def arg_def Let_def by_two.simps)
qed

text \<open>C28: the flag that \<open>EXP_LOCAL\<close> sets is never reset. After one such command the ordinary form
  \<open>REPLICATE size id ip port\<close> takes the port for an address and reads past the end of its
  argument vector, whatever the network does.\<close>

theorem replicate_exp_local_sticks:
  assumes "\<not> cluster_enabled s" "replicateCommand net junk peer c s = Some (d, s', peers)"
    and "3 < length (argv c)" "strcaseeq (argv c ! 3) ''exp_local''" "\<not> strcaseeq (argv c ! 1) ''replica''"
    and "length (argv c') = 5" "\<not> strcaseeq (argv c' ! 1) ''replica''" "\<not> strcaseeq (argv c' ! 3) ''automat''"
  shows "exp_local s' = 1 \<and> replicateCommand net' junk' peer' c' s' = None"
proof -
  obtain n c1 where g1: "getLongFromObjectOrReply c (argv c ! 1) junk ''invalid replica size.'' = (n, c1)" by fastforce
  obtain m c2 where g2: "getLongFromObjectOrReply c1 (argv c ! 2) junk ''invalid replica id.'' = (m, c2)" by fastforce
  have a: "argv c1 = argv c" "argv c2 = argv c" using getLong_argv[OF g1] getLong_argv[OF g2] by simp_all
  have "sdstolower (cstr ''exp_local'') \<noteq> sdstolower (cstr ''automat'')" by (simp add: eval_string)
  then have "\<not> strcaseeq (argv c ! 3) ''automat''" using assms(4) by (simp add: strcaseeq_def)
  then have "connect_loop net junk (by_two 4 (int (length (argv c)))) c2 (s\<lparr>p2p_count := to_int n, p2p_id := to_int m, exp_local := 1\<rparr>) [] =
      Some (d, s', peers)"
    using assms(1-5) g1 g2 a by (simp add: replicateCommand_def arg_def)
  from connect_loop_keeps[OF this] have "exp_local s' = 1" "\<not> cluster_enabled s'" using assms(1) by simp_all
  then show ?thesis using replicate_after_exp_local assms(6-8) by blast
qed

theorem replicate_exp_local_sticks_witness:
  "\<exists>d s' peers. replicateCommand (\<lambda>_ _ _. True) 7 0
      (createClient\<lparr>argv := [''REPLICATE'', ''2'', ''1'', ''EXP_LOCAL'', ''h0'', ''6379'']\<rparr>)
      (initServer [] [] (\<lambda>_. dzero) (\<lambda>_ _. 0)) = Some (d, s', peers) \<and>
    replicateCommand (\<lambda>_ _ _. True) 7 0 (createClient\<lparr>argv := [''REPLICATE'', ''2'', ''1'', ''h0'', ''6379'']\<rparr>) s' = None"
proof -
  let ?c = "createClient\<lparr>argv := [''REPLICATE'', ''2'', ''1'', ''EXP_LOCAL'', ''h0'', ''6379'']\<rparr>"
  let ?s = "initServer [] [] (\<lambda>_. dzero) (\<lambda>_ _. 0)"
  have n: "string2ll ''1'' = Some 1" "string2ll ''2'' = Some 2" "string2ll ''6379'' = Some 6379" by (simp_all add: eval_string)
  have k: "\<not> strcaseeq ''2'' ''replica''" "\<not> strcaseeq ''EXP_LOCAL'' ''automat''" "strcaseeq ''EXP_LOCAL'' ''exp_local''"
    "\<not> strcaseeq ''h0'' ''automat''" by (simp_all add: strcaseeq_def eval_string)
  have "by_two 4 6 = [4]" by (simp add: by_two.simps)
  then obtain d s' peers where r: "replicateCommand (\<lambda>_ _ _. True) 7 0 ?c ?s = Some (d, s', peers)"
    using n k by (simp add: replicateCommand_def initServer_def arg_def getLongFromObjectOrReply_def
        getLongLongFromObject_def connectWithReplica_def)
  have "\<not> cluster_enabled ?s" by (simp add: initServer_def)
  from replicate_exp_local_sticks[OF this r, of "createClient\<lparr>argv := [''REPLICATE'', ''2'', ''1'', ''h0'', ''6379'']\<rparr>" "\<lambda>_ _ _. True" 7 0] k
  have "replicateCommand (\<lambda>_ _ _. True) 7 0 (createClient\<lparr>argv := [''REPLICATE'', ''2'', ''1'', ''h0'', ''6379'']\<rparr>) s' = None"
    by simp
  with r show ?thesis by blast
qed

end
