(* ===== verification/Tables.thy ===== *)
theory Tables
  imports Crdt
begin

text \<open>
  What the key space promises the priority queues. The locale \<open>element_table\<close> is the contract of
  a table of elements: reading with \<open>create\<close> returns the stored element or a new one and stores
  it, and writing through the pointer changes that element only. It holds of the tables of all
  three queues. The sorted set of a queue is described by the entries it holds.
\<close>

section \<open>Tables of elements\<close>

definition table_of :: "server \<Rightarrow> sds \<Rightarrow> sds \<Rightarrow> hval option" where
  "table_of s name = (case hash_at s name of Some h \<Rightarrow> h | None \<Rightarrow> Map.empty)"

lemma db_put_same: "db s name = Some v \<Longrightarrow> db_put name v s = s"
  by (simp add: db_put_def fun_upd_idem)

lemma db_put_put [simp]: "db_put name v (db_put name w s) = db_put name v s"
  by (simp add: db_put_def)

lemma db_put_simps [simp]:
  "db (db_put name v s) = (db s)(name \<mapsto> v)"
  "p2p_count (db_put name v s) = p2p_count s" "p2p_id (db_put name v s) = p2p_id s"
  "replicas (db_put name v s) = replicas s" "random_draws (db_put name v s) = random_draws s"
  "zset_max_ziplist_entries (db_put name v s) = zset_max_ziplist_entries s"
  "zset_max_ziplist_value (db_put name v s) = zset_max_ziplist_value s"
  by (simp_all add: db_put_def)

lemma incr_dirty_simps [simp]:
  "db (incr_dirty s) = db s" "p2p_count (incr_dirty s) = p2p_count s" "p2p_id (incr_dirty s) = p2p_id s"
  "replicas (incr_dirty s) = replicas s"
  by (simp_all add: incr_dirty_def)

locale element_table =
  fixes inj :: "'e \<Rightarrow> hval"
    and proj :: "hval \<Rightarrow> 'e option"
    and fresh :: "int \<Rightarrow> int \<Rightarrow> 'e"
    and suffix :: sds
    and get :: "sds \<Rightarrow> sds \<Rightarrow> bool \<Rightarrow> server \<Rightarrow> ('e option \<times> server) option"
    and store :: "sds \<Rightarrow> sds \<Rightarrow> 'e \<Rightarrow> server \<Rightarrow> server option"
  assumes proj_inj [simp]: "proj v = Some e \<longleftrightarrow> v = inj e"
    and suffix_nonempty [simp]: "suffix \<noteq> []"
    and get_unfold: "get tname key create s =
      Option.bind (rehHTGet (\<lambda>s. (inj (fresh (p2p_count s) (p2p_id s)), s)) tname suffix key create s)
        (\<lambda>(v, s). case v of
           None \<Rightarrow> Some (None, s)
         | Some h \<Rightarrow> map_option (\<lambda>e. (Some e, s)) (proj h))"
    and store_unfold: "store tname key e s = hashTypeSet (tname @ suffix) key (inj e) s"
begin

text \<open>The key of a table is free or holds a hash of elements only.\<close>

definition table_ok :: "sds \<Rightarrow> server \<Rightarrow> bool" where
  "table_ok tname s \<longleftrightarrow>
     (db s (tname @ suffix) = None \<or> hash_at s (tname @ suffix) \<noteq> None) \<and>
     (\<forall>key v. table_of s (tname @ suffix) key = Some v \<longrightarrow> (\<exists>e. v = inj e))"

definition stored :: "server \<Rightarrow> sds \<Rightarrow> sds \<Rightarrow> 'e option" where
  "stored s tname key = Option.bind (table_of s (tname @ suffix) key) proj"

definition slot :: "server \<Rightarrow> sds \<Rightarrow> sds \<Rightarrow> 'e" where
  "slot s tname key = (case stored s tname key of Some e \<Rightarrow> e | None \<Rightarrow> fresh (p2p_count s) (p2p_id s))"

definition set_slot :: "sds \<Rightarrow> sds \<Rightarrow> 'e \<Rightarrow> server \<Rightarrow> server" where
  "set_slot tname key e s =
     db_put (tname @ suffix) (OHash ((table_of s (tname @ suffix))(key \<mapsto> inj e))) s"

lemma proj_of_inj [simp]: "proj (inj e) = Some e"
  by simp

lemma table_okE:
  assumes "table_ok tname s"
  obtains "db s (tname @ suffix) = None" "table_of s (tname @ suffix) = Map.empty"
  | h where "db s (tname @ suffix) = Some (OHash h)" "table_of s (tname @ suffix) = h"
  using assms by (auto simp: table_ok_def table_of_def hash_at_def split: option.splits robj.splits)

lemma get_create:
  assumes "table_ok tname s"
  shows "get tname key True s = Some (Some (slot s tname key), set_slot tname key (slot s tname key) s)"
  using assms
proof (cases rule: table_okE)
  case 1
  then show ?thesis
    by (simp add: get_unfold rehHTGet_def getInnerHT_def lookupKeyRead_def lookupKey_def dbAdd_def
        hashTypeGetValueObject_def hashTypeSet_def hash_at_def slot_def stored_def set_slot_def Let_def)
next
  case (2 h)
  show ?thesis
  proof (cases "h key")
    case None
    with 2 show ?thesis
      by (simp add: get_unfold rehHTGet_def getInnerHT_def lookupKeyRead_def lookupKey_def
          hashTypeGetValueObject_def hashTypeSet_def hash_at_def slot_def stored_def set_slot_def)
  next
    case (Some v)
    with assms 2 obtain e where e: "v = inj e" by (auto simp: table_ok_def)
    have "h(key \<mapsto> inj e) = h" using Some e by (simp add: fun_upd_idem)
    with Some 2 e show ?thesis
      by (simp add: get_unfold rehHTGet_def getInnerHT_def lookupKeyRead_def lookupKey_def
          hashTypeGetValueObject_def hash_at_def slot_def stored_def set_slot_def db_put_same)
  qed
qed

lemma get_existing:
  assumes "table_ok tname s"
  shows "get tname key False s = Some (stored s tname key, s)"
  using assms
proof (cases rule: table_okE)
  case 1
  then show ?thesis
    by (simp add: get_unfold rehHTGet_def getInnerHT_def lookupKeyRead_def lookupKey_def stored_def)
next
  case (2 h)
  moreover have "h key = Some v \<Longrightarrow> \<exists>e. v = inj e" for v using assms 2 by (auto simp: table_ok_def)
  ultimately show ?thesis
    by (cases "h key")
      (fastforce simp: get_unfold rehHTGet_def getInnerHT_def lookupKeyRead_def lookupKey_def
        hashTypeGetValueObject_def hash_at_def stored_def)+
qed

lemma table_of_set_slot:
  "table_of (set_slot tname key e s) name =
     (if name = tname @ suffix then (table_of s name)(key \<mapsto> inj e) else table_of s name)"
  by (simp add: set_slot_def table_of_def hash_at_def)

lemma table_ok_set_slot [simp]: "table_ok tname s \<Longrightarrow> table_ok tname (set_slot tname key e s)"
  by (auto simp: table_ok_def table_of_set_slot) (simp_all add: set_slot_def hash_at_def)

lemma stored_set_slot [simp]: "stored (set_slot tname key e s) tname = (stored s tname)(key \<mapsto> e)"
  by (auto simp: stored_def table_of_set_slot fun_eq_iff)

lemma set_slot_simps [simp]:
  "p2p_count (set_slot tname key e s) = p2p_count s" "p2p_id (set_slot tname key e s) = p2p_id s"
  "replicas (set_slot tname key e s) = replicas s"
  "name \<noteq> tname @ suffix \<Longrightarrow> db (set_slot tname key e s) name = db s name"
  by (simp_all add: set_slot_def)

lemma slot_set_slot [simp]: "slot (set_slot tname key e s) tname = (slot s tname)(key := e)"
  by (auto simp: slot_def fun_eq_iff split: option.split)

lemma stored_slot: "stored s tname key = Some e \<Longrightarrow> slot s tname key = e"
  by (simp add: slot_def)

lemma store_slot:
  assumes "stored s tname key \<noteq> None"
  shows "store tname key e s = Some (set_slot tname key e s)"
  using assms
  by (auto simp: store_unfold hashTypeSet_def set_slot_def stored_def table_of_def split: option.splits)

text \<open>Other keys do not matter to a table.\<close>

lemma table_cong:
  assumes "db s' (tname @ suffix) = db s (tname @ suffix)" "p2p_count s' = p2p_count s" "p2p_id s' = p2p_id s"
  shows "table_ok tname s' = table_ok tname s" "stored s' tname = stored s tname" "slot s' tname = slot s tname"
  using assms by (auto simp: table_ok_def stored_def slot_def table_of_def hash_at_def fun_eq_iff split: option.split)

end

definition rwfze_of :: "hval \<Rightarrow> rwfze option" where
  "rwfze_of v = (case v of HRwfze e \<Rightarrow> Some e | _ \<Rightarrow> None)"

definition oze_of :: "hval \<Rightarrow> oze option" where
  "oze_of v = (case v of HOze e \<Rightarrow> Some e | _ \<Rightarrow> None)"

definition rze_of :: "hval \<Rightarrow> rze option" where
  "rze_of v = (case v of HRze e \<Rightarrow> Some e | _ \<Rightarrow> None)"

interpretation rwft: element_table HRwfze rwfze_of rwfzeNew RWF_RPQ_TABLE_SUFFIX GET_RWFZE put_rwfze
proof
  show "GET_RWFZE tname key create s =
      Option.bind (rehHTGet (\<lambda>s. (HRwfze (rwfzeNew (p2p_count s) (p2p_id s)), s)) tname RWF_RPQ_TABLE_SUFFIX key create s)
        (\<lambda>(v, s). case v of None \<Rightarrow> Some (None, s) | Some h \<Rightarrow> map_option (\<lambda>e. (Some e, s)) (rwfze_of h))"
    for tname key create s
    by (auto simp: GET_RWFZE_def rwfze_of_def intro!: Option.bind_cong split: option.split hval.split)
qed (auto simp: rwfze_of_def put_rwfze_def split: hval.splits)

interpretation ozt: element_table HOze oze_of "\<lambda>_ _. ozeNew" ORI_RPQ_TABLE_SUFFIX GET_OZE put_oze
proof
  show "GET_OZE tname key create s =
      Option.bind (rehHTGet (\<lambda>s. (HOze ozeNew, s)) tname ORI_RPQ_TABLE_SUFFIX key create s)
        (\<lambda>(v, s). case v of None \<Rightarrow> Some (None, s) | Some h \<Rightarrow> map_option (\<lambda>e. (Some e, s)) (oze_of h))"
    for tname key create s
    by (auto simp: GET_OZE_def oze_of_def intro!: Option.bind_cong split: option.split hval.split)
qed (auto simp: oze_of_def put_oze_def split: hval.splits)

interpretation rzt: element_table HRze rze_of rzeNew RW_RPQ_TABLE_SUFFIX GET_RZE put_rze
proof
  show "GET_RZE tname key create s =
      Option.bind (rehHTGet (\<lambda>s. (HRze (rzeNew (p2p_count s) (p2p_id s)), s)) tname RW_RPQ_TABLE_SUFFIX key create s)
        (\<lambda>(v, s). case v of None \<Rightarrow> Some (None, s) | Some h \<Rightarrow> map_option (\<lambda>e. (Some e, s)) (rze_of h))"
    for tname key create s
    by (auto simp: GET_RZE_def rze_of_def intro!: Option.bind_cong split: option.split hval.split)
qed (auto simp: rze_of_def put_rze_def split: hval.splits)

section \<open>The sorted set of a queue\<close>

definition zcontent :: "server \<Rightarrow> sds \<Rightarrow> zentry list \<Rightarrow> bool" where
  "zcontent s tname xs \<longleftrightarrow> (case db s tname of
       None \<Rightarrow> xs = []
     | Some (OZset z) \<Rightarrow> zset_holds z xs
     | Some _ \<Rightarrow> False)"

lemma getZsetOrCreate_ok:
  assumes "zcontent s tname xs"
  obtains z where "getZsetOrCreate tname key s = Some (db_put tname (OZset z) s)" "zset_holds z xs"
proof (cases "db s tname")
  case None
  then show ?thesis
    using assms zset_holds_empty that
    by (auto simp: getZsetOrCreate_def zcontent_def lookupKeyWrite_def lookupKey_def dbAdd_def split: if_splits)
next
  case (Some v)
  then obtain z where "v = OZset z" "zset_holds z xs" using assms by (cases v) (auto simp: zcontent_def)
  then show ?thesis
    using that[of z] Some by (simp add: getZsetOrCreate_def lookupKeyWrite_def lookupKey_def db_put_same)
qed

lemma zset_set_score_ok:
  assumes "zcontent s tname xs"
  shows "\<exists>z rs. zset_set_score tname key v s = Some (db_put tname (OZset z) s\<lparr>random_draws := rs\<rparr>) \<and>
    zset_holds z (if v = NaN then xs else zins (key, v) (zdel key xs))"
proof -
  obtain z where z: "getZsetOrCreate tname key s = Some (db_put tname (OZset z) s)" "zset_holds z xs"
    using getZsetOrCreate_ok[OF assms] .
  obtain r rs where "zsetAdd (zset_max_ziplist_entries s) (zset_max_ziplist_value s) (random_draws s) z v key ZADD_NONE
      = Some (r, rs)" "zset_holds (za_obj r) (if v = NaN then xs else zins (key, v) (zdel key xs))"
    using zsetAdd_none[OF z(2)] by blast
  with z show ?thesis by (auto simp: zset_set_score_def zset_at_def db_put_def)
qed

lemma zset_del_key_ok:
  assumes "zcontent s tname xs"
  shows "\<exists>z. zset_del_key tname key s = Some (db_put tname (OZset z) s) \<and> zset_holds z (zdel key xs)"
proof -
  obtain z where z: "getZsetOrCreate tname key s = Some (db_put tname (OZset z) s)" "zset_holds z xs"
    using getZsetOrCreate_ok[OF assms] .
  obtain z' where "zsetDel z key = Some (map_of xs key \<noteq> None, z')" "zset_holds z' (zdel key xs)"
    using zsetDel_holds[OF z(2)] by blast
  with z show ?thesis by (auto simp: zset_del_key_def zset_at_def)
qed

lemma zcontent_put [simp]: "zcontent (db_put tname (OZset z) s) tname xs \<longleftrightarrow> zset_holds z xs"
  by (simp add: zcontent_def)

lemma zcontent_sorted: "zcontent s tname xs \<Longrightarrow> zsorted xs"
  by (auto simp: zcontent_def intro: zset_holds_sorted split: option.splits robj.splits)

lemma zcontent_unique: "zcontent s tname xs \<Longrightarrow> zcontent s tname ys \<Longrightarrow> map_of xs = map_of ys"
  by (auto simp: zcontent_def fun_eq_iff dest: zsetScore_holds split: option.splits robj.splits)
    (metis option.inject zsetScore_holds)

lemma zcontent_cong: "db s' tname = db s tname \<Longrightarrow> zcontent s' tname xs = zcontent s tname xs"
  by (simp add: zcontent_def)

section \<open>Queues\<close>

text \<open>What an operation on one queue leaves alone.\<close>

definition frame :: "sds \<Rightarrow> sds \<Rightarrow> server \<Rightarrow> server \<Rightarrow> bool" where
  "frame tname suffix s s' \<longleftrightarrow>
     p2p_count s' = p2p_count s \<and> p2p_id s' = p2p_id s \<and> replicas s' = replicas s \<and>
     (\<forall>name. name \<noteq> tname \<longrightarrow> name \<noteq> tname @ suffix \<longrightarrow> db s' name = db s name)"

lemma frame_refl [simp]: "frame tname suffix s s"
  by (simp add: frame_def)

lemma frame_trans: "frame tname suffix s s' \<Longrightarrow> frame tname suffix s' s'' \<Longrightarrow> frame tname suffix s s''"
  by (simp add: frame_def)

lemma frame_incr_dirty [simp]: "frame tname suffix s (incr_dirty s') \<longleftrightarrow> frame tname suffix s s'"
  by (simp add: frame_def)

text \<open>A queue is a table of elements and a sorted set. They agree when the set has exactly the
  elements that are present, with their scores.\<close>

locale queue = element_table inj proj fresh suffix get store
  for inj :: "'e \<Rightarrow> hval" and proj fresh suffix get store +
  fixes present :: "'e \<Rightarrow> bool" and score :: "'e \<Rightarrow> dbl" and wf :: "int \<Rightarrow> int \<Rightarrow> 'e \<Rightarrow> bool"
  assumes fresh_absent [simp]: "\<not> present (fresh n me)"
    and fresh_wf [simp]: "wf n me (fresh n me)"
begin

definition entry_of :: "'e \<Rightarrow> dbl option" where
  "entry_of e = (if present e then Some (score e) else None)"

definition sync :: "sds \<Rightarrow> server \<Rightarrow> bool" where
  "sync tname s \<longleftrightarrow> table_ok tname s \<and> (\<forall>key. wf (p2p_count s) (p2p_id s) (slot s tname key)) \<and>
     (\<exists>xs. zcontent s tname xs \<and> map_of xs = (\<lambda>key. entry_of (slot s tname key)))"

text \<open>The step \<open>e\<close> was read and is stored, and the server is in order.\<close>

definition holding :: "sds \<Rightarrow> sds \<Rightarrow> 'e \<Rightarrow> server \<Rightarrow> bool" where
  "holding tname key e s \<longleftrightarrow> sync tname s \<and> stored s tname key = Some e"

lemma sync_empty: "db s tname = None \<Longrightarrow> db s (tname @ suffix) = None \<Longrightarrow> sync tname s"
  by (auto simp: sync_def table_ok_def table_of_def hash_at_def zcontent_def slot_def stored_def entry_of_def
      intro!: exI[of _ "[]"])

lemma sync_cong:
  assumes "sync tname s" "db s' tname = db s tname" "db s' (tname @ suffix) = db s (tname @ suffix)"
    "p2p_count s' = p2p_count s" "p2p_id s' = p2p_id s"
  shows "sync tname s'"
  using assms table_cong[OF assms(3-5)] zcontent_cong[OF assms(2)] by (simp add: sync_def)

lemma holding_slot: "holding tname key e s \<Longrightarrow> slot s tname key = e"
  by (simp add: holding_def stored_slot)

lemma get_holding:
  assumes "sync tname s"
  obtains s' where "get tname key True s = Some (Some (slot s tname key), s')" "holding tname key (slot s tname key) s'"
    "slot s' tname = slot s tname" "frame tname suffix s s'"
proof
  let ?s' = "set_slot tname key (slot s tname key) s"
  show "get tname key True s = Some (Some (slot s tname key), ?s')" using assms get_create by (simp add: sync_def)
  show "holding tname key (slot s tname key) ?s'"
    using assms zcontent_cong[of ?s' tname s] by (simp add: holding_def sync_def)
  show "frame tname suffix s ?s'" by (simp add: frame_def)
qed simp

lemma store_frame:
  assumes "holding tname key e s"
  obtains s' where "store tname key e' s = Some s'" "stored s' tname = (stored s tname)(key \<mapsto> e')"
    "slot s' tname = (slot s tname)(key := e')" "table_ok tname s'" "frame tname suffix s s'" "db s' tname = db s tname"
  using assms store_slot[of s tname key e'] that[of "set_slot tname key e' s"]
  by (simp add: holding_def sync_def frame_def)

lemma store_quiet:
  assumes h: "holding tname key e s" and same: "entry_of e' = entry_of e" and wf: "wf (p2p_count s) (p2p_id s) e'"
  shows "\<exists>s'. store tname key e' s = Some s' \<and> holding tname key e' s' \<and>
    slot s' tname = (slot s tname)(key := e') \<and> frame tname suffix s s'"
proof -
  obtain s' where s': "store tname key e' s = Some s'" "stored s' tname = (stored s tname)(key \<mapsto> e')"
    "slot s' tname = (slot s tname)(key := e')" "table_ok tname s'" "frame tname suffix s s'" "db s' tname = db s tname"
    using store_frame[OF h] by blast
  then show ?thesis
    using h same wf holding_slot[OF h] zcontent_cong[OF s'(6)]
    by (auto simp: holding_def sync_def frame_def fun_eq_iff)
qed

lemma holding_zset:
  assumes h: "holding tname key e s"
    and s': "stored s' tname = (stored s tname)(key \<mapsto> e')" "slot s' tname = (slot s tname)(key := e')"
      "table_ok tname s'" "frame tname suffix s s'"
    and s2: "frame tname suffix s' s2" "db s2 (tname @ suffix) = db s' (tname @ suffix)"
    and wf: "wf (p2p_count s) (p2p_id s) e'"
    and xs: "zcontent s2 tname xs" "map_of xs = (\<lambda>k. entry_of (slot s tname k))(key := entry_of e')"
  shows "holding tname key e' s2 \<and> slot s2 tname = (slot s tname)(key := e') \<and> frame tname suffix s s2"
proof -
  have f: "frame tname suffix s s2" using s'(4) s2(1) by (rule frame_trans)
  have c: "table_ok tname s2" "stored s2 tname = (stored s tname)(key \<mapsto> e')" "slot s2 tname = (slot s tname)(key := e')"
    using table_cong[OF s2(2)] s2(1) s' by (simp_all add: frame_def)
  have "sync tname s2"
    using h c xs wf f by (auto simp: holding_def sync_def frame_def fun_eq_iff intro!: exI[of _ xs])
  then show ?thesis using c f by (simp add: holding_def)
qed

text \<open>Types that bring the sorted set up to date before they store the element.\<close>

lemma zset_store:
  assumes h: "holding tname key e s" and s2: "frame tname suffix s s2" "db s2 (tname @ suffix) = db s (tname @ suffix)"
    and wf: "wf (p2p_count s) (p2p_id s) e'"
    and xs: "zcontent s2 tname xs" "map_of xs = (\<lambda>k. entry_of (slot s tname k))(key := entry_of e')"
  shows "\<exists>s3. store tname key e' s2 = Some s3 \<and> holding tname key e' s3 \<and>
    slot s3 tname = (slot s tname)(key := e') \<and> frame tname suffix s s3"
proof -
  have eqs: "table_ok tname s2" "stored s2 tname = stored s tname" "slot s2 tname = slot s tname"
    using table_cong[OF s2(2)] s2(1) h by (simp_all add: frame_def holding_def sync_def)
  let ?s3 = "set_slot tname key e' s2"
  have "stored s2 tname key \<noteq> None" using eqs(2) h by (simp add: holding_def)
  then have st: "store tname key e' s2 = Some ?s3" by (rule store_slot)
  have f: "frame tname suffix s ?s3" using s2(1) by (simp add: frame_def)
  have slot: "slot ?s3 tname = (slot s tname)(key := e')" using eqs(3) by simp
  have "zcontent ?s3 tname xs" using xs(1) zcontent_cong[of ?s3 tname s2] by simp
  then have "sync tname ?s3"
    using h eqs(1) slot xs(2) wf f by (auto simp: holding_def sync_def frame_def fun_eq_iff intro!: exI[of _ xs])
  then show ?thesis using st slot f by (simp add: holding_def)
qed

lemma holding_content:
  assumes "holding tname key e s" and "db s' tname = db s tname"
  obtains xs where "zcontent s' tname xs" "map_of xs = (\<lambda>k. entry_of (slot s tname k))"
  using assms zcontent_cong[OF assms(2)] by (auto simp: holding_def sync_def)

lemma store_scored:
  assumes h: "holding tname key e s" and e': "present e'" "score e' \<noteq> NaN" and wf: "wf (p2p_count s) (p2p_id s) e'"
  shows "\<exists>s1 s2. store tname key e' s = Some s1 \<and> zset_set_score tname key (score e') s1 = Some s2 \<and>
    holding tname key e' s2 \<and> slot s2 tname = (slot s tname)(key := e') \<and> frame tname suffix s s2"
proof -
  obtain s' where s': "store tname key e' s = Some s'" "stored s' tname = (stored s tname)(key \<mapsto> e')"
    "slot s' tname = (slot s tname)(key := e')" "table_ok tname s'" "frame tname suffix s s'" "db s' tname = db s tname"
    using store_frame[OF h] by blast
  obtain xs where xs: "zcontent s' tname xs" "map_of xs = (\<lambda>k. entry_of (slot s tname k))"
    using holding_content[OF h s'(6)] .
  obtain z rs where z: "zset_set_score tname key (score e') s' = Some (db_put tname (OZset z) s'\<lparr>random_draws := rs\<rparr>)"
    "zset_holds z (zins (key, score e') (zdel key xs))"
    using zset_set_score_ok[OF xs(1)] e'(2) by fastforce
  let ?s2 = "db_put tname (OZset z) s'\<lparr>random_draws := rs\<rparr>"
  have "map_of (zins (key, score e') (zdel key xs)) = (\<lambda>k. entry_of (slot s tname k))(key := entry_of e')"
    using map_of_zins[of "(key, score e')" "zdel key xs"] xs(2) e'(1) by (simp add: map_of_zdel entry_of_def)
  then have "holding tname key e' ?s2 \<and> slot ?s2 tname = (slot s tname)(key := e') \<and> frame tname suffix s ?s2"
    using s' z(2) by (intro holding_zset[OF h s'(2-5) _ _ wf]) (simp_all add: frame_def zcontent_def)
  then show ?thesis using s'(1) z(1) by blast
qed

text \<open>A score that is not a number never reaches the sorted set, which keeps its entries.\<close>

lemma store_unscored:
  assumes h: "holding tname key e s"
  shows "\<exists>s1 s2 xs. store tname key e' s = Some s1 \<and> zset_set_score tname key NaN s1 = Some s2 \<and>
    slot s2 tname = (slot s tname)(key := e') \<and> frame tname suffix s s2 \<and>
    zcontent s2 tname xs \<and> map_of xs = (\<lambda>k. entry_of (slot s tname k))"
proof -
  obtain s' where s': "store tname key e' s = Some s'" "slot s' tname = (slot s tname)(key := e')"
    "frame tname suffix s s'" "db s' tname = db s tname"
    using store_frame[OF h] by blast
  obtain xs where xs: "zcontent s' tname xs" "map_of xs = (\<lambda>k. entry_of (slot s tname k))"
    using holding_content[OF h s'(4)] .
  obtain z rs where z: "zset_set_score tname key NaN s' = Some (db_put tname (OZset z) s'\<lparr>random_draws := rs\<rparr>)"
    "zset_holds z xs"
    using zset_set_score_ok[OF xs(1), of key NaN] by auto
  let ?s2 = "db_put tname (OZset z) s'\<lparr>random_draws := rs\<rparr>"
  have "slot ?s2 tname = slot s' tname" using table_cong[of ?s2 tname s'] by simp
  moreover have "zcontent ?s2 tname xs" using z(2) by (simp add: zcontent_def)
  moreover have "frame tname suffix s ?s2" using s'(3) by (simp add: frame_def)
  ultimately show ?thesis using s'(1,2) z(1) xs(2) by metis
qed

lemma store_absent:
  assumes h: "holding tname key e s" and e': "\<not> present e'" and wf: "wf (p2p_count s) (p2p_id s) e'"
  shows "\<exists>s1 s2. store tname key e' s = Some s1 \<and> zset_del_key tname key s1 = Some s2 \<and>
    holding tname key e' s2 \<and> slot s2 tname = (slot s tname)(key := e') \<and> frame tname suffix s s2"
proof -
  obtain s' where s': "store tname key e' s = Some s'" "stored s' tname = (stored s tname)(key \<mapsto> e')"
    "slot s' tname = (slot s tname)(key := e')" "table_ok tname s'" "frame tname suffix s s'" "db s' tname = db s tname"
    using store_frame[OF h] by blast
  obtain xs where xs: "zcontent s' tname xs" "map_of xs = (\<lambda>k. entry_of (slot s tname k))"
    using holding_content[OF h s'(6)] .
  obtain z where z: "zset_del_key tname key s' = Some (db_put tname (OZset z) s')" "zset_holds z (zdel key xs)"
    using zset_del_key_ok[OF xs(1)] by blast
  let ?s2 = "db_put tname (OZset z) s'"
  have "map_of (zdel key xs) = (\<lambda>k. entry_of (slot s tname k))(key := entry_of e')"
    using xs(2) e' by (simp add: map_of_zdel entry_of_def)
  then have "holding tname key e' ?s2 \<and> slot ?s2 tname = (slot s tname)(key := e') \<and> frame tname suffix s ?s2"
    using s' z(2) by (intro holding_zset[OF h s'(2-5) _ _ wf]) (simp_all add: frame_def)
  then show ?thesis using s'(1) z(1) by blast
qed

lemma holding_incr_dirty [simp]: "holding tname key e (incr_dirty s) \<longleftrightarrow> holding tname key e s"
  "slot (incr_dirty s) tname = slot s tname"
  using table_cong[of "incr_dirty s" tname s] zcontent_cong[of "incr_dirty s" tname s]
  by (auto simp: holding_def sync_def)

text \<open>What a reader of the sorted set sees.\<close>

lemma sync_score:
  assumes "sync tname s" "zset_at s tname = Some z"
  shows "zsetScore z key = Some (entry_of (slot s tname key))"
  using assms zsetScore_holds by (auto simp: sync_def zset_at_def zcontent_def split: option.splits robj.splits)

lemma sync_no_zset:
  assumes "sync tname s" "db s tname = None"
  shows "entry_of (slot s tname key) = None"
  using assms by (auto simp: sync_def zcontent_def fun_eq_iff)

end

section \<open>Queries\<close>

text \<open>The replies of the score and max queries are determined by the entries the set holds.\<close>

definition score_answer :: "zentry list \<Rightarrow> sds \<Rightarrow> rep" where
  "score_answer xs key = (case map_of xs key of None \<Rightarrow> RNull | Some v \<Rightarrow> RDouble v)"

definition max_answer :: "zentry list \<Rightarrow> rep list" where
  "max_answer xs = (if xs = [] then [REmptyArray] else [RArrayLen 2, RBulk (fst (last xs)), RDouble (snd (last xs))])"

lemma score_reply_content:
  assumes "zcontent s tname xs" "2 < length (argv c)" "argv c ! 1 = tname" "argv c ! 2 = key"
  shows "score_reply c s = Some (addReply (score_answer xs key) c, s)"
proof (cases "db s tname")
  case None
  then show ?thesis
    using assms by (simp add: score_reply_def lookupKeyReadOrReply_def lookupKeyRead_def lookupKey_def zcontent_def
        score_answer_def arg_def)
next
  case (Some v)
  then obtain z where "v = OZset z" "zset_holds z xs" using assms(1) by (cases v) (auto simp: zcontent_def)
  then show ?thesis
    using assms Some zsetScore_holds[of z xs key]
    by (simp add: score_reply_def lookupKeyReadOrReply_def lookupKeyRead_def lookupKey_def score_answer_def arg_def)
qed

lemma max_reply_content:
  assumes "zcontent s tname xs" "1 < length (argv c)" "argv c ! 1 = tname"
  shows "max_reply c s = Some (fold addReply (max_answer xs) c, s)"
proof (cases "db s tname")
  case None
  then show ?thesis
    using assms by (simp add: max_reply_def lookupKeyReadOrReply_def lookupKeyRead_def lookupKey_def zcontent_def
        max_answer_def arg_def)
next
  case (Some v)
  then obtain z where "v = OZset z" "zset_holds z xs" using assms(1) by (cases v) (auto simp: zcontent_def)
  then show ?thesis
    using assms Some zset_max_holds[of z xs] zsetLength_holds[of z xs]
    by (auto simp: max_reply_def lookupKeyReadOrReply_def lookupKeyRead_def lookupKey_def max_answer_def arg_def
        case_prod_beta)
qed

text \<open>The last entry of a sorted list is the largest.\<close>

lemma zsorted_last_greatest:
  assumes "zsorted xs" "x \<in> set xs" "x \<noteq> last xs"
  shows "zlt x (last xs)"
proof -
  have "xs = butlast xs @ [last xs]" using assms(2) by (metis append_butlast_last_id empty_iff empty_set)
  then have "sorted_wrt zlt (butlast xs @ [last xs])" "x \<in> set (butlast xs)"
    using assms unfolding zsorted_def by (metis, metis UnE empty_iff empty_set set_ConsD set_append)
  then show ?thesis by (simp add: sorted_wrt_append)
qed

end
