(* ===== verification/RwfZset.thy ===== *)
theory RwfZset
  imports Crdt Tables
begin

text \<open>
  The commands of the remove-win priority queue, \<open>t_rwfzset.c\<close>. The effect phases are shown to
  do to the stored element what \<open>rz.step\<close> does, and to keep the sorted set in step with the
  elements: an element is in the set exactly when it exists, with its score.
\<close>

section \<open>Commands\<close>

definition rwfz_removeFunc :: "sds \<Rightarrow> sds \<Rightarrow> rwfze \<Rightarrow> vc \<Rightarrow> server \<Rightarrow> (rwfze \<times> server) option" where
  "rwfz_removeFunc tname key e t s = do {
     (b, h) \<leftarrow> removeCheck (rwfze_header e) t;
     if b then do {
       let e = rwfz_reset (rwfz_put h e);
       s \<leftarrow> put_rwfze tname key e s;
       s \<leftarrow> zset_del_key tname key s;
       Some (e, incr_dirty s)
     }
     else Some (e, s)
   }"

definition rwfzadd_prepare :: prepare where
  "rwfzadd_prepare c s =
     after_checks (then_check (then_check (CHECK_ARGC 4 c) (CHECK_CONTAINER_TYPE is_zset s)) (CHECK_ARG_TYPE_DOUBLE 3)) s
       (\<lambda>c. do {
          tname \<leftarrow> arg (argv c) 1;
          key \<leftarrow> arg (argv c) 2;
          (p, s) \<leftarrow> GET_RWFZE tname key True s;
          e \<leftarrow> p;
          if EXISTS (rwfze_header e) then Some (Done (addReply ele_exist c), s)
          else do {
            x \<leftarrow> vcToSds (reh_current (rwfze_header e));
            Some (Go (RARGV_ADD_SDS x c), s)
          }
        })"

definition rwfzadd_effect :: effect where
  "rwfzadd_effect c s = do {
     args \<leftarrow> rargv c;
     a \<leftarrow> arg args 3;
     v \<leftarrow> getDoubleFromObject a;
     t \<leftarrow> CR_GET_LAST args;
     tname \<leftarrow> arg args 1;
     key \<leftarrow> arg args 2;
     (p, s) \<leftarrow> GET_RWFZE tname key True s;
     e \<leftarrow> p;
     (e, s) \<leftarrow> rwfz_removeFunc tname key e t s;
     let (b, h) = addCheck (rwfze_header e) t;
     if b then do {
       let e = rwfz_innate v (rwfz_put h e);
       s \<leftarrow> put_rwfze tname key e s;
       s \<leftarrow> zset_set_score tname key (rwfz_SCORE e) s;
       Some (c, incr_dirty s)
     }
     else Some (c, s)
   }"

definition rwfzaddCommand :: "client \<Rightarrow> server \<Rightarrow> (client \<times> server) option" where
  "rwfzaddCommand = CRDT_COMMAND rwfzadd_prepare rwfzadd_effect"

definition rwfzincrby_prepare :: prepare where
  "rwfzincrby_prepare c s =
     after_checks (then_check (then_check (CHECK_ARGC 4 c) (CHECK_CONTAINER_TYPE is_zset s)) (CHECK_ARG_TYPE_DOUBLE 3)) s
       (\<lambda>c. do {
          tname \<leftarrow> arg (argv c) 1;
          key \<leftarrow> arg (argv c) 2;
          (p, s) \<leftarrow> GET_RWFZE tname key False s;
          (case p of
             None \<Rightarrow> Some (Done (addReply ele_nexist c), s)
           | Some e \<Rightarrow>
               if \<not> EXISTS (rwfze_header e) then Some (Done (addReply ele_nexist c), s)
               else do {
                 x \<leftarrow> vcToSds (reh_current (rwfze_header e));
                 Some (Go (RARGV_ADD_SDS x c), s)
               })
        })"

definition rwfzincrby_effect :: effect where
  "rwfzincrby_effect c s = do {
     args \<leftarrow> rargv c;
     a \<leftarrow> arg args 3;
     v \<leftarrow> getDoubleFromObject a;
     t \<leftarrow> CR_GET_LAST args;
     tname \<leftarrow> arg args 1;
     key \<leftarrow> arg args 2;
     (p, s) \<leftarrow> GET_RWFZE tname key True s;
     e \<leftarrow> p;
     (e, s) \<leftarrow> rwfz_removeFunc tname key e t s;
     let (b, h) = updateCheck (rwfze_header e) t;
     if b then do {
       let e = rwfz_acquire v (rwfz_put h e);
       s \<leftarrow> put_rwfze tname key e s;
       s \<leftarrow> zset_set_score tname key (rwfz_SCORE e) s;
       Some (c, incr_dirty s)
     }
     else Some (c, s)
   }"

definition rwfzincrbyCommand :: "client \<Rightarrow> server \<Rightarrow> (client \<times> server) option" where
  "rwfzincrbyCommand = CRDT_COMMAND rwfzincrby_prepare rwfzincrby_effect"

definition rwfzrem_prepare :: prepare where
  "rwfzrem_prepare c s =
     after_checks (then_check (CHECK_ARGC 3 c) (CHECK_CONTAINER_TYPE is_zset s)) s
       (\<lambda>c. do {
          tname \<leftarrow> arg (argv c) 1;
          key \<leftarrow> arg (argv c) 2;
          (p, s) \<leftarrow> GET_RWFZE tname key False s;
          (case p of
             None \<Rightarrow> Some (Done (addReply ele_nexist c), s)
           | Some e \<Rightarrow>
               if \<not> EXISTS (rwfze_header e) then Some (Done (addReply ele_nexist c), s)
               else do {
                 x \<leftarrow> vc_now (reh_current (rwfze_header e));
                 Some (Go (RARGV_ADD_SDS x c), s)
               })
        })"

definition rwfzrem_effect :: effect where
  "rwfzrem_effect c s = do {
     args \<leftarrow> rargv c;
     tname \<leftarrow> arg args 1;
     key \<leftarrow> arg args 2;
     (p, s) \<leftarrow> GET_RWFZE tname key True s;
     t \<leftarrow> CR_GET_LAST args;
     e \<leftarrow> p;
     (e, s) \<leftarrow> rwfz_removeFunc tname key e t s;
     Some (c, s)
   }"

definition rwfzremCommand :: "client \<Rightarrow> server \<Rightarrow> (client \<times> server) option" where
  "rwfzremCommand = CRDT_COMMAND rwfzrem_prepare rwfzrem_effect"

definition rwfzscoreCommand :: "client \<Rightarrow> server \<Rightarrow> (client \<times> server) option" where
  "rwfzscoreCommand c s = score_reply c s"

definition rwfzmaxCommand :: "client \<Rightarrow> server \<Rightarrow> (client \<times> server) option" where
  "rwfzmaxCommand c s = max_reply c s"

section \<open>The effects do what the framework says\<close>

definition rwfz_wf :: "int \<Rightarrow> int \<Rightarrow> rwfze \<Rightarrow> bool" where
  "rwfz_wf n me e \<longleftrightarrow> vc_size (reh_current (rwfze_header e)) = nat n \<and> vc_id (reh_current (rwfze_header e)) = me"

interpretation rwfq: queue HRwfze rwfze_of rwfzeNew RWF_RPQ_TABLE_SUFFIX GET_RWFZE put_rwfze
  "\<lambda>e. EXISTS (rwfze_header e)" rwfz_SCORE rwfz_wf
  by unfold_locales (simp_all add: rwfzeNew_def REH_INIT_def EXISTS_def rwfz_wf_def vc_new_def)

lemma rwfz_wf_size: "rwfz_wf n me e \<Longrightarrow> vc_size (reh_current (rwfze_header e)) = nat n"
  by (simp add: rwfz_wf_def)

lemma rwfz_wf_put: "rwfz_wf n me e \<Longrightarrow> vc_size (reh_current h) = nat n \<Longrightarrow> vc_id (reh_current h) = me \<Longrightarrow> rwfz_wf n me (rwfz_put h e)"
  by (simp add: rwfz_wf_def)

lemma rwfz_wf_removing: "rwfz_wf n me e \<Longrightarrow> rwfz_wf n me (rz.removing t e)"
  by (simp add: rwfz_wf_def rz.removing_def REH_RMV_FUNC_def)

lemma rwfz_wf_bodies [simp]:
  "rwfz_wf n me (rwfz_innate v e) = rwfz_wf n me e" "rwfz_wf n me (rwfz_acquire v e) = rwfz_wf n me e"
  by (simp_all add: rwfz_wf_def rwfz_bodies)

lemma rwfz_holding_wf: "rwfq.holding tname key e s \<Longrightarrow> rwfz_wf (p2p_count s) (p2p_id s) e"
  by (metis rwfq.holding_def rwfq.holding_slot rwfq.sync_def)

lemma rwfz_removeFunc_ok:
  assumes h: "rwfq.holding tname key e s" and t: "vc_size t = nat (p2p_count s)"
  shows "\<exists>s'. rwfz_removeFunc tname key e t s = Some (rz.removing t e, s') \<and> rwfq.holding tname key (rz.removing t e) s' \<and>
    rwft.slot s' tname = (rwft.slot s tname)(key := rz.removing t e) \<and> frame tname RWF_RPQ_TABLE_SUFFIX s s'"
proof (cases "vle (vc_vector t) (vc_vector (reh_current (rwfze_header e)))")
  case True
  then show ?thesis
    using h t rwfz_wf_size[OF rwfz_holding_wf[OF h]] rwfq.holding_slot[OF h]
    by (auto simp: rwfz_removeFunc_def rwf_simps rz.removing_def)
next
  case False
  let ?e = "rz.removing t e"
  have e: "?e = rwfz_reset (rwfz_put (REH_RMV_FUNC (rwfze_header e) t) e)" using False by (simp add: rz.removing_def)
  have "\<not> EXISTS (rwfze_header ?e)" unfolding e by (simp add: EXISTS_def REH_RMV_FUNC_def)
  from rwfq.store_absent[OF h this rwfz_wf_removing[OF rwfz_holding_wf[OF h]]]
  show ?thesis
    using False t rwfz_wf_size[OF rwfz_holding_wf[OF h]] by (auto simp: rwfz_removeFunc_def rwf_simps e)
qed

text \<open>The common part of the three effects: the element is read, the removal that the operation
  carries is applied, and a check decides whether the operation itself is.\<close>

definition rwfz_done :: "sds \<Rightarrow> sds \<Rightarrow> rwfz_op \<Rightarrow> client \<Rightarrow> server \<Rightarrow> (client \<times> server) option \<Rightarrow> bool" where
  "rwfz_done tname key p c s r \<longleftrightarrow> (\<exists>s'. r = Some (c, s') \<and>
     rwft.slot s' tname = (rwft.slot s tname)(key := rz.step p (rwft.slot s tname key)) \<and>
     frame tname RWF_RPQ_TABLE_SUFFIX s s' \<and>
     (if rwfz_SCORE (rz.step p (rwft.slot s tname key)) \<noteq> NaN then rwfq.sync tname s'
      else \<exists>xs. zcontent s' tname xs \<and>
        map_of xs = (\<lambda>k. rwfq.entry_of (rwft.slot s tname k))(key := rwfq.entry_of (rz.removing (op_clock p) (rwft.slot s tname key)))))"

lemma rwfz_effect_head:
  assumes sync: "rwfq.sync tname s" and t: "vc_size t = nat (p2p_count s)"
  obtains s1 s2 where "GET_RWFZE tname key True s = Some (Some (rwft.slot s tname key), s1)"
    and "rwfz_removeFunc tname key (rwft.slot s tname key) t s1 = Some (rz.removing t (rwft.slot s tname key), s2)"
    and "rwfq.holding tname key (rz.removing t (rwft.slot s tname key)) s2"
    and "rwft.slot s2 tname = (rwft.slot s tname)(key := rz.removing t (rwft.slot s tname key))"
    and "frame tname RWF_RPQ_TABLE_SUFFIX s s2"
proof -
  obtain s1 where s1: "GET_RWFZE tname key True s = Some (Some (rwft.slot s tname key), s1)"
    "rwfq.holding tname key (rwft.slot s tname key) s1" "rwft.slot s1 tname = rwft.slot s tname"
    "frame tname RWF_RPQ_TABLE_SUFFIX s s1"
    using rwfq.get_holding[OF sync] by blast
  moreover have "p2p_count s1 = p2p_count s" using s1(4) by (simp add: frame_def)
  ultimately show ?thesis
    using rwfz_removeFunc_ok[OF s1(2), of t] t that frame_trans[OF s1(4)] by fastforce
qed

lemma rwfz_effect_tail:
  assumes h: "rwfq.holding tname key e1 s2"
    and s2: "rwft.slot s2 tname = (rwft.slot s tname)(key := e1)" "frame tname RWF_RPQ_TABLE_SUFFIX s s2"
    and chk: "b \<Longrightarrow> EXISTS hd' \<and> reh_current hd' = reh_current (rwfze_header e1)"
    and step: "rz.step p (rwft.slot s tname key) = (if b then f (rwfz_put hd' e1) else e1)"
    and f: "\<And>e. rwfze_header (f e) = rwfze_header e"
    and e1: "e1 = rz.removing (op_clock p) (rwft.slot s tname key)"
  shows "rwfz_done tname key p c s (if b then do {
      let e = f (rwfz_put hd' e1);
      s \<leftarrow> put_rwfze tname key e s2;
      s \<leftarrow> zset_set_score tname key (rwfz_SCORE e) s;
      Some (c, incr_dirty s)
    } else Some (c, s2))"
proof -
  let ?e2 = "f (rwfz_put hd' e1)"
  have sync: "rwfq.sync tname s2" using h by (simp add: rwfq.holding_def)
  consider (skip) "\<not> b" | (num) b "rwfz_SCORE ?e2 \<noteq> NaN" | (nan) b "rwfz_SCORE ?e2 = NaN" by blast
  then show ?thesis
  proof cases
    case skip
    have "\<exists>xs. zcontent s2 tname xs \<and> map_of xs = (\<lambda>k. rwfq.entry_of (rwft.slot s tname k))(key := rwfq.entry_of e1)"
      using sync s2(1) by (auto simp: rwfq.sync_def fun_eq_iff)
    then show ?thesis using skip sync s2 step e1 by (auto simp: rwfz_done_def simp del: rz.step.simps)
  next
    case num
    have "rwfz_wf (p2p_count s2) (p2p_id s2) ?e2" "EXISTS (rwfze_header ?e2)"
      using rwfz_holding_wf[OF h] chk[OF num(1)] f by (simp_all add: rwfz_wf_def)
    then obtain s3 s4 where "put_rwfze tname key ?e2 s2 = Some s3" "zset_set_score tname key (rwfz_SCORE ?e2) s3 = Some s4"
      "rwfq.holding tname key ?e2 s4" "rwft.slot s4 tname = (rwft.slot s2 tname)(key := ?e2)"
      "frame tname RWF_RPQ_TABLE_SUFFIX s2 s4"
      using rwfq.store_scored[OF h _ num(2)] by blast
    then show ?thesis
      using num s2 step frame_trans[OF s2(2)] rwfq.holding_incr_dirty(1)[of tname key ?e2 s4]
      by (auto simp: rwfz_done_def rwfq.holding_def simp del: rz.step.simps)
  next
    case nan
    obtain s3 s4 xs where s4: "put_rwfze tname key ?e2 s2 = Some s3" "zset_set_score tname key NaN s3 = Some s4"
      "rwft.slot s4 tname = (rwft.slot s2 tname)(key := ?e2)" "frame tname RWF_RPQ_TABLE_SUFFIX s2 s4"
      "zcontent s4 tname xs" "map_of xs = (\<lambda>k. rwfq.entry_of (rwft.slot s2 tname k))"
      using rwfq.store_unscored[OF h] by blast
    have "zcontent (incr_dirty s4) tname xs" using s4(5) by (simp add: zcontent_def)
    moreover have "map_of xs = (\<lambda>k. rwfq.entry_of (rwft.slot s tname k))(key := rwfq.entry_of e1)"
      using s4(6) s2(1) by auto
    ultimately show ?thesis
      using nan s2 step s4(1-4) frame_trans[OF s2(2) s4(4)] e1
      by (auto simp: rwfz_done_def simp del: rz.step.simps)
  qed
qed

text \<open>What the arguments of a broadcast operation denote.\<close>

fun rwfz_args :: "rwfz_op \<Rightarrow> sds list \<Rightarrow> bool" where
  "rwfz_args (RAdd t v) args \<longleftrightarrow> 3 < length args \<and> string2d (args ! 3) = Some v \<and> sdsToVC (last args) = Some t"
| "rwfz_args (RUpd t v) args \<longleftrightarrow> 3 < length args \<and> string2d (args ! 3) = Some v \<and> sdsToVC (last args) = Some t"
| "rwfz_args (RRmv t) args \<longleftrightarrow> 2 < length args \<and> sdsToVC (last args) = Some t"

fun rwfz_effect :: "rwfz_op \<Rightarrow> effect" where
  "rwfz_effect (RAdd t v) = rwfzadd_effect"
| "rwfz_effect (RUpd t v) = rwfzincrby_effect"
| "rwfz_effect (RRmv t) = rwfzrem_effect"

lemma rwfz_effect_done:
  assumes sync: "rwfq.sync tname s" and t: "vc_size (op_clock p) = nat (p2p_count s)" "op_ids_ok p"
    and args: "rargv c = Some args" "rwfz_args p args" "args ! 1 = tname" "args ! 2 = key"
  shows "rwfz_done tname key p c s (rwfz_effect p c s)"
proof -
  let ?e = "rwft.slot s tname key" and ?e1 = "rz.removing (op_clock p) (rwft.slot s tname key)"
  obtain s1 s2 where h: "GET_RWFZE tname key True s = Some (Some ?e, s1)"
    "rwfz_removeFunc tname key ?e (op_clock p) s1 = Some (?e1, s2)" "rwfq.holding tname key ?e1 s2"
    "rwft.slot s2 tname = (rwft.slot s tname)(key := ?e1)" "frame tname RWF_RPQ_TABLE_SUFFIX s s2"
    using rwfz_effect_head[OF sync t(1)] .
  show ?thesis
  proof (cases p)
    case (RAdd u v)
    obtain b hd' where chk: "addCheck (rwfze_header ?e1) u = (b, hd')" by (cases "addCheck (rwfze_header ?e1) u")
    have ex: "b \<Longrightarrow> EXISTS hd' \<and> reh_current hd' = reh_current (rwfze_header ?e1)"
      and st: "rz.step p ?e = (if b then rwfz_innate v (rwfz_put hd' ?e1) else ?e1)"
      using chk t(2) RAdd by (auto simp: addCheck_def EXISTS_def Let_def split: if_splits)
    show ?thesis
      using rwfz_effect_tail[where f = "rwfz_innate v" and c = c, OF h(3-5) ex st _ refl] h(1,2) args chk RAdd
      by (auto simp: rwfzadd_effect_def getDoubleFromObject_def CR_GET_LAST_def arg_def rwfz_innate_def)
  next
    case (RUpd u v)
    obtain b hd' where chk: "updateCheck (rwfze_header ?e1) u = (b, hd')" by (cases "updateCheck (rwfze_header ?e1) u")
    have ex: "b \<Longrightarrow> EXISTS hd' \<and> reh_current hd' = reh_current (rwfze_header ?e1)"
      and st: "rz.step p ?e = (if b then rwfz_acquire v (rwfz_put hd' ?e1) else ?e1)"
      using chk t(2) RUpd by (auto simp: updateCheck_def EXISTS_def Let_def split: if_splits)
    show ?thesis
      using rwfz_effect_tail[where f = "rwfz_acquire v" and c = c, OF h(3-5) ex st _ refl] h(1,2) args chk RUpd
      by (auto simp: rwfzincrby_effect_def getDoubleFromObject_def CR_GET_LAST_def arg_def rwfz_acquire_def)
  next
    case (RRmv u)
    obtain xs where xs: "zcontent s2 tname xs" "map_of xs = (\<lambda>k. rwfq.entry_of (rwft.slot s2 tname k))"
      using rwfq.holding_content[OF h(3) refl] .
    have "map_of xs = (\<lambda>k. rwfq.entry_of (rwft.slot s tname k))(key := rwfq.entry_of ?e1)" using xs(2) h(4) by auto
    then show ?thesis
      using h args xs(1) RRmv by (auto simp: rwfzrem_effect_def CR_GET_LAST_def arg_def rwfz_done_def rwfq.holding_def)
  qed
qed

lemma rwfz_done_numeric:
  assumes "rwfz_done tname key p c s r" "rwfz_SCORE (rz.step p (rwft.slot s tname key)) \<noteq> NaN"
  obtains s' where "r = Some (c, s')" "rwfq.sync tname s'"
    "rwft.slot s' tname = (rwft.slot s tname)(key := rz.step p (rwft.slot s tname key))" "frame tname RWF_RPQ_TABLE_SUFFIX s s'"
  using assms by (auto simp: rwfz_done_def simp del: rz.step.simps)

section \<open>Receiving operations in any order\<close>

fun rwfz_receive :: "(rwfz_op \<times> client) list \<Rightarrow> server \<Rightarrow> server option" where
  "rwfz_receive [] s = Some s"
| "rwfz_receive ((p, c) # msgs) s = do {
     (c, s) \<leftarrow> rwfz_effect p c s;
     rwfz_receive msgs s
   }"

text \<open>A well-formed operation on the queue \<open>tname\<close> of \<open>n\<close> replicas.\<close>

definition msg_args :: "rwfz_op \<times> client \<Rightarrow> sds list" where
  "msg_args m = (case rargv (snd m) of Some args \<Rightarrow> args | None \<Rightarrow> [])"

definition msg_key :: "rwfz_op \<times> client \<Rightarrow> sds" where
  "msg_key m = msg_args m ! 2"

definition msg_ok :: "sds \<Rightarrow> nat \<Rightarrow> rwfz_op \<times> client \<Rightarrow> bool" where
  "msg_ok tname n m \<longleftrightarrow> rargv (snd m) \<noteq> None \<and> rwfz_args (fst m) (msg_args m) \<and> msg_args m ! 1 = tname \<and>
     vc_size (op_clock (fst m)) = n \<and> op_ids_ok (fst m)"

definition msg_ops :: "sds \<Rightarrow> (rwfz_op \<times> client) list \<Rightarrow> rwfz_op list" where
  "msg_ops key msgs = map fst (filter (\<lambda>m. msg_key m = key) msgs)"

lemma rwfz_receive_snoc:
  "rwfz_receive (msgs @ [(p, c)]) s =
     Option.bind (rwfz_receive msgs s) (\<lambda>s. map_option snd (rwfz_effect p c s))"
proof (induction msgs arbitrary: s)
  case Nil
  show ?case by (cases "rwfz_effect p c s") auto
next
  case (Cons m msgs)
  obtain q d where "m = (q, d)" by fastforce
  with Cons show ?case by (cases "rwfz_effect q d s") auto
qed

lemma msg_ops_wf:
  assumes "list_all (msg_ok tname n) msgs"
  shows "rwf_history n (msg_ops key msgs)" "list_all op_ids_ok (msg_ops key msgs)"
  using assms by (auto simp: msg_ops_def rwf_history_def msg_ok_def list_all_iff)

text \<open>Every element ends in the state the framework computes from the operations on its key.\<close>

lemma rwfz_receive_numeric:
  assumes n: "p2p_count s = int n" and new: "db s tname = None" "db s (tname @ RWF_RPQ_TABLE_SUFFIX) = None"
    and msgs: "list_all (msg_ok tname n) msgs"
    and num: "\<And>k key. rwfz_SCORE (rz.run (msg_ops key (take k msgs)) (rwfzeNew (int n) (p2p_id s))) \<noteq> NaN"
  shows "\<exists>s'. rwfz_receive msgs s = Some s' \<and> rwfq.sync tname s' \<and> frame tname RWF_RPQ_TABLE_SUFFIX s s' \<and>
    rwft.slot s' tname = (\<lambda>key. rz.run (msg_ops key msgs) (rwfzeNew (int n) (p2p_id s)))"
  using msgs num
proof (induction msgs rule: rev_induct)
  case Nil
  have "rwft.slot s tname = (\<lambda>key. rwfzeNew (int n) (p2p_id s))"
    using new n by (simp add: rwft.slot_def rwft.stored_def table_of_def hash_at_def fun_eq_iff)
  then show ?case using rwfq.sync_empty[OF new] by (simp add: msg_ops_def)
next
  case (snoc m msgs)
  obtain p c where m: "m = (p, c)" by fastforce
  have "rwfz_SCORE (rz.run (msg_ops key (take k msgs)) (rwfzeNew (int n) (p2p_id s))) \<noteq> NaN" for k key
    using snoc.prems(2)[of key "min k (length msgs)"] by (simp add: min_def split: if_splits)
  then obtain s1 where s1: "rwfz_receive msgs s = Some s1" "rwfq.sync tname s1" "frame tname RWF_RPQ_TABLE_SUFFIX s s1"
    "rwft.slot s1 tname = (\<lambda>key. rz.run (msg_ops key msgs) (rwfzeNew (int n) (p2p_id s)))"
    using snoc by auto
  let ?key = "msg_key m"
  have ok: "msg_ok tname n m" using snoc.prems(1) by simp
  have "rz.step p (rwft.slot s1 tname ?key) = rz.run (msg_ops ?key (msgs @ [m])) (rwfzeNew (int n) (p2p_id s))"
    by (simp add: s1(4) msg_ops_def m del: rz.step.simps)
  then have num: "rwfz_SCORE (rz.step p (rwft.slot s1 tname ?key)) \<noteq> NaN"
    using snoc.prems(2)[of ?key "Suc (length msgs)"] by simp
  have "rwfz_done tname ?key p c s1 (rwfz_effect p c s1)"
    using rwfz_effect_done[OF s1(2), of p c "msg_args m" ?key] ok s1(3) n
    by (auto simp: msg_ok_def msg_args_def msg_key_def m frame_def split: option.splits)
  from rwfz_done_numeric[OF this num] obtain s2 where s2: "rwfz_effect p c s1 = Some (c, s2)" "rwfq.sync tname s2"
    "rwft.slot s2 tname = (rwft.slot s1 tname)(?key := rz.step p (rwft.slot s1 tname ?key))"
    "frame tname RWF_RPQ_TABLE_SUFFIX s1 s2" .
  have "rwft.slot s2 tname = (\<lambda>key. rz.run (msg_ops key (msgs @ [m])) (rwfzeNew (int n) (p2p_id s)))"
    unfolding s2(3) s1(4) by (auto simp: fun_eq_iff msg_ops_def m simp del: rz.step.simps)
  then show ?case using s1 s2 frame_trans[OF s1(3) s2(4)] by (simp add: m rwfz_receive_snoc)
qed

lemma rwfz_receive_ok:
  assumes n: "p2p_count s = int n" and new: "db s tname = None" "db s (tname @ RWF_RPQ_TABLE_SUFFIX) = None"
    and msgs: "list_all (msg_ok tname n) msgs" and ex: "\<And>key. exact_values (op_values (msg_ops key msgs))"
  shows "\<exists>s'. rwfz_receive msgs s = Some s' \<and> rwfq.sync tname s' \<and> frame tname RWF_RPQ_TABLE_SUFFIX s s' \<and>
    rwft.slot s' tname = (\<lambda>key. rz.run (msg_ops key msgs) (rwfzeNew (int n) (p2p_id s)))"
proof (rule rwfz_receive_numeric[OF n new msgs])
  fix k key
  have "msg_ops key msgs = msg_ops key (take k msgs) @ msg_ops key (drop k msgs)"
    unfolding msg_ops_def by (simp flip: map_append filter_append)
  then have "exact_values (op_values (msg_ops key (take k msgs)))"
    using exact_values_sub[OF ex[of key]] by simp
  moreover have "list_all (msg_ok tname n) (take k msgs)" using msgs by (auto simp: list_all_iff dest: in_set_takeD)
  ultimately show "rwfz_SCORE (rz.run (msg_ops key (take k msgs)) (rwfzeNew (int n) (p2p_id s))) \<noteq> NaN"
    using rwfz_score_numeric[OF msg_ops_wf] by simp
qed

lemma rwfz_entry_any_me: "rwfq.entry_of (rwfz_view n me hs) = rwfq.entry_of (rwfz_view n me' hs)"
  unfolding rwfq.entry_of_def rwfz_view_def Let_def by (simp add: EXISTS_def rwfz_SCORE_def)

section \<open>Properties\<close>

text \<open>C8: an effect phase of the remove-win priority queue never fails and implements the
  framework. On a replica whose sorted set agrees with its elements, applying a broadcast add,
  increment or removal changes the stored element as \<open>rz.step\<close> prescribes and changes no other
  element and no other key. When the new score is a number, the sorted set then holds exactly the
  existing elements with their scores. When it is not a number, as after increments by both
  infinities, the sorted set keeps what it held once the removal that the operation carries was
  applied.\<close>

theorem rwfz_effect_refines:
  assumes "rwfq.sync tname s" and "vc_size (op_clock p) = nat (p2p_count s)" and "op_ids_ok p"
    and "rargv c = Some args" and "rwfz_args p args" and "args ! 1 = tname" and "args ! 2 = key"
  shows "\<exists>s'. rwfz_effect p c s = Some (c, s') \<and>
    rwft.slot s' tname = (rwft.slot s tname)(key := rz.step p (rwft.slot s tname key)) \<and>
    frame tname RWF_RPQ_TABLE_SUFFIX s s' \<and>
    (if rwfz_SCORE (rz.step p (rwft.slot s tname key)) \<noteq> NaN then rwfq.sync tname s'
     else \<exists>xs. zcontent s' tname xs \<and>
       map_of xs = (\<lambda>k. rwfq.entry_of (rwft.slot s tname k))(key := rwfq.entry_of (rz.removing (op_clock p) (rwft.slot s tname key))))"
  using rwfz_effect_done[OF assms] by (simp only: rwfz_done_def)

theorem rwfz_effect_refines_witness:
  "\<exists>s'. rwfzadd_effect (createClient\<lparr>rargv := Some [''rwfzadd'', ''q'', ''k'', ''5'', ''0,0|1'']\<rparr>)
      ((initServer [] [] (\<lambda>_. dzero) (\<lambda>_ _. 0))\<lparr>p2p_count := 2, p2p_id := 0\<rparr>) =
    Some (createClient\<lparr>rargv := Some [''rwfzadd'', ''q'', ''k'', ''5'', ''0,0|1'']\<rparr>, s') \<and>
    rwfz_SCORE (rwft.slot s' ''q'' ''k'') = Fin 5 \<and> EXISTS (rwfze_header (rwft.slot s' ''q'' ''k''))"
proof -
  let ?s = "(initServer [] [] (\<lambda>_. dzero) (\<lambda>_ _. 0))\<lparr>p2p_count := 2, p2p_id := 0\<rparr>"
  let ?args = "[''rwfzadd'', ''q'', ''k'', ''5'', ''0,0|1'']"
  let ?p = "RAdd \<lparr>vc_vector = [0, 0], vc_id = 1\<rparr> (Fin 5) :: rwfz_op"
  have v: "string2d ''5'' = Some (Fin 5)" using dround_of_int[of 5] by (simp add: eval_double)
  have t: "sdsToVC ''0,0|1'' = Some \<lparr>vc_vector = [0, 0], vc_id = 1\<rparr>" by (simp add: eval_vc)
  have sync: "rwfq.sync ''q'' ?s" by (rule rwfq.sync_empty) (simp_all add: initServer_def)
  have slot: "rwft.slot ?s ''q'' ''k'' = rwfzeNew 2 0"
    by (simp add: rwft.slot_def rwft.stored_def table_of_def hash_at_def initServer_def)
  have step: "rz.step ?p (rwfzeNew 2 0) =
      \<lparr>rwfze_header = \<lparr>reh_pid = 1, reh_current = \<lparr>vc_vector = [0, 0], vc_id = 0\<rparr>\<rparr>, rwfze_innate = Fin 5, rwfze_acquired = dzero\<rparr>"
    by (simp add: rz.removing_def rwfzeNew_def REH_INIT_def vc_new_def vle_def addCheck_def clock_simps rwfz_bodies
        numeral_2_eq_2)
  have sc: "rwfz_SCORE (rz.step ?p (rwfzeNew 2 0)) = Fin 5"
    unfolding step using dround_of_int[of 5] by (simp add: rwfz_SCORE_def)
  show ?thesis
    using rwfz_effect_refines[OF sync, of ?p "createClient\<lparr>rargv := Some ?args\<rparr>" ?args "''k''"] v t slot sc step
    by (auto simp: initServer_def EXISTS_def simp del: rz.step.simps)
qed

text \<open>C5: replicas of a remove-win priority queue converge. Two replicas that have received the
  same operations on a queue, each in its own order, answer every score query and every max query
  alike, and hold the same entries. For every element, no replica may have issued two adds with the
  current clock, and the scores and increments have to be whole numbers whose absolute values sum up
  to at most \<open>2\<close> to the power 53.\<close>

theorem rwfz_replicas_converge:
  assumes n: "p2p_count s1 = int n" "p2p_count s2 = int n"
    and new: "db s1 tname = None" "db s1 (tname @ RWF_RPQ_TABLE_SUFFIX) = None"
      "db s2 tname = None" "db s2 (tname @ RWF_RPQ_TABLE_SUFFIX) = None"
    and ok: "list_all (msg_ok tname n) msgs1" "list_all (msg_ok tname n) msgs2"
    and same: "\<And>key. mset (msg_ops key msgs1) = mset (msg_ops key msgs2)"
    and uniq: "\<And>key. adds_unique (current_ops n (msg_ops key msgs1))"
    and ex: "\<And>key. exact_values (op_values (msg_ops key msgs1))"
  shows "\<exists>s1' s2' xs. rwfz_receive msgs1 s1 = Some s1' \<and> rwfz_receive msgs2 s2 = Some s2' \<and>
    zcontent s1' tname xs \<and> zcontent s2' tname xs \<and>
    (\<forall>q. 2 < length (argv q) \<and> argv q ! 1 = tname \<longrightarrow>
      rwfzscoreCommand q s1' = Some (addReply (score_answer xs (argv q ! 2)) q, s1') \<and>
      rwfzscoreCommand q s2' = Some (addReply (score_answer xs (argv q ! 2)) q, s2') \<and>
      rwfzmaxCommand q s1' = Some (fold addReply (max_answer xs) q, s1') \<and>
      rwfzmaxCommand q s2' = Some (fold addReply (max_answer xs) q, s2'))"
proof -
  have ex2: "exact_values (op_values (msg_ops key msgs2))" for key
    using exact_values_perm[OF ex[of key] op_values_mset[OF same[of key, symmetric]]] by simp
  obtain s1' where s1': "rwfz_receive msgs1 s1 = Some s1'" "rwfq.sync tname s1'"
    "rwft.slot s1' tname = (\<lambda>key. rz.run (msg_ops key msgs1) (rwfzeNew (int n) (p2p_id s1)))"
    using rwfz_receive_ok[OF n(1) new(1,2) ok(1) ex] by blast
  obtain s2' where s2': "rwfz_receive msgs2 s2 = Some s2'" "rwfq.sync tname s2'"
    "rwft.slot s2' tname = (\<lambda>key. rz.run (msg_ops key msgs2) (rwfzeNew (int n) (p2p_id s2)))"
    using rwfz_receive_ok[OF n(2) new(3,4) ok(2) ex2] by blast
  have "rwfq.entry_of (rwft.slot s1' tname key) = rwfq.entry_of (rwft.slot s2' tname key)" for key
    using rwfz_view_perm[OF same uniq upds_exact[OF ex], of "p2p_id s2" key]
    unfolding s1'(3) s2'(3) rwfz_run_view[OF msg_ops_wf[OF ok(1)]] rwfz_run_view[OF msg_ops_wf[OF ok(2)]]
    by (simp add: rwfz_entry_any_me[of n "p2p_id s1" _ "p2p_id s2"])
  moreover obtain xs ys where xs: "zcontent s1' tname xs" "map_of xs = (\<lambda>key. rwfq.entry_of (rwft.slot s1' tname key))"
    "zcontent s2' tname ys" "map_of ys = (\<lambda>key. rwfq.entry_of (rwft.slot s2' tname key))"
    using s1'(2) s2'(2) by (auto simp: rwfq.sync_def)
  ultimately have "ys = xs" by (intro zsorted_unique) (simp_all add: zcontent_sorted)
  moreover have "rwfzscoreCommand q s = Some (addReply (score_answer xs (argv q ! 2)) q, s) \<and>
      rwfzmaxCommand q s = Some (fold addReply (max_answer xs) q, s)"
    if "zcontent s tname xs" "2 < length (argv q) \<and> argv q ! 1 = tname" for q s
    using score_reply_content[OF that(1), of q "argv q ! 2"] max_reply_content[OF that(1), of q] that(2)
    by (simp add: rwfzscoreCommand_def rwfzmaxCommand_def)
  ultimately show ?thesis using s1'(1) s2'(1) xs by blast
qed

theorem rwfz_replicas_converge_witness:
  "let m1 = (RAdd \<lparr>vc_vector = [0, 0], vc_id = 0\<rparr> (Fin 5), createClient\<lparr>rargv := Some [''rwfzadd'', ''q'', ''k'', ''5'', ''0,0|0'']\<rparr>);
       m2 = (RAdd \<lparr>vc_vector = [0, 0], vc_id = 1\<rparr> (Fin 2), createClient\<lparr>rargv := Some [''rwfzadd'', ''q'', ''k'', ''2'', ''0,0|1'']\<rparr>);
       s = \<lambda>me. (initServer [] [] (\<lambda>_. dzero) (\<lambda>_ _. 0))\<lparr>p2p_count := 2, p2p_id := me\<rparr>;
       q = createClient\<lparr>argv := [''rwfzscore'', ''q'', ''k'']\<rparr>
   in \<exists>s1 s2 r. rwfz_receive [m1, m2] (s 0) = Some s1 \<and> rwfz_receive [m2, m1] (s 1) = Some s2 \<and>
     rwfzscoreCommand q s1 = Some (addReply r q, s1) \<and> rwfzscoreCommand q s2 = Some (addReply r q, s2)"
proof -
  let ?p1 = "RAdd \<lparr>vc_vector = [0, 0], vc_id = 0\<rparr> (Fin 5) :: rwfz_op"
  let ?p2 = "RAdd \<lparr>vc_vector = [0, 0], vc_id = 1\<rparr> (Fin 2) :: rwfz_op"
  let ?m1 = "(?p1, createClient\<lparr>rargv := Some [''rwfzadd'', ''q'', ''k'', ''5'', ''0,0|0'']\<rparr>)"
  let ?m2 = "(?p2, createClient\<lparr>rargv := Some [''rwfzadd'', ''q'', ''k'', ''2'', ''0,0|1'']\<rparr>)"
  let ?s = "\<lambda>me. (initServer [] [] (\<lambda>_. dzero) (\<lambda>_ _. 0))\<lparr>p2p_count := 2, p2p_id := me\<rparr>"
  let ?q = "createClient\<lparr>argv := [''rwfzscore'', ''q'', ''k'']\<rparr>"
  have v: "string2d ''5'' = Some (Fin 5)" "string2d ''2'' = Some (Fin 2)"
    using dround_of_int[of 5] dround_of_int[of 2] by (simp_all add: eval_double)
  have t: "sdsToVC ''0,0|0'' = Some \<lparr>vc_vector = [0, 0], vc_id = 0\<rparr>"
    "sdsToVC ''0,0|1'' = Some \<lparr>vc_vector = [0, 0], vc_id = 1\<rparr>" by (simp_all add: eval_vc)
  have ok: "msg_ok ''q'' 2 ?m1" "msg_ok ''q'' 2 ?m2" by (simp_all add: msg_ok_def msg_args_def v t)
  have key: "msg_ops key [?m1, ?m2] = (if key = ''k'' then [?p1, ?p2] else [])"
    "msg_ops key [?m2, ?m1] = (if key = ''k'' then [?p2, ?p1] else [])" for key
    by (auto simp: msg_ops_def msg_key_def msg_args_def)
  have uniq: "adds_unique (current_ops 2 [?p1, ?p2])" by (simp add: adds_unique_def current_ops_def inj_on_def)
  have "[Fin 5, Fin 2] = map (\<lambda>k. Fin (of_int k)) [5, 2]" by simp
  then have ex: "exact_values [Fin 5, Fin 2]" unfolding exact_values_def by (intro exI[of _ "[5, 2]"]) simp
  have nil: "adds_unique (current_ops 2 ([] :: rwfz_op list))" by (simp add: adds_unique_def current_ops_def)
  have "\<exists>s1 s2 xs. rwfz_receive [?m1, ?m2] (?s 0) = Some s1 \<and> rwfz_receive [?m2, ?m1] (?s 1) = Some s2 \<and>
    zcontent s1 ''q'' xs \<and> zcontent s2 ''q'' xs \<and>
    (\<forall>q. 2 < length (argv q) \<and> argv q ! 1 = ''q'' \<longrightarrow>
      rwfzscoreCommand q s1 = Some (addReply (score_answer xs (argv q ! 2)) q, s1) \<and>
      rwfzscoreCommand q s2 = Some (addReply (score_answer xs (argv q ! 2)) q, s2) \<and>
      rwfzmaxCommand q s1 = Some (fold addReply (max_answer xs) q, s1) \<and>
      rwfzmaxCommand q s2 = Some (fold addReply (max_answer xs) q, s2))"
    by (rule rwfz_replicas_converge[where n = 2])
      (simp_all add: initServer_def key ok uniq ex nil exact_values_Nil)
  then obtain s1 s2 xs where "rwfz_receive [?m1, ?m2] (?s 0) = Some s1" "rwfz_receive [?m2, ?m1] (?s 1) = Some s2"
    "rwfzscoreCommand ?q s1 = Some (addReply (score_answer xs ''k'') ?q, s1)"
    "rwfzscoreCommand ?q s2 = Some (addReply (score_answer xs ''k'') ?q, s2)"
    by force
  then show ?thesis unfolding Let_def by blast
qed

section \<open>Rounding\<close>

text \<open>Replica 0 adds an element with the score 0 and increments it by 2^53; replica 1, which has the
  element, increments it twice by 1.\<close>

definition round_msg :: "rwfz_op \<Rightarrow> sds list \<Rightarrow> rwfz_op \<times> client" where
  "round_msg p args = (p, createClient\<lparr>rargv := Some args\<rparr>)"

definition round_add :: "rwfz_op \<times> client" where
  "round_add = round_msg (RAdd \<lparr>vc_vector = [0, 0], vc_id = 0\<rparr> (Fin 0)) [''rwfzadd'', ''q'', ''k'', ''0'', ''0,0|0'']"

definition round_big :: "rwfz_op \<times> client" where
  "round_big = round_msg (RUpd \<lparr>vc_vector = [0, 0], vc_id = 0\<rparr> (Fin 9007199254740992))
     [''rwfzincrby'', ''q'', ''k'', ''9007199254740992'', ''0,0|0'']"

definition round_one :: "rwfz_op \<times> client" where
  "round_one = round_msg (RUpd \<lparr>vc_vector = [0, 0], vc_id = 1\<rparr> (Fin 1)) [''rwfzincrby'', ''q'', ''k'', ''1'', ''0,0|1'']"

definition round_replica :: "int \<Rightarrow> server" where
  "round_replica me = (initServer [] [] (\<lambda>_. dzero) (\<lambda>_ _. 0))\<lparr>p2p_count := 2, p2p_id := me\<rparr>"

lemmas round_defs = round_add_def round_big_def round_one_def round_msg_def

lemma round_numbers:
  "string2d ''0'' = Some (Fin 0)" "string2d ''1'' = Some (Fin 1)" "string2d ''9007199254740992'' = Some (Fin 9007199254740992)"
  using dround_of_int[of 0] dround_of_int[of 1] dround_of_int[of 9007199254740992] by (simp_all add: eval_double)

lemma round_sums:
  "dround 0 = Fin 0" "dround 1 = Fin 1" "dround 2 = Fin 2" "dround 9007199254740992 = Fin 9007199254740992"
  using dround_of_int[of 0] dround_of_int[of 1] dround_of_int[of 2] dround_of_int[of 9007199254740992] by simp_all

lemma round_bits: "bitlen 9007199254740993 = 54" "bitlen 9007199254740994 = 54" "bitlen 1 = 1"
  by (simp_all add: bitlen_def compute_floorlog)

lemma round_exp: "dexp 9007199254740993 = 1" "dexp 9007199254740994 = 1"
  by (simp_all add: dexp_def round_bits quotient_of_number pow2_def)

lemma round_away: "dround 9007199254740993 = Fin 9007199254740992" "dround 9007199254740994 = Fin 9007199254740994"
proof -
  have "\<lfloor>9007199254740993 / 2 :: rat\<rfloor> = 4503599627370496" by (rule floor_unique) simp_all
  then show "dround 9007199254740993 = Fin 9007199254740992" "dround 9007199254740994 = Fin 9007199254740994"
    by (simp_all add: dround_def round_exp pow2_def rne_def Let_def)
qed

definition round_elem :: "int \<Rightarrow> rat \<Rightarrow> rwfze" where
  "round_elem me v = \<lparr>rwfze_header = \<lparr>reh_pid = 0, reh_current = \<lparr>vc_vector = [0, 0], vc_id = me\<rparr>\<rparr>,
     rwfze_innate = Fin 0, rwfze_acquired = Fin v\<rparr>"

lemma round_steps:
  "rz.step (fst round_add) (rwfzeNew 2 me) = round_elem me 0"
  "dround (v + 9007199254740992) = Fin w \<Longrightarrow> rz.step (fst round_big) (round_elem me v) = round_elem me w"
  "dround (v + 1) = Fin w \<Longrightarrow> rz.step (fst round_one) (round_elem me v) = round_elem me w"
  by (simp_all add: round_defs round_elem_def rz.removing_def rwfzeNew_def REH_INIT_def vc_new_def vle_def addCheck_def
      updateCheck_def clock_simps rwfz_bodies numeral_2_eq_2 EXISTS_def Let_def)

lemma round_orders:
  "rz.run (map fst [round_add, round_big, round_one, round_one]) (rwfzeNew 2 me) = round_elem me 9007199254740992"
  "rz.run (map fst [round_add, round_one, round_one, round_big]) (rwfzeNew 2 me) = round_elem me 9007199254740994"
  by (simp_all add: rz.run_def round_steps round_sums round_away del: rz.step.simps)

lemma round_ok: "list_all (msg_ok ''q'' 2) [round_add, round_big, round_one, round_one]"
  "list_all (msg_ok ''q'' 2) [round_add, round_one, round_one, round_big]"
proof -
  have "sdsToVC ''0,0|0'' = Some \<lparr>vc_vector = [0, 0], vc_id = 0\<rparr>" "sdsToVC ''0,0|1'' = Some \<lparr>vc_vector = [0, 0], vc_id = 1\<rparr>"
    by (simp_all add: eval_vc)
  then show "list_all (msg_ok ''q'' 2) [round_add, round_big, round_one, round_one]"
    "list_all (msg_ok ''q'' 2) [round_add, round_one, round_one, round_big]"
    by (simp_all add: round_defs msg_ok_def msg_args_def round_numbers)
qed

lemma round_ops:
  assumes "set msgs \<subseteq> {round_add, round_big, round_one}"
  shows "msg_ops key msgs = (if key = ''k'' then map fst msgs else [])"
  using assms by (induction msgs) (auto simp: msg_ops_def msg_key_def msg_args_def round_defs)

lemma round_numeric:
  assumes "msgs = [round_add, round_big, round_one, round_one] \<or> msgs = [round_add, round_one, round_one, round_big]"
  shows "rwfz_SCORE (rz.run (msg_ops key (take k msgs)) (rwfzeNew (int 2) me)) \<noteq> NaN"
proof -
  have new: "rwfz_SCORE (rwfzeNew 2 me) = Fin 0" by (simp add: rwfz_SCORE_def rwfzeNew_def dround_def)
  have elem: "rwfz_SCORE (round_elem me v) = dround v" for v by (simp add: rwfz_SCORE_def round_elem_def)
  have ops: "msg_ops key (take k msgs) = (if key = ''k'' then map fst (take k msgs) else [])"
    using assms by (intro round_ops) (auto dest: in_set_takeD)
  have "k = 0 \<or> k = 1 \<or> k = 2 \<or> k = 3 \<or> 4 \<le> k" by arith
  then show ?thesis
    unfolding ops using assms
    by (elim disjE) (simp_all add: rz.run_def round_steps round_sums round_away new elem numeral_2_eq_2 numeral_3_eq_3 del: rz.step.simps)
qed

lemma round_score:
  assumes "msgs = [round_add, round_big, round_one, round_one] \<or> msgs = [round_add, round_one, round_one, round_big]"
    and v: "rz.run (map fst msgs) (rwfzeNew 2 me) = round_elem me v" "dround v = Fin v"
  shows "\<exists>s. rwfz_receive msgs (round_replica me) = Some s \<and>
    (\<forall>q. argv q = [''rwfzscore'', ''q'', ''k''] \<longrightarrow> rwfzscoreCommand q s = Some (addReply (RDouble (Fin v)) q, s))"
proof -
  have new: "p2p_count (round_replica me) = int 2" "db (round_replica me) ''q'' = None"
    "db (round_replica me) (''q'' @ RWF_RPQ_TABLE_SUFFIX) = None" "p2p_id (round_replica me) = me"
    by (simp_all add: round_replica_def initServer_def)
  have ok: "list_all (msg_ok ''q'' 2) msgs" using assms(1) round_ok by blast
  obtain s where s: "rwfz_receive msgs (round_replica me) = Some s" "rwfq.sync ''q'' s"
    "rwft.slot s ''q'' = (\<lambda>key. rz.run (msg_ops key msgs) (rwfzeNew (int 2) me))"
    using rwfz_receive_numeric[OF new(1-3) ok] round_numeric[OF assms(1)] unfolding new(4) by blast
  obtain xs where xs: "zcontent s ''q'' xs" "map_of xs = (\<lambda>key. rwfq.entry_of (rwft.slot s ''q'' key))"
    using s(2) by (auto simp: rwfq.sync_def)
  have "msg_ops ''k'' msgs = map fst msgs" using assms(1) round_ops[of msgs "''k''"] by auto
  then have "rwft.slot s ''q'' ''k'' = round_elem me v" using s(3) v(1) by simp
  moreover have "EXISTS (rwfze_header (round_elem me v))" "rwfz_SCORE (round_elem me v) = Fin v"
    using v(2) by (simp_all add: round_elem_def EXISTS_def rwfz_SCORE_def)
  ultimately have "map_of xs ''k'' = Some (Fin v)" using xs(2) by (simp add: rwfq.entry_of_def)
  then have "rwfzscoreCommand q s = Some (addReply (RDouble (Fin v)) q, s)" if "argv q = [''rwfzscore'', ''q'', ''k'']" for q
    using score_reply_content[OF xs(1), of q "''k''"] that by (simp add: rwfzscoreCommand_def score_answer_def)
  then show ?thesis using s(1) by blast
qed

text \<open>C29: the order of increments matters once their sum leaves the integers that a double holds
  exactly. Replica 0 adds an element with the score 0 and increments it by \<open>2\<close> to the power 53;
  replica 1 increments the same element twice by 1. Both replicas receive these four operations, each
  in an order that keeps the order of either sender, and answer with different scores for ever: at
  replica 0 both small increments are rounded away.\<close>

theorem rwfz_rounding_diverges:
  "\<exists>s0 s1. rwfz_receive [round_add, round_big, round_one, round_one] (round_replica 0) = Some s0 \<and>
     rwfz_receive [round_add, round_one, round_one, round_big] (round_replica 1) = Some s1 \<and>
     (let q = createClient\<lparr>argv := [''rwfzscore'', ''q'', ''k'']\<rparr> in
       rwfzscoreCommand q s0 = Some (addReply (RDouble (Fin (2 ^ 53))) q, s0) \<and>
       rwfzscoreCommand q s1 = Some (addReply (RDouble (Fin (2 ^ 53 + 2))) q, s1))"
proof -
  let ?q = "createClient\<lparr>argv := [''rwfzscore'', ''q'', ''k'']\<rparr>"
  obtain s0 where "rwfz_receive [round_add, round_big, round_one, round_one] (round_replica 0) = Some s0"
    "rwfzscoreCommand ?q s0 = Some (addReply (RDouble (Fin 9007199254740992)) ?q, s0)"
    using round_score[OF disjI1[OF refl] round_orders(1)[of 0] round_sums(4)] by auto
  moreover obtain s1 where "rwfz_receive [round_add, round_one, round_one, round_big] (round_replica 1) = Some s1"
    "rwfzscoreCommand ?q s1 = Some (addReply (RDouble (Fin 9007199254740994)) ?q, s1)"
    using round_score[OF disjI2[OF refl] round_orders(2)[of 1] round_away(2)] by auto
  ultimately show ?thesis unfolding Let_def by simp
qed

end
