(* ===== verification/OZset.thy ===== *)
theory OZset
  imports Crdt Tables
begin

text \<open>
  The commands of the add-win priority queue, \<open>t_ozset.c\<close>. A memory cell that \<open>add_ase\<close> leaves
  uninitialised is read from the server's \<open>mem_dbl\<close>.
\<close>

section \<open>Commands\<close>

text \<open>\<open>zsetAdd(zset, SCORE(e), ...)\<close> on the set of the queue, created if need be.\<close>

definition oz_set_score :: "sds \<Rightarrow> sds \<Rightarrow> oze \<Rightarrow> server \<Rightarrow> server option" where
  "oz_set_score tname key e s = do {
     score \<leftarrow> oz_SCORE e;
     zset_set_score tname key score s
   }"

definition ozadd_prepare :: prepare where
  "ozadd_prepare c s =
     after_checks (then_check (then_check (CHECK_ARGC 4 c) (CHECK_CONTAINER_TYPE is_zset s)) (CHECK_ARG_TYPE_DOUBLE 3)) s
       (\<lambda>c. do {
          tname \<leftarrow> arg (argv c) 1;
          key \<leftarrow> arg (argv c) 2;
          (p, s) \<leftarrow> GET_OZE tname key True s;
          e \<leftarrow> p;
          if oz_LOOKUP e then Some (Done (addReply ele_exist c), s)
          else do {
            let t = lc_new (oze_current e) (p2p_id s);
            s \<leftarrow> put_oze tname key (e\<lparr>oze_current := oze_current e + 1\<rparr>) s;
            Some (Go (RARGV_ADD_SDS (lcToSds t) c), s)
          }
        })"

definition ozadd_effect :: effect where
  "ozadd_effect c s = do {
     args \<leftarrow> rargv c;
     a \<leftarrow> arg args 3;
     v \<leftarrow> getDoubleFromObject a;
     a \<leftarrow> arg args 4;
     t \<leftarrow> sdsToLc a;
     tname \<leftarrow> arg args 1;
     key \<leftarrow> arg args 2;
     (p, s) \<leftarrow> GET_OZE tname key True s;
     e \<leftarrow> p;
     (changed, e) \<leftarrow> update_innate_value (mem_dbl s (oze_fresh e)) e t v;
     s \<leftarrow> put_oze tname key e s;
     s \<leftarrow> (if changed \<noteq> 0 then oz_set_score tname key e s else Some s);
     Some (c, incr_dirty s)
   }"

definition ozaddCommand :: "client \<Rightarrow> server \<Rightarrow> (client \<times> server) option" where
  "ozaddCommand = CRDT_COMMAND ozadd_prepare ozadd_effect"

text \<open>The tags of the add set, appended to the arguments in order.\<close>

definition RARGV_ADD_TAGS :: "oze \<Rightarrow> client \<Rightarrow> client" where
  "RARGV_ADD_TAGS e c = fold (\<lambda>(_, a). RARGV_ADD_SDS (lcToSds (ase_t a))) (oze_aset e) c"

definition ozincrby_prepare :: prepare where
  "ozincrby_prepare c s =
     after_checks (then_check (then_check (CHECK_ARGC 4 c) (CHECK_CONTAINER_TYPE is_zset s)) (CHECK_ARG_TYPE_DOUBLE 3)) s
       (\<lambda>c. do {
          tname \<leftarrow> arg (argv c) 1;
          key \<leftarrow> arg (argv c) 2;
          (p, s) \<leftarrow> GET_OZE tname key False s;
          (case p of
             None \<Rightarrow> Some (Done (addReply ele_nexist c), s)
           | Some e \<Rightarrow>
               if \<not> oz_LOOKUP e then Some (Done (addReply ele_nexist c), s)
               else Some (Go (RARGV_ADD_TAGS e c), s))
        })"

text \<open>The loop over the tags, counting the changes.\<close>

fun oz_acquire_loop :: "(addr \<Rightarrow> dbl) \<Rightarrow> sds list \<Rightarrow> dbl \<Rightarrow> int \<Rightarrow> oze \<Rightarrow> (int \<times> oze) option" where
  "oz_acquire_loop mem [] v changed e = Some (changed, e)"
| "oz_acquire_loop mem (a # as) v changed e = do {
     t \<leftarrow> sdsToLc a;
     (n, e) \<leftarrow> update_acquired_value (mem (oze_fresh e)) e t v;
     oz_acquire_loop mem as v (changed + n) e
   }"

definition ozincrby_effect :: effect where
  "ozincrby_effect c s = do {
     args \<leftarrow> rargv c;
     a \<leftarrow> arg args 3;
     v \<leftarrow> getDoubleFromObject a;
     tname \<leftarrow> arg args 1;
     key \<leftarrow> arg args 2;
     (p, s) \<leftarrow> GET_OZE tname key True s;
     e \<leftarrow> p;
     (changed, e) \<leftarrow> oz_acquire_loop (mem_dbl s) (drop 4 args) v 0 e;
     s \<leftarrow> put_oze tname key e s;
     s \<leftarrow> (if changed \<noteq> 0 then oz_set_score tname key e s else Some s);
     Some (c, incr_dirty s)
   }"

definition ozincrbyCommand :: "client \<Rightarrow> server \<Rightarrow> (client \<times> server) option" where
  "ozincrbyCommand = CRDT_COMMAND ozincrby_prepare ozincrby_effect"

definition ozrem_prepare :: prepare where
  "ozrem_prepare c s =
     after_checks (then_check (CHECK_ARGC 3 c) (CHECK_CONTAINER_TYPE is_zset s)) s
       (\<lambda>c. do {
          tname \<leftarrow> arg (argv c) 1;
          key \<leftarrow> arg (argv c) 2;
          (p, s) \<leftarrow> GET_OZE tname key False s;
          (case p of
             None \<Rightarrow> Some (Done (addReply ele_nexist c), s)
           | Some e \<Rightarrow>
               if \<not> oz_LOOKUP e then Some (Done (addReply ele_nexist c), s)
               else Some (Go (RARGV_ADD_TAGS e c), s))
        })"

fun oz_remove_loop :: "sds list \<Rightarrow> oze \<Rightarrow> oze option" where
  "oz_remove_loop [] e = Some e"
| "oz_remove_loop (a # as) e = do {
     t \<leftarrow> sdsToLc a;
     oz_remove_loop as (remove_tag e t)
   }"

definition ozrem_effect :: effect where
  "ozrem_effect c s = do {
     args \<leftarrow> rargv c;
     tname \<leftarrow> arg args 1;
     key \<leftarrow> arg args 2;
     (p, s) \<leftarrow> GET_OZE tname key True s;
     e \<leftarrow> p;
     e \<leftarrow> oz_remove_loop (drop 3 args) e;
     if oze_innate e = None \<or> oze_acquired e = None then do {
       e \<leftarrow> resort e;
       s \<leftarrow> put_oze tname key e s;
       s \<leftarrow> (if oz_LOOKUP e then oz_set_score tname key e s else zset_del_key tname key s);
       Some (c, incr_dirty s)
     }
     else do {
       s \<leftarrow> put_oze tname key e s;
       Some (c, incr_dirty s)
     }
   }"

definition ozremCommand :: "client \<Rightarrow> server \<Rightarrow> (client \<times> server) option" where
  "ozremCommand = CRDT_COMMAND ozrem_prepare ozrem_effect"

definition ozscoreCommand :: "client \<Rightarrow> server \<Rightarrow> (client \<times> server) option" where
  "ozscoreCommand c s = score_reply c s"

definition ozmaxCommand :: "client \<Rightarrow> server \<Rightarrow> (client \<times> server) option" where
  "ozmaxCommand c s = max_reply c s"

end
