(* ===== verification/CausalQueue.thy ===== *)
theory CausalQueue
  imports VectorClock "HOL-Library.Monad_Syntax"
begin

text \<open>
  The loop that \<open>t_rzset.c\<close> and \<open>t_rlist.c\<close> run after every applied operation: as long as one of
  the waiting commands is causally ready, the first such command is applied and taken off the
  list. It ends because every round shortens the list.
\<close>

text \<open>The search of one round; \<open>None\<close> is a failed assertion of \<open>vc_causally_ready\<close>. The result is
  the command and the list without it.\<close>

fun next_ready :: "('c \<Rightarrow> vc) \<Rightarrow> vc \<Rightarrow> 'c list \<Rightarrow> ('c \<times> 'c list) option option" where
  "next_ready clk cur [] = Some None"
| "next_ready clk cur (x # xs) = do {
     r \<leftarrow> vc_causally_ready cur (clk x);
     if r then Some (Some (x, xs))
     else map_option (map_option (\<lambda>(y, ys). (y, x # ys))) (next_ready clk cur xs)
   }"

lemma next_ready_split:
  "next_ready clk cur ops = Some (Some (x, rest)) \<Longrightarrow>
   \<exists>pre post. ops = pre @ x # post \<and> rest = pre @ post \<and> vc_causally_ready cur (clk x) = Some True \<and>
     (\<forall>y \<in> set pre. vc_causally_ready cur (clk y) = Some False)"
proof (induction ops arbitrary: rest)
  case (Cons y ys)
  obtain r where r: "vc_causally_ready cur (clk y) = Some r"
    using Cons.prems by (cases "vc_causally_ready cur (clk y)") auto
  show ?case
  proof (cases r)
    case True
    then have "x = y" "rest = ys" using Cons.prems r by simp_all
    then show ?thesis using True r by (intro exI[of _ "[]"] exI[of _ ys]) simp
  next
    case False
    then obtain rest' where "next_ready clk cur ys = Some (Some (x, rest'))" "rest = y # rest'"
      using Cons.prems r by (auto split: option.splits)
    then obtain pre post where "ys = pre @ x # post" "rest' = pre @ post" "vc_causally_ready cur (clk x) = Some True"
      "\<forall>y \<in> set pre. vc_causally_ready cur (clk y) = Some False"
      using Cons.IH by blast
    then show ?thesis using False r \<open>rest = y # rest'\<close> by (intro exI[of _ "y # pre", OF exI[of _ post]]) simp
  qed
qed simp

function notify_loop ::
  "('c \<Rightarrow> vc) \<Rightarrow> ('s \<Rightarrow> vc) \<Rightarrow> ('c \<Rightarrow> 's \<Rightarrow> 's option) \<Rightarrow> 'c list \<Rightarrow> 's \<Rightarrow> ('c list \<times> 's) option" where
  "notify_loop clk cur run ops s = (case next_ready clk (cur s) ops of
       None \<Rightarrow> None
     | Some None \<Rightarrow> Some (ops, s)
     | Some (Some (x, rest)) \<Rightarrow> (case run x s of
         None \<Rightarrow> None
       | Some s' \<Rightarrow> notify_loop clk cur run rest s'))"
  by pat_completeness auto
termination
  by (relation "measure (\<lambda>(clk, cur, run, ops, s). length ops)") (auto dest!: next_ready_split)

declare notify_loop.simps [simp del]

end
