(* ===== verification/RZset.thy ===== *)
theory RZset
  imports Crdt Tables CausalQueue
begin

text \<open>
  The commands of the remove-win priority queue with causal delivery, \<open>t_rzset.c\<close>. The element
  is read once by an effect, changed by \<open>addFunc\<close>, \<open>increaseFunc\<close>, \<open>removeFunc\<close> and \<open>notifyLoop\<close>,
  and stored at the end; nothing reads it in between.
\<close>

section \<open>Operations\<close>

definition rz_set_score :: "sds \<Rightarrow> sds \<Rightarrow> rze \<Rightarrow> server \<Rightarrow> server option" where
  "rz_set_score tname key e s = do {
     score \<leftarrow> rz_SCORE e;
     zset_set_score tname key score s
   }"

definition rz_addFunc :: "sds \<Rightarrow> sds \<Rightarrow> dbl \<Rightarrow> vc \<Rightarrow> rze \<times> server \<Rightarrow> (rze \<times> server) option" where
  "rz_addFunc tname key v t = (\<lambda>(e, s). do {
     e \<leftarrow> rz_add_sets e v t;
     s \<leftarrow> (if rz_LOOKUP e then rz_set_score tname key e s else Some s);
     Some (rz_advance e t, incr_dirty s)
   })"

definition rz_increaseFunc :: "sds \<Rightarrow> sds \<Rightarrow> dbl \<Rightarrow> vc \<Rightarrow> rze \<times> server \<Rightarrow> (rze \<times> server) option" where
  "rz_increaseFunc tname key v t = (\<lambda>(e, s). do {
     let e = rz_inc_sets e v t;
     s \<leftarrow> (if rz_LOOKUP e then do {
         a \<leftarrow> value_of (rze_sets e);
         if vc_cmp (rza_t a) t = VC_LESS then rz_set_score tname key e s else Some s
       } else Some s);
     Some (rz_advance e t, incr_dirty s)
   })"

definition rz_removeFunc :: "sds \<Rightarrow> sds \<Rightarrow> vc \<Rightarrow> rze \<times> server \<Rightarrow> (rze \<times> server) option" where
  "rz_removeFunc tname key t = (\<lambda>(e, s). do {
     e \<leftarrow> rz_rem_sets e t;
     s \<leftarrow> (if \<not> rz_LOOKUP e then zset_del_key tname key s else Some s);
     Some (rz_advance e t, incr_dirty s)
   })"

definition rz_run :: "sds \<Rightarrow> sds \<Rightarrow> rz_cmd \<Rightarrow> rze \<times> server \<Rightarrow> (rze \<times> server) option" where
  "rz_run tname key cmd = (case rzc_type cmd of
       RZADD \<Rightarrow> rz_addFunc tname key (rzc_value cmd) (rzc_t cmd)
     | RZINCBY \<Rightarrow> rz_increaseFunc tname key (rzc_value cmd) (rzc_t cmd)
     | RZREM \<Rightarrow> rz_removeFunc tname key (rzc_t cmd))"

definition rz_notifyLoop :: "sds \<Rightarrow> sds \<Rightarrow> rze \<times> server \<Rightarrow> (rze \<times> server) option" where
  "rz_notifyLoop tname key es =
     map_option (\<lambda>(ops, e, s). (e\<lparr>rze_ops := ops\<rparr>, s))
       (notify_loop rzc_t (\<lambda>(e, s). rze_current e) (rz_run tname key) (rze_ops (fst es)) es)"

text \<open>The end of the three effects: a ready command is applied and wakes the waiting ones, any
  other has to wait.\<close>

definition rz_deliver :: "sds \<Rightarrow> sds \<Rightarrow> rz_cmd \<Rightarrow> rze \<Rightarrow> server \<Rightarrow> server option" where
  "rz_deliver tname key cmd e s = do {
     ready \<leftarrow> vc_causally_ready (rze_current e) (rzc_t cmd);
     if ready then do {
       es \<leftarrow> rz_run tname key cmd (e, s);
       (e, s) \<leftarrow> rz_notifyLoop tname key es;
       put_rze tname key e s
     }
     else put_rze tname key (e\<lparr>rze_ops := rze_ops e @ [cmd]\<rparr>) s
   }"

section \<open>Commands\<close>

definition rzadd_prepare :: prepare where
  "rzadd_prepare c s =
     after_checks (then_check (then_check (CHECK_ARGC 4 c) (CHECK_CONTAINER_TYPE is_zset s)) (CHECK_ARG_TYPE_DOUBLE 3)) s
       (\<lambda>c. do {
          tname \<leftarrow> arg (argv c) 1;
          key \<leftarrow> arg (argv c) 2;
          (p, s) \<leftarrow> GET_RZE tname key True s;
          e \<leftarrow> p;
          if rz_LOOKUP e then Some (Done (addReply ele_exist c), s)
          else do {
            x \<leftarrow> vc_now (rze_current e);
            Some (Go (RARGV_ADD_SDS x c), s)
          }
        })"

definition rzadd_effect :: effect where
  "rzadd_effect c s = do {
     args \<leftarrow> rargv c;
     a \<leftarrow> arg args 3;
     v \<leftarrow> getDoubleFromObject a;
     a \<leftarrow> arg args 4;
     t \<leftarrow> sdsToVC a;
     tname \<leftarrow> arg args 1;
     key \<leftarrow> arg args 2;
     (p, s) \<leftarrow> GET_RZE tname key True s;
     e \<leftarrow> p;
     s \<leftarrow> rz_deliver tname key (rz_cmdNew RZADD v t) e s;
     Some (c, s)
   }"

definition rzaddCommand :: "client \<Rightarrow> server \<Rightarrow> (client \<times> server) option" where
  "rzaddCommand = CRDT_COMMAND rzadd_prepare rzadd_effect"

definition rzincrby_prepare :: prepare where
  "rzincrby_prepare c s =
     after_checks (then_check (then_check (CHECK_ARGC 4 c) (CHECK_CONTAINER_TYPE is_zset s)) (CHECK_ARG_TYPE_DOUBLE 3)) s
       (\<lambda>c. do {
          tname \<leftarrow> arg (argv c) 1;
          key \<leftarrow> arg (argv c) 2;
          (p, s) \<leftarrow> GET_RZE tname key False s;
          (case p of
             None \<Rightarrow> Some (Done (addReply ele_nexist c), s)
           | Some e \<Rightarrow>
               if \<not> rz_LOOKUP e then Some (Done (addReply ele_nexist c), s)
               else do {
                 x \<leftarrow> vc_now (rze_current e);
                 Some (Go (RARGV_ADD_SDS x c), s)
               })
        })"

definition rzincrby_effect :: effect where
  "rzincrby_effect c s = do {
     args \<leftarrow> rargv c;
     a \<leftarrow> arg args 3;
     v \<leftarrow> getDoubleFromObject a;
     a \<leftarrow> arg args 4;
     t \<leftarrow> sdsToVC a;
     tname \<leftarrow> arg args 1;
     key \<leftarrow> arg args 2;
     (p, s) \<leftarrow> GET_RZE tname key True s;
     e \<leftarrow> p;
     s \<leftarrow> rz_deliver tname key (rz_cmdNew RZINCBY v t) e s;
     Some (c, s)
   }"

definition rzincrbyCommand :: "client \<Rightarrow> server \<Rightarrow> (client \<times> server) option" where
  "rzincrbyCommand = CRDT_COMMAND rzincrby_prepare rzincrby_effect"

definition rzrem_prepare :: prepare where
  "rzrem_prepare c s =
     after_checks (then_check (CHECK_ARGC 3 c) (CHECK_CONTAINER_TYPE is_zset s)) s
       (\<lambda>c. do {
          tname \<leftarrow> arg (argv c) 1;
          key \<leftarrow> arg (argv c) 2;
          (p, s) \<leftarrow> GET_RZE tname key False s;
          (case p of
             None \<Rightarrow> Some (Done (addReply ele_nexist c), s)
           | Some e \<Rightarrow>
               if \<not> rz_LOOKUP e then Some (Done (addReply ele_nexist c), s)
               else do {
                 x \<leftarrow> vc_now (rze_current e);
                 Some (Go (RARGV_ADD_SDS x c), s)
               })
        })"

definition rzrem_effect :: effect where
  "rzrem_effect c s = do {
     args \<leftarrow> rargv c;
     a \<leftarrow> arg args 3;
     t \<leftarrow> sdsToVC a;
     tname \<leftarrow> arg args 1;
     key \<leftarrow> arg args 2;
     (p, s) \<leftarrow> GET_RZE tname key True s;
     e \<leftarrow> p;
     s \<leftarrow> rz_deliver tname key (rz_cmdNew RZREM dzero t) e s;
     Some (c, s)
   }"

definition rzremCommand :: "client \<Rightarrow> server \<Rightarrow> (client \<times> server) option" where
  "rzremCommand = CRDT_COMMAND rzrem_prepare rzrem_effect"

definition rzscoreCommand :: "client \<Rightarrow> server \<Rightarrow> (client \<times> server) option" where
  "rzscoreCommand c s = score_reply c s"

definition rzmaxCommand :: "client \<Rightarrow> server \<Rightarrow> (client \<times> server) option" where
  "rzmaxCommand c s = max_reply c s"

end
