(* ===== verification/RwfList.thy ===== *)
theory RwfList
  imports Crdt
begin

text \<open>
  The commands of the remove-win list, \<open>t_rwflist.c\<close>. Elements are linked through their \<open>next\<close>
  fields and live on the heap of the server; an element once inserted stays linked, and the
  header tells whether it is visible.
\<close>

section \<open>Helpers\<close>

definition heap_upd :: "addr \<Rightarrow> (rwfle \<Rightarrow> rwfle) \<Rightarrow> server \<Rightarrow> server option" where
  "heap_upd a f s = map_option (\<lambda>e. heap_put a (LRwfle (f e)) s) (rwfle_at s a)"

definition rwfl_removeFunc :: "sds \<Rightarrow> addr \<Rightarrow> vc \<Rightarrow> server \<Rightarrow> server option" where
  "rwfl_removeFunc tname a t s = do {
     e \<leftarrow> rwfle_at s a;
     (b, h) \<leftarrow> removeCheck (rwfle_header e) t;
     if b then do {
       let s = heap_put a (LRwfle (rwfle_reset (e\<lparr>rwfle_header := h\<rparr>))) s;
       (ht, s) \<leftarrow> GET_LIST_HT tname False s;
       s \<leftarrow> (if EXISTS (rwfle_header e) then Option.bind ht (\<lambda>ht. incrLen ht (-1) s) else Some s);
       Some (incr_dirty s)
     }
     else Some s
   }"

definition draw_rand :: "server \<Rightarrow> nat \<times> server" where
  "draw_rand s = (case rand_draws s of [] \<Rightarrow> (0, s) | r # rs \<Rightarrow> (r, s\<lparr>rand_draws := rs\<rparr>))"

text \<open>The call of \<open>rand\<close> in \<open>constructLeid\<close>, which is skipped when there is room for one position only.\<close>

definition draw_step :: "leid option \<Rightarrow> leid option \<Rightarrow> server \<Rightarrow> nat \<times> server" where
  "draw_step p q s = (let index = room_index p q 0 in
     if rprefix q index - lprefix p index - 2 \<noteq> 0 then draw_rand s else (0, s))"

text \<open>The walk to the place of a new element: the last element before it and the one after.\<close>

partial_function (option) rwfl_walk :: "server \<Rightarrow> leid \<Rightarrow> addr \<Rightarrow> addr option \<Rightarrow> (addr \<times> addr option) option" where
  "rwfl_walk s pos p q = (case q of
       None \<Rightarrow> Some (p, q)
     | Some q' \<Rightarrow> do {
         e \<leftarrow> rwfle_at s q';
         qpos \<leftarrow> rwfle_pos_id e;
         if leid_cmp pos qpos > 0 then rwfl_walk s pos q' (rwfle_next e) else Some (p, q)
       })"

text \<open>Linking the element at \<open>a\<close> into the list of the table \<open>ht\<close>.\<close>

definition rwfl_link :: "sds \<Rightarrow> sds \<Rightarrow> sds \<Rightarrow> addr \<Rightarrow> server \<Rightarrow> server option" where
  "rwfl_link tname ht prev a s = do {
     e \<leftarrow> rwfle_at s a;
     pos \<leftarrow> rwfle_pos_id e;
     hd' \<leftarrow> getHead ht s;
     (case hd' of
        None \<Rightarrow> setHead ht a s
      | Some h \<Rightarrow> do {
          he \<leftarrow> rwfle_at s h;
          hpos \<leftarrow> rwfle_pos_id he;
          if leid_cmp pos hpos < 0 then do {
            s \<leftarrow> setHead ht a s;
            heap_upd a (\<lambda>e. e\<lparr>rwfle_next := Some h\<rparr>) s
          }
          else do {
            (pre, s) \<leftarrow> GET_RWFLE tname prev False s;
            p \<leftarrow> (case pre of
                None \<Rightarrow> Some h
              | Some x \<Rightarrow> map_option (\<lambda>pe. if rwfle_pos_id pe \<noteq> None then x else h) (rwfle_at s x));
            pe \<leftarrow> rwfle_at s p;
            (p, q) \<leftarrow> rwfl_walk s pos p (rwfle_next pe);
            s \<leftarrow> heap_upd p (\<lambda>e. e\<lparr>rwfle_next := Some a\<rparr>) s;
            heap_upd a (\<lambda>e. e\<lparr>rwfle_next := q\<rparr>) s
          }
        })
   }"

section \<open>Insertion\<close>

definition no_pre :: "sds \<Rightarrow> rep" where
  "no_pre x = RErr (''No pre element '' @ x @ '' in the list.'')"

definition not_added :: "sds \<Rightarrow> rep" where
  "not_added x = RErr (''Element '' @ x @ '' hasn't been added, can't be readded.'')"

definition only_readd :: "sds \<Rightarrow> rep" where
  "only_readd x = RErr (''Element '' @ x @ '' has set its position, can only be readded.'')"

definition check_ints :: "nat list \<Rightarrow> client step \<Rightarrow> client step" where
  "check_ints is r = fold (\<lambda>i r. then_check r (CHECK_ARG_TYPE_INT i)) is r"

text \<open>The position of a new element: between its predecessor and the one that follows it.\<close>

definition rwfl_new_pos :: "sds \<Rightarrow> addr option \<Rightarrow> server \<Rightarrow> (leid \<times> server) option" where
  "rwfl_new_pos tname pre s = do {
     left \<leftarrow> (case pre of None \<Rightarrow> Some None | Some a \<Rightarrow> map_option rwfle_pos_id (rwfle_at s a));
     (right, s) \<leftarrow> (case pre of
         None \<Rightarrow> do {
           (ht, s) \<leftarrow> GET_LIST_HT tname True s;
           ht \<leftarrow> ht;
           h \<leftarrow> getHead ht s;
           (case h of
              None \<Rightarrow> Some (None, s)
            | Some b \<Rightarrow> map_option (\<lambda>e. (rwfle_pos_id e, s)) (rwfle_at s b))
         }
       | Some a \<Rightarrow> do {
           e \<leftarrow> rwfle_at s a;
           (case rwfle_next e of
              None \<Rightarrow> Some (None, s)
            | Some b \<Rightarrow> map_option (\<lambda>e. (rwfle_pos_id e, s)) (rwfle_at s b))
         });
     (ht, s) \<leftarrow> GET_LIST_HT tname True s;
     ht \<leftarrow> ht;
     (cur, s) \<leftarrow> getCurrent ht s;
     let (r, s) = draw_step left right s;
     let id = constructLeid r left right cur;
     cur \<leftarrow> vc_inc cur (p2p_id s);
     s \<leftarrow> putCurrent ht cur s;
     Some (id, s)
   }"

definition rwflinsert_prepare :: prepare where
  "rwflinsert_prepare c s =
     after_checks (check_ints [5, 6, 7, 8] (then_check (CHECK_ARGC 9 c) (CHECK_CONTAINER_TYPE is_hash s))) s
       (\<lambda>c. do {
          tname \<leftarrow> arg (argv c) 1;
          prev \<leftarrow> arg (argv c) 2;
          key \<leftarrow> arg (argv c) 3;
          (pre, s) \<leftarrow> GET_RWFLE tname prev False s;
          let c = (if pre = None then c\<lparr>argv := (argv c)[2 := sdstolower prev]\<rparr> else c);
          let prev = (if pre = None then sdstolower prev else prev);
          usable \<leftarrow> (case pre of
              None \<Rightarrow> Some (cstr prev = ''null'' \<or> cstr prev = ''readd'')
            | Some a \<Rightarrow> map_option (\<lambda>p. EXISTS (rwfle_header p) \<and> rwfle_pos_id p \<noteq> None) (rwfle_at s a));
          if \<not> usable then Some (Done (addReply (no_pre prev) c), s)
          else do {
            (a, s) \<leftarrow> GET_RWFLE tname key True s;
            a \<leftarrow> a;
            e \<leftarrow> rwfle_at s a;
            if EXISTS (rwfle_header e) then Some (Done (addReply ele_exist c), s)
            else if rwfle_oid e = None then
              if cstr prev = ''readd'' then Some (Done (addReply (not_added key) c), s)
              else do {
                (id, s) \<leftarrow> rwfl_new_pos tname pre s;
                x \<leftarrow> leidToSds id;
                y \<leftarrow> vcToSds (reh_current (rwfle_header e));
                Some (Go (RARGV_ADD_SDS y (RARGV_ADD_SDS x c)), s)
              }
            else if cstr prev \<noteq> ''readd'' then Some (Done (addReply (only_readd key) c), s)
            else do {
              pos \<leftarrow> rwfle_pos_id e;
              x \<leftarrow> leidToSds pos;
              y \<leftarrow> vcToSds (reh_current (rwfle_header e));
              Some (Go (RARGV_ADD_SDS y (RARGV_ADD_SDS x c)), s)
            }
          }
        })"

text \<open>The values an insertion carries.\<close>

definition insert_values :: "sds list \<Rightarrow> nat \<Rightarrow> ((nprop \<Rightarrow> int) \<times> int) option" where
  "insert_values args i = do {
     a \<leftarrow> arg args i;
     vfont \<leftarrow> getLongLongFromObject a;
     a \<leftarrow> arg args (i + 1);
     vsize \<leftarrow> getLongLongFromObject a;
     a \<leftarrow> arg args (i + 2);
     vcolor \<leftarrow> getLongLongFromObject a;
     a \<leftarrow> arg args (i + 3);
     property \<leftarrow> getLongLongFromObject a;
     Some (\<lambda>n. case n of font \<Rightarrow> vfont | fsize \<Rightarrow> vsize | color \<Rightarrow> vcolor, property)
   }"

definition rwflinsert_effect :: effect where
  "rwflinsert_effect c s = do {
     args \<leftarrow> rargv c;
     t \<leftarrow> CR_GET_LAST args;
     tname \<leftarrow> arg args 1;
     prev \<leftarrow> arg args 2;
     key \<leftarrow> arg args 3;
     (a, s) \<leftarrow> GET_RWFLE tname key True s;
     a \<leftarrow> a;
     s \<leftarrow> rwfl_removeFunc tname a t s;
     (ht, s) \<leftarrow> GET_LIST_HT tname True s;
     ht \<leftarrow> ht;
     e \<leftarrow> rwfle_at s a;
     s \<leftarrow> (if rwfle_oid e = None then do {
         content \<leftarrow> arg args 4;
         x \<leftarrow> arg args 9;
         pos \<leftarrow> sdsToLeid x;
         let e = e\<lparr>rwfle_oid := Some key, rwfle_content := Some content, rwfle_pos_id := Some pos\<rparr>;
         rwfl_link tname ht prev a (heap_put a (LRwfle e) s)
       } else Some s);
     e \<leftarrow> rwfle_at s a;
     let (b, h) = addCheck (rwfle_header e) t;
     if b then do {
       s \<leftarrow> (if \<not> EXISTS (rwfle_header e) then incrLen ht 1 s else Some s);
       (vals, property) \<leftarrow> insert_values args 5;
       let e = innate_update vals property (e\<lparr>rwfle_header := h\<rparr>);
       Some (c, incr_dirty (heap_put a (LRwfle e) s))
     }
     else Some (c, s)
   }"

definition rwflinsertCommand :: "client \<Rightarrow> server \<Rightarrow> (client \<times> server) option" where
  "rwflinsertCommand = CRDT_COMMAND rwflinsert_prepare rwflinsert_effect"

section \<open>Updates and removals\<close>

definition rwflupdate_prepare :: prepare where
  "rwflupdate_prepare c s =
     after_checks (then_check (then_check (CHECK_ARGC 5 c) (CHECK_CONTAINER_TYPE is_hash s)) (CHECK_ARG_TYPE_INT 4)) s
       (\<lambda>c. do {
          tname \<leftarrow> arg (argv c) 1;
          key \<leftarrow> arg (argv c) 2;
          (p, s) \<leftarrow> GET_RWFLE tname key False s;
          (case p of
             None \<Rightarrow> Some (Done (addReply ele_nexist c), s)
           | Some a \<Rightarrow> do {
               e \<leftarrow> rwfle_at s a;
               if \<not> EXISTS (rwfle_header e) then Some (Done (addReply ele_nexist c), s)
               else do {
                 x \<leftarrow> vcToSds (reh_current (rwfle_header e));
                 Some (Go (RARGV_ADD_SDS x (RARGV_ADD_SDS (lc_now (rwfle_current e)) c)), s)
               }
             })
        })"

text \<open>\<open>acquired_update\<close> changes the case of the third argument in place.\<close>

definition rwflupdate_effect :: effect where
  "rwflupdate_effect c s = do {
     args \<leftarrow> rargv c;
     t \<leftarrow> CR_GET_LAST args;
     tname \<leftarrow> arg args 1;
     key \<leftarrow> arg args 2;
     (p, s) \<leftarrow> GET_RWFLE tname key True s;
     a \<leftarrow> p;
     x \<leftarrow> arg args 5;
     lt \<leftarrow> sdsToLc x;
     x \<leftarrow> arg args 4;
     v \<leftarrow> getLongLongFromObject x;
     s \<leftarrow> rwfl_removeFunc tname a t s;
     e \<leftarrow> rwfle_at s a;
     let (b, h) = updateCheck (rwfle_header e) t;
     if b then do {
       ty \<leftarrow> arg args 3;
       let e = acquired_update (e\<lparr>rwfle_header := h\<rparr>) ty lt (to_int v);
       let c = c\<lparr>rargv := Some (args[3 := sdstolower ty])\<rparr>;
       Some (c, incr_dirty (heap_put a (LRwfle e) s))
     }
     else Some (c, s)
   }"

definition rwflupdateCommand :: "client \<Rightarrow> server \<Rightarrow> (client \<times> server) option" where
  "rwflupdateCommand = CRDT_COMMAND rwflupdate_prepare rwflupdate_effect"

definition rwflrem_prepare :: prepare where
  "rwflrem_prepare c s =
     after_checks (then_check (CHECK_ARGC 3 c) (CHECK_CONTAINER_TYPE is_hash s)) s
       (\<lambda>c. do {
          tname \<leftarrow> arg (argv c) 1;
          key \<leftarrow> arg (argv c) 2;
          (p, s) \<leftarrow> GET_RWFLE tname key False s;
          (case p of
             None \<Rightarrow> Some (Done (addReply ele_nexist c), s)
           | Some a \<Rightarrow> do {
               e \<leftarrow> rwfle_at s a;
               if \<not> EXISTS (rwfle_header e) then Some (Done (addReply ele_nexist c), s)
               else do {
                 x \<leftarrow> vc_now (reh_current (rwfle_header e));
                 Some (Go (RARGV_ADD_SDS x c), s)
               }
             })
        })"

definition rwflrem_effect :: effect where
  "rwflrem_effect c s = do {
     args \<leftarrow> rargv c;
     tname \<leftarrow> arg args 1;
     key \<leftarrow> arg args 2;
     (p, s) \<leftarrow> GET_RWFLE tname key True s;
     t \<leftarrow> CR_GET_LAST args;
     a \<leftarrow> p;
     s \<leftarrow> rwfl_removeFunc tname a t s;
     Some (c, s)
   }"

definition rwflremCommand :: "client \<Rightarrow> server \<Rightarrow> (client \<times> server) option" where
  "rwflremCommand = CRDT_COMMAND rwflrem_prepare rwflrem_effect"

section \<open>Queries\<close>

definition rwfllenCommand :: "client \<Rightarrow> server \<Rightarrow> (client \<times> server) option" where
  "rwfllenCommand c s = do {
     key \<leftarrow> arg (argv c) 1;
     let (o', c) = lookupKeyReadOrReply c key (RInt 0) s;
     (case o' of
        None \<Rightarrow> Some (c, s)
      | Some (OHash h) \<Rightarrow> do {
          n \<leftarrow> getLen key s;
          Some (addReply (RInt n) c, s)
        }
      | Some _ \<Rightarrow> Some (addReply wrongtypeerr c, s))
   }"

text \<open>What \<open>rwfllist\<close> replies for one visible element.\<close>

definition rwfl_show :: "rwfle \<Rightarrow> rep list option" where
  "rwfl_show e = do {
     oid \<leftarrow> rwfle_oid e;
     content \<leftarrow> rwfle_content e;
     Some [RArrayLen 6, RBulk oid, RBulk content, RBulkInt (rwfle_normal e font),
       RBulkInt (rwfle_normal e fsize), RBulkInt (rwfle_normal e color), RBulkInt (rwfle_property e)]
   }"

partial_function (option) rwfl_list_loop :: "server \<Rightarrow> addr option \<Rightarrow> client \<Rightarrow> client option" where
  "rwfl_list_loop s q c = (case q of
       None \<Rightarrow> Some c
     | Some a \<Rightarrow> do {
         e \<leftarrow> rwfle_at s a;
         rs \<leftarrow> (if EXISTS (rwfle_header e) then rwfl_show e else Some []);
         rwfl_list_loop s (rwfle_next e) (fold addReply rs c)
       })"

definition rwfllistCommand :: "client \<Rightarrow> server \<Rightarrow> (client \<times> server) option" where
  "rwfllistCommand c s = do {
     key \<leftarrow> arg (argv c) 1;
     let (o', c) = lookupKeyReadOrReply c key REmptyArray s;
     (case o' of
        None \<Rightarrow> Some (c, s)
      | Some (OHash h) \<Rightarrow> do {
          n \<leftarrow> getLen key s;
          hd' \<leftarrow> getHead key s;
          c \<leftarrow> rwfl_list_loop s hd' (addReply (RArrayLen n) c);
          Some (c, s)
        }
      | Some _ \<Rightarrow> Some (addReply wrongtypeerr c, s))
   }"

end
