(* ===== verification/RList.thy ===== *)
theory RList
  imports RwfList CausalQueue
begin

text \<open>
  The commands of the remove-win list with causal delivery, \<open>t_rlist.c\<close>. The clock and the waiting
  commands belong to the list, in the fields \<open>current\<close> and \<open>ops\<close> of its table. \<open>args\<close> are the
  arguments after the command name, as in the C functions.
\<close>

section \<open>Operations\<close>

definition rl_upd :: "addr \<Rightarrow> (rle \<Rightarrow> rle) \<Rightarrow> server \<Rightarrow> server option" where
  "rl_upd a f s = map_option (\<lambda>e. heap_put a (LRle (f e)) s) (rle_at s a)"

definition rl_advance :: "sds \<Rightarrow> vc \<Rightarrow> server \<Rightarrow> server option" where
  "rl_advance ht t s = do {
     (cur, s) \<leftarrow> getCurrent ht s;
     s \<leftarrow> putCurrent ht (vc_update cur t) s;
     Some (incr_dirty s)
   }"

partial_function (option) rl_walk :: "server \<Rightarrow> leid \<Rightarrow> addr \<Rightarrow> addr option \<Rightarrow> (addr \<times> addr option) option" where
  "rl_walk s pos p q = (case q of
       None \<Rightarrow> Some (p, q)
     | Some q' \<Rightarrow> do {
         e \<leftarrow> rle_at s q';
         qpos \<leftarrow> rle_pos_id e;
         if leid_cmp pos qpos > 0 then rl_walk s pos q' (rle_next e) else Some (p, q)
       })"

definition rl_link :: "sds \<Rightarrow> sds \<Rightarrow> sds \<Rightarrow> addr \<Rightarrow> server \<Rightarrow> server option" where
  "rl_link tname ht prev a s = do {
     e \<leftarrow> rle_at s a;
     pos \<leftarrow> rle_pos_id e;
     hd' \<leftarrow> getHead ht s;
     (case hd' of
        None \<Rightarrow> setHead ht a s
      | Some h \<Rightarrow> do {
          he \<leftarrow> rle_at s h;
          hpos \<leftarrow> rle_pos_id he;
          if leid_cmp pos hpos < 0 then do {
            s \<leftarrow> setHead ht a s;
            rl_upd a (\<lambda>e. e\<lparr>rle_next := Some h\<rparr>) s
          }
          else do {
            (pre, s) \<leftarrow> GET_RLE tname prev False s;
            p \<leftarrow> (case pre of
                None \<Rightarrow> Some h
              | Some x \<Rightarrow> map_option (\<lambda>pe. if rle_pos_id pe \<noteq> None then x else h) (rle_at s x));
            pe \<leftarrow> rle_at s p;
            (p, q) \<leftarrow> rl_walk s pos p (rle_next pe);
            s \<leftarrow> rl_upd p (\<lambda>e. e\<lparr>rle_next := Some a\<rparr>) s;
            rl_upd a (\<lambda>e. e\<lparr>rle_next := q\<rparr>) s
          }
        })
   }"

definition rl_insertFunc :: "sds \<Rightarrow> sds list \<Rightarrow> vc \<Rightarrow> server \<Rightarrow> server option" where
  "rl_insertFunc ht args t s = do {
     s \<leftarrow> rl_advance ht t s;
     tname \<leftarrow> arg args 0;
     prev \<leftarrow> arg args 1;
     key \<leftarrow> arg args 2;
     (p, s) \<leftarrow> GET_RLE tname key True s;
     a \<leftarrow> p;
     e \<leftarrow> rle_at s a;
     let pre_insert = rl_LOOKUP e;
     s \<leftarrow> (if rle_oid e = None then do {
         content \<leftarrow> arg args 3;
         x \<leftarrow> arg args 8;
         pos \<leftarrow> sdsToLeid x;
         let e = e\<lparr>rle_oid := Some key, rle_content := Some content, rle_pos_id := Some pos\<rparr>;
         rl_link tname ht prev a (heap_put a (LRle e) s)
       } else Some s);
     e \<leftarrow> rle_at s a;
     (vals, property) \<leftarrow> insert_values args 4;
     S \<leftarrow> insert_sets rla_t (rl_aseNew t vals property) t (rle_sets e);
     let e = e\<lparr>rle_sets := S\<rparr>;
     let s = heap_put a (LRle e) s;
     if \<not> pre_insert \<and> rl_LOOKUP e then incrLen ht 1 s else Some s
   }"

definition rl_updateFunc :: "sds \<Rightarrow> sds list \<Rightarrow> vc \<Rightarrow> server \<Rightarrow> server option" where
  "rl_updateFunc ht args t s = do {
     s \<leftarrow> rl_advance ht t s;
     tname \<leftarrow> arg args 0;
     key \<leftarrow> arg args 1;
     (p, s) \<leftarrow> GET_RLE tname key True s;
     a \<leftarrow> p;
     ty \<leftarrow> arg args 2;
     x \<leftarrow> arg args 3;
     v \<leftarrow> getLongLongFromObject x;
     rl_upd a (rl_update_sets (cstr (sdstolower ty)) v t) s
   }"

definition rl_removeFunc :: "sds \<Rightarrow> sds list \<Rightarrow> vc \<Rightarrow> server \<Rightarrow> server option" where
  "rl_removeFunc ht args t s = do {
     s \<leftarrow> rl_advance ht t s;
     tname \<leftarrow> arg args 0;
     key \<leftarrow> arg args 1;
     (p, s) \<leftarrow> GET_RLE tname key True s;
     a \<leftarrow> p;
     e \<leftarrow> rle_at s a;
     S \<leftarrow> remove_sets rla_t t (rle_sets e);
     let e' = e\<lparr>rle_sets := S\<rparr>;
     let s = heap_put a (LRle e') s;
     if rl_LOOKUP e \<and> \<not> rl_LOOKUP e' then incrLen ht (-1) s else Some s
   }"

definition rl_run :: "sds \<Rightarrow> rl_cmd \<Rightarrow> vc \<times> server \<Rightarrow> (vc \<times> server) option" where
  "rl_run ht cmd = (\<lambda>(cur, s). do {
     s \<leftarrow> (case rlc_type cmd of
         RLADD \<Rightarrow> rl_insertFunc ht (rlc_argv cmd) (rlc_t cmd) s
       | RLUPDATE \<Rightarrow> rl_updateFunc ht (rlc_argv cmd) (rlc_t cmd) s
       | RLREM \<Rightarrow> rl_removeFunc ht (rlc_argv cmd) (rlc_t cmd) s);
     getCurrent ht s
   })"

definition rl_notifyLoop :: "sds \<Rightarrow> server \<Rightarrow> server option" where
  "rl_notifyLoop ht s = do {
     (ops, s) \<leftarrow> getOps ht s;
     (cur, s) \<leftarrow> getCurrent ht s;
     (ops, cur, s) \<leftarrow> notify_loop rlc_t fst (rl_run ht) ops (cur, s);
     putOps ht ops s
   }"

text \<open>The end of the three effects: a ready command is applied and wakes the waiting ones, any
  other has to wait. The result tells whether it was applied.\<close>

definition rl_deliver :: "rl_cmd_type \<Rightarrow> sds list \<Rightarrow> server \<Rightarrow> (bool \<times> server) option" where
  "rl_deliver ty args s = do {
     t \<leftarrow> CR_GET_LAST args;
     tname \<leftarrow> arg args 1;
     (ht, s) \<leftarrow> GET_LIST_HT tname True s;
     ht \<leftarrow> ht;
     (cur, s) \<leftarrow> getCurrent ht s;
     ready \<leftarrow> vc_causally_ready cur t;
     if ready then do {
       (cur, s) \<leftarrow> rl_run ht \<lparr>rlc_type = ty, rlc_argv = tl args, rlc_t = t\<rparr> (cur, s);
       s \<leftarrow> rl_notifyLoop ht s;
       Some (True, s)
     }
     else do {
       (ops, s) \<leftarrow> getOps ht s;
       s \<leftarrow> putOps ht (ops @ [rl_cmdNew ty args t]) s;
       Some (False, s)
     }
   }"

section \<open>Insertion\<close>

definition rl_new_pos :: "sds \<Rightarrow> addr option \<Rightarrow> server \<Rightarrow> (leid \<times> server) option" where
  "rl_new_pos tname pre s = do {
     left \<leftarrow> (case pre of None \<Rightarrow> Some None | Some a \<Rightarrow> map_option rle_pos_id (rle_at s a));
     (right, s) \<leftarrow> (case pre of
         None \<Rightarrow> do {
           (ht, s) \<leftarrow> GET_LIST_HT tname True s;
           ht \<leftarrow> ht;
           h \<leftarrow> getHead ht s;
           (case h of
              None \<Rightarrow> Some (None, s)
            | Some b \<Rightarrow> map_option (\<lambda>e. (rle_pos_id e, s)) (rle_at s b))
         }
       | Some a \<Rightarrow> do {
           e \<leftarrow> rle_at s a;
           (case rle_next e of
              None \<Rightarrow> Some (None, s)
            | Some b \<Rightarrow> map_option (\<lambda>e. (rle_pos_id e, s)) (rle_at s b))
         });
     (ht, s) \<leftarrow> GET_LIST_HT tname True s;
     ht \<leftarrow> ht;
     (cur, s) \<leftarrow> getCurrent ht s;
     let (r, s) = draw_step left right s;
     Some (constructLeid r left right cur, s)
   }"

text \<open>The clock an operation is broadcast with: that of the list, advanced by one.\<close>

definition rl_now :: "sds \<Rightarrow> client \<Rightarrow> server \<Rightarrow> (client step \<times> server) option" where
  "rl_now tname c s = do {
     (ht, s) \<leftarrow> GET_LIST_HT tname True s;
     ht \<leftarrow> ht;
     (cur, s) \<leftarrow> getCurrent ht s;
     x \<leftarrow> vc_now cur;
     Some (Go (RARGV_ADD_SDS x c), s)
   }"

definition rlinsert_prepare :: prepare where
  "rlinsert_prepare c s =
     after_checks (check_ints [5, 6, 7, 8] (then_check (CHECK_ARGC 9 c) (CHECK_CONTAINER_TYPE is_hash s))) s
       (\<lambda>c. do {
          tname \<leftarrow> arg (argv c) 1;
          prev \<leftarrow> arg (argv c) 2;
          key \<leftarrow> arg (argv c) 3;
          (pre, s) \<leftarrow> GET_RLE tname prev False s;
          let c = (if pre = None then c\<lparr>argv := (argv c)[2 := sdstolower prev]\<rparr> else c);
          let prev = (if pre = None then sdstolower prev else prev);
          usable \<leftarrow> (case pre of
              None \<Rightarrow> Some (cstr prev = ''null'' \<or> cstr prev = ''readd'')
            | Some a \<Rightarrow> map_option (\<lambda>p. rl_LOOKUP p \<and> rle_pos_id p \<noteq> None) (rle_at s a));
          if \<not> usable then Some (Done (addReply (no_pre prev) c), s)
          else do {
            (a, s) \<leftarrow> GET_RLE tname key True s;
            a \<leftarrow> a;
            e \<leftarrow> rle_at s a;
            if rl_LOOKUP e then Some (Done (addReply ele_exist c), s)
            else if rle_oid e = None then
              if cstr prev = ''readd'' then Some (Done (addReply (not_added key) c), s)
              else do {
                (id, s) \<leftarrow> rl_new_pos tname pre s;
                x \<leftarrow> leidToSds id;
                rl_now tname (RARGV_ADD_SDS x c) s
              }
            else if cstr prev \<noteq> ''readd'' then Some (Done (addReply (only_readd key) c), s)
            else do {
              pos \<leftarrow> rle_pos_id e;
              x \<leftarrow> leidToSds pos;
              rl_now tname (RARGV_ADD_SDS x c) s
            }
          }
        })"

definition rlinsert_effect :: effect where
  "rlinsert_effect c s = do {
     args \<leftarrow> rargv c;
     (_, s) \<leftarrow> rl_deliver RLADD args s;
     Some (c, s)
   }"

definition rlinsertCommand :: "client \<Rightarrow> server \<Rightarrow> (client \<times> server) option" where
  "rlinsertCommand = CRDT_COMMAND rlinsert_prepare rlinsert_effect"

section \<open>Updates and removals\<close>

text \<open>The check that the element is in the list, shared by update and removal.\<close>

definition rl_existing :: "client \<Rightarrow> server \<Rightarrow> (client step \<times> server) option" where
  "rl_existing c s = do {
     tname \<leftarrow> arg (argv c) 1;
     key \<leftarrow> arg (argv c) 2;
     (p, s) \<leftarrow> GET_RLE tname key False s;
     (case p of
        None \<Rightarrow> Some (Done (addReply ele_nexist c), s)
      | Some a \<Rightarrow> do {
          e \<leftarrow> rle_at s a;
          if \<not> rl_LOOKUP e then Some (Done (addReply ele_nexist c), s) else rl_now tname c s
        })
   }"

definition rlupdate_prepare :: prepare where
  "rlupdate_prepare c s =
     after_checks (then_check (then_check (CHECK_ARGC 5 c) (CHECK_CONTAINER_TYPE is_hash s)) (CHECK_ARG_TYPE_INT 4)) s
       (\<lambda>c. rl_existing c s)"

text \<open>\<open>updateFunc\<close> changes the case of the type argument in place.\<close>

definition rlupdate_effect :: effect where
  "rlupdate_effect c s = do {
     args \<leftarrow> rargv c;
     (applied, s) \<leftarrow> rl_deliver RLUPDATE args s;
     Some (if applied then c\<lparr>rargv := Some (args[3 := sdstolower (args ! 3)])\<rparr> else c, s)
   }"

definition rlupdateCommand :: "client \<Rightarrow> server \<Rightarrow> (client \<times> server) option" where
  "rlupdateCommand = CRDT_COMMAND rlupdate_prepare rlupdate_effect"

definition rlrem_prepare :: prepare where
  "rlrem_prepare c s =
     after_checks (then_check (CHECK_ARGC 3 c) (CHECK_CONTAINER_TYPE is_hash s)) s (\<lambda>c. rl_existing c s)"

definition rlrem_effect :: effect where
  "rlrem_effect c s = do {
     args \<leftarrow> rargv c;
     (_, s) \<leftarrow> rl_deliver RLREM args s;
     Some (c, s)
   }"

definition rlremCommand :: "client \<Rightarrow> server \<Rightarrow> (client \<times> server) option" where
  "rlremCommand = CRDT_COMMAND rlrem_prepare rlrem_effect"

section \<open>Queries\<close>

definition rllenCommand :: "client \<Rightarrow> server \<Rightarrow> (client \<times> server) option" where
  "rllenCommand c s = rwfllenCommand c s"

definition rl_show :: "rle \<Rightarrow> rep list option" where
  "rl_show e = do {
     oid \<leftarrow> rle_oid e;
     content \<leftarrow> rle_content e;
     a \<leftarrow> value_of (rle_sets e);
     Some [RArrayLen 6, RBulk oid, RBulk content, RBulkInt (rla_normal a font),
       RBulkInt (rla_normal a fsize), RBulkInt (rla_normal a color), RBulkInt (rla_property a)]
   }"

partial_function (option) rl_list_loop :: "server \<Rightarrow> addr option \<Rightarrow> client \<Rightarrow> client option" where
  "rl_list_loop s q c = (case q of
       None \<Rightarrow> Some c
     | Some a \<Rightarrow> do {
         e \<leftarrow> rle_at s a;
         rs \<leftarrow> (if rl_LOOKUP e then rl_show e else Some []);
         rl_list_loop s (rle_next e) (fold addReply rs c)
       })"

definition rllistCommand :: "client \<Rightarrow> server \<Rightarrow> (client \<times> server) option" where
  "rllistCommand c s = do {
     key \<leftarrow> arg (argv c) 1;
     let (o', c) = lookupKeyReadOrReply c key REmptyArray s;
     (case o' of
        None \<Rightarrow> Some (c, s)
      | Some (OHash h) \<Rightarrow> do {
          n \<leftarrow> getLen key s;
          hd' \<leftarrow> getHead key s;
          c \<leftarrow> rl_list_loop s hd' (addReply (RArrayLen n) c);
          Some (c, s)
        }
      | Some _ \<Rightarrow> Some (addReply wrongtypeerr c, s))
   }"

end
