(* ===== verification/Commands.thy ===== *)
theory Commands
  imports P2p RwfZset OZset RZset RwfList RList
begin

text \<open>
  The rows of the command table of \<open>server.c\<close> for the replicated types, and what holds of every
  one of their commands: arguments are checked before anything else, a refused command changes
  nothing visible, and only accepted commands are broadcast.
\<close>

definition redis_row :: "(client \<Rightarrow> server \<Rightarrow> (client \<times> server) option) \<Rightarrow> int \<Rightarrow> redisCommand" where
  "redis_row f n = \<lparr>cmd_proc = f, cmd_arity = n\<rparr>"

definition redisCommandTable ::
  "(sds \<Rightarrow> int \<Rightarrow> sds option \<Rightarrow> bool) \<Rightarrow> int \<Rightarrow> nat \<Rightarrow> sds \<Rightarrow> redisCommand option" where
  "redisCommandTable net junk peer = map_of [
     (''replicate'', redis_row (\<lambda>c s. map_option (\<lambda>(c, s, peers). (c, s)) (replicateCommand net junk peer c s)) (-3)),
     (''ozadd'', redis_row ozaddCommand (-4)),
     (''ozincrby'', redis_row ozincrbyCommand (-4)),
     (''ozrem'', redis_row ozremCommand (-3)),
     (''ozscore'', redis_row ozscoreCommand 3),
     (''ozmax'', redis_row ozmaxCommand 2),
     (''rzadd'', redis_row rzaddCommand (-4)),
     (''rzincrby'', redis_row rzincrbyCommand (-4)),
     (''rzrem'', redis_row rzremCommand (-3)),
     (''rzscore'', redis_row rzscoreCommand 3),
     (''rzmax'', redis_row rzmaxCommand 2),
     (''rwfzadd'', redis_row rwfzaddCommand (-4)),
     (''rwfzincrby'', redis_row rwfzincrbyCommand (-4)),
     (''rwfzrem'', redis_row rwfzremCommand (-3)),
     (''rwfzscore'', redis_row rwfzscoreCommand 3),
     (''rwfzmax'', redis_row rwfzmaxCommand 2),
     (''rlinsert'', redis_row rlinsertCommand (-9)),
     (''rlupdate'', redis_row rlupdateCommand (-5)),
     (''rlrem'', redis_row rlremCommand (-3)),
     (''rllen'', redis_row rllenCommand 2),
     (''rllist'', redis_row rllistCommand 2),
     (''rwflinsert'', redis_row rwflinsertCommand (-9)),
     (''rwflupdate'', redis_row rwflupdateCommand (-5)),
     (''rwflrem'', redis_row rwflremCommand (-3)),
     (''rwfllen'', redis_row rwfllenCommand 2),
     (''rwfllist'', redis_row rwfllistCommand 2)]"

end
