(* ===== verification/Frames.thy ===== *)
theory Frames
  imports Commands
begin

text \<open>
  What no command of a replicated type changes: the connections of the server, its place in the
  group, and the flags of the client. The facts are collected in \<open>keep\<close>, from the accesses to the
  key space up to the commands; a command that is refused also leaves nothing to broadcast.
\<close>

named_theorems keep

definition conn :: "server \<Rightarrow> int \<times> int \<times> link list" where
  "conn s = (p2p_count s, p2p_id s, replicas s)"

definition flags :: "client \<Rightarrow> bool \<times> bool" where
  "flags c = (flag_replica c, flag_message c)"

text \<open>The client \<open>d\<close> is \<open>c\<close> after an error reply.\<close>

definition refused :: "client \<Rightarrow> client \<Rightarrow> bool" where
  "refused c d \<longleftrightarrow> flags d = flags c \<and> rargv d = rargv c \<and> (\<exists>e. replies d = replies (addReply (RErr e) c))"

lemma conn_simps [simp]:
  "conn (db_put k v s) = conn s" "conn (heap_put a x s) = conn s" "conn (incr_dirty s) = conn s"
  "conn (s\<lparr>random_draws := rs\<rparr>) = conn s" "conn (s\<lparr>rand_draws := rs\<rparr>) = conn s"
  by (simp_all add: conn_def db_put_def heap_put_def incr_dirty_def)

lemma new_keep: "heap_new x s = (v, s') \<Longrightarrow> conn s' = conn s" "draw_step p q s = (r, s') \<Longrightarrow> conn s' = conn s"
  by (auto simp: conn_def heap_new_def draw_rand_def draw_step_def Let_def split: list.splits if_splits)

lemma flags_simps [simp]:
  "flags (addReply r c) = flags c" "flags (RARGV_ADD_SDS x c) = flags c" "flags (c\<lparr>argv := as\<rparr>) = flags c"
  "flags (c\<lparr>rargv := as'\<rparr>) = flags c" "flags (INIT_RARGV c) = flags c"
  by (simp_all add: flags_def INIT_RARGV_def)

lemma replies_simps [simp]:
  "replies (RARGV_ADD_SDS x c) = replies c" "replies (INIT_RARGV c) = replies c"
  "replies (addReply r (c\<lparr>argv := as\<rparr>)) = replies (addReply r c)"
  by (simp_all add: RARGV_ADD_SDS_def INIT_RARGV_def addReply_def prepareClientToWrite_def Let_def)

lemma refused_simps [simp]:
  "refused c (addReply (RErr e) c)" "refused c (addReply (RErr e) (c\<lparr>argv := as\<rparr>))"
  "refused c (addReply (no_pre x) c)" "refused c (addReply (no_pre x) (c\<lparr>argv := as\<rparr>))"
  "refused c (addReply (not_added x) c)" "refused c (addReply (not_added x) (c\<lparr>argv := as\<rparr>))"
  "refused c (addReply (only_readd x) c)" "refused c (addReply (only_readd x) (c\<lparr>argv := as\<rparr>))"
  by (auto simp: refused_def no_pre_def not_added_def only_readd_def)

text \<open>\<open>ens r Q\<close>: what \<open>r\<close> returns, if it returns, satisfies \<open>Q\<close>. The rules follow the shape of a
  definition; \<open>keep\<close> supplies the calls.\<close>

definition ens :: "'a option \<Rightarrow> ('a \<Rightarrow> bool) \<Rightarrow> bool" where
  "ens r Q \<longleftrightarrow> (\<forall>x. r = Some x \<longrightarrow> Q x)"

lemma ensD: "ens r Q \<Longrightarrow> r = Some x \<Longrightarrow> Q x"
  by (simp add: ens_def)

lemma ensI: "(\<And>x. r = Some x \<Longrightarrow> Q x) \<Longrightarrow> ens r Q"
  by (simp add: ens_def)

lemma ens_any: "(\<And>x. Q x) \<Longrightarrow> ens r Q"
  by (simp add: ens_def)

lemma ens_use: "ens r P \<Longrightarrow> (\<And>x. P x \<Longrightarrow> Q x) \<Longrightarrow> ens r Q"
  by (simp add: ens_def)

lemma ens_intros:
  "Q x \<Longrightarrow> ens (Some x) Q"
  "ens None Q"
  "ens r (\<lambda>x. ens (f x) Q) \<Longrightarrow> ens (Option.bind r f) Q"
  "ens r (\<lambda>x. Q (g x)) \<Longrightarrow> ens (map_option g r) Q"
  "(b \<Longrightarrow> ens r1 Q) \<Longrightarrow> (\<not> b \<Longrightarrow> ens r2 Q) \<Longrightarrow> ens (if b then r1 else r2) Q"
  "(\<And>x y. p = (x, y) \<Longrightarrow> ens (h x y) Q) \<Longrightarrow> ens (case p of (x, y) \<Rightarrow> h x y) Q"
  "(v = None \<Longrightarrow> ens r1 Q) \<Longrightarrow> (\<And>x. v = Some x \<Longrightarrow> ens (f x) Q) \<Longrightarrow> ens (case v of None \<Rightarrow> r1 | Some x \<Rightarrow> f x) Q"
  by (auto simp: ens_def bind_eq_Some_conv split: prod.splits option.splits)

lemma ens_case:
  "\<lbrakk>\<And>x. ens (f1 x) Q; \<And>x. ens (f2 x) Q; \<And>x. ens (f3 x) Q; \<And>x. ens (f4 x) Q; \<And>x. ens (f5 x) Q; \<And>x. ens (f6 x) Q; \<And>x. ens (f7 x) Q\<rbrakk> \<Longrightarrow>
   ens (case_hval f1 f2 f3 f4 f5 f6 f7 v) Q"
  "\<lbrakk>\<And>x. ens (g1 x) Q; \<And>x. ens (g2 x) Q; ens g3 Q\<rbrakk> \<Longrightarrow> ens (case_robj g1 g2 g3 w) Q"
  by (simp_all split: hval.split robj.split)

lemmas ens_pure =
  ens_any[where r = "arg as i" for as i] ensI[where r = "rargv c" for c]
  ens_any[where r = "getDoubleFromObject x" for x] ens_any[where r = "getLongLongFromObject x" for x]
  ens_any[where r = "sdsToVC x" for x] ens_any[where r = "sdsToLc x" for x] ens_any[where r = "sdsToLeid x" for x]
  ens_any[where r = "vcToSds x" for x] ens_any[where r = "vc_now x" for x] ens_any[where r = "leidToSds x" for x]
  ens_any[where r = "CR_GET_LAST x" for x] ens_any[where r = "vc_causally_ready x y" for x y] ens_any[where r = "vc_inc x y" for x y]
  ens_any[where r = "hashTypeGetValueObject s h f" for s h f] ens_any[where r = "zset_at s h" for s h]
  ens_any[where r = "zsetAdd a b c d e f g" for a b c d e f g] ens_any[where r = "zsetDel a b" for a b]
  ens_any[where r = "getHead ht s" for ht s] ens_any[where r = "getLen ht s" for ht s]
  ens_any[where r = "rwfle_at s a" for s a] ens_any[where r = "rle_at s a" for s a]
  ens_any[where r = "removeCheck h t" for h t]

lemmas ens_rules = ens_intros ens_case ens_pure

section \<open>The key space\<close>

lemma dbAdd_keep [keep]: "(\<And>s'. conn s' = conn s \<Longrightarrow> Q s') \<Longrightarrow> ens (dbAdd k v s) Q"
  unfolding dbAdd_def by (intro ens_rules) simp_all

lemma hashTypeSet_keep [keep]: "(\<And>s'. conn s' = conn s \<Longrightarrow> Q s') \<Longrightarrow> ens (hashTypeSet h f v s) Q"
  unfolding hashTypeSet_def by (intro ens_rules ens_any) simp_all

lemma getInnerHT_keep [keep]: "(\<And>p s'. conn s' = conn s \<Longrightarrow> Q (p, s')) \<Longrightarrow> ens (getInnerHT tname suffix b s) Q"
  unfolding getInnerHT_def Let_def by (intro ens_rules keep) simp_all

lemma rehHTGet_keep [keep]:
  assumes "\<And>s e s'. new s = (e, s') \<Longrightarrow> conn s' = conn s" and "\<And>p s'. conn s' = conn s \<Longrightarrow> Q (p, s')"
  shows "ens (rehHTGet new tname suffix key b s) Q"
  unfolding rehHTGet_def Let_def by (intro ens_rules keep assms(2)) (auto dest!: assms(1))

lemma GET_keep [keep]:
  "(\<And>p s'. conn s' = conn s \<Longrightarrow> Q1 (p, s')) \<Longrightarrow> ens (GET_RWFZE tname key b s) Q1"
  "(\<And>p s'. conn s' = conn s \<Longrightarrow> Q2 (p, s')) \<Longrightarrow> ens (GET_OZE tname key b s) Q2"
  "(\<And>p s'. conn s' = conn s \<Longrightarrow> Q3 (p, s')) \<Longrightarrow> ens (GET_RZE tname key b s) Q3"
  "(\<And>p s'. conn s' = conn s \<Longrightarrow> Q4 (p, s')) \<Longrightarrow> ens (GET_RWFLE tname key b s) Q4"
  "(\<And>p s'. conn s' = conn s \<Longrightarrow> Q5 (p, s')) \<Longrightarrow> ens (GET_RLE tname key b s) Q5"
  unfolding GET_RWFZE_def GET_OZE_def GET_RZE_def GET_RWFLE_def GET_RLE_def
  by (intro ens_rules keep, auto dest: new_keep)+

lemma put_keep [keep]:
  "(\<And>s'. conn s' = conn s \<Longrightarrow> Q s') \<Longrightarrow> ens (put_rwfze tname key e1 s) Q"
  "(\<And>s'. conn s' = conn s \<Longrightarrow> Q s') \<Longrightarrow> ens (put_oze tname key e2 s) Q"
  "(\<And>s'. conn s' = conn s \<Longrightarrow> Q s') \<Longrightarrow> ens (put_rze tname key e3 s) Q"
  "(\<And>s'. conn s' = conn s \<Longrightarrow> Q s') \<Longrightarrow> ens (setHead ht a s) Q"
  "(\<And>s'. conn s' = conn s \<Longrightarrow> Q s') \<Longrightarrow> ens (putCurrent ht cur s) Q"
  "(\<And>s'. conn s' = conn s \<Longrightarrow> Q s') \<Longrightarrow> ens (putOps ht ops s) Q"
  unfolding put_rwfze_def put_oze_def put_rze_def setHead_def putCurrent_def putOps_def
  by (intro keep, simp)+

lemma zset_create_keep [keep]: "(\<And>s'. conn s' = conn s \<Longrightarrow> Q s') \<Longrightarrow> ens (getZsetOrCreate tname key s) Q"
  unfolding getZsetOrCreate_def by (intro ens_rules keep) simp_all

lemma zset_keep [keep]:
  "(\<And>s'. conn s' = conn s \<Longrightarrow> Q s') \<Longrightarrow> ens (zset_set_score tname key v s) Q"
  "(\<And>s'. conn s' = conn s \<Longrightarrow> Q s') \<Longrightarrow> ens (zset_del_key tname key s) Q"
  unfolding zset_set_score_def zset_del_key_def by (intro ens_rules keep, auto)+

lemma list_table_keep [keep]:
  "(\<And>p s'. conn s' = conn s \<Longrightarrow> Q1 (p, s')) \<Longrightarrow> ens (GET_LIST_HT tname b s) Q1"
  "(\<And>cur s'. conn s' = conn s \<Longrightarrow> Q2 (cur, s')) \<Longrightarrow> ens (getCurrent ht s) Q2"
  "(\<And>s'. conn s' = conn s \<Longrightarrow> Q3 s') \<Longrightarrow> ens (incrLen ht n s) Q3"
  "(\<And>ops s'. conn s' = conn s \<Longrightarrow> Q4 (ops, s')) \<Longrightarrow> ens (getOps ht s) Q4"
  unfolding GET_LIST_HT_def getCurrent_def incrLen_def getOps_def Let_def
  by (intro ens_rules keep, auto)+

section \<open>Effects\<close>

abbreviation (input) keeping :: "client \<Rightarrow> server \<Rightarrow> client \<times> server \<Rightarrow> bool" where
  "keeping c s \<equiv> \<lambda>(c', s'). conn s' = conn s \<and> flags c' = flags c \<and> replies c' = replies c \<and>
     (rargv c' = None \<longleftrightarrow> rargv c = None)"

lemma rwfz_removeFunc_keep [keep]:
  "(\<And>e' s'. conn s' = conn s \<Longrightarrow> Q (e', s')) \<Longrightarrow> ens (rwfz_removeFunc tname key e t s) Q"
  unfolding rwfz_removeFunc_def Let_def by (intro ens_rules keep) auto

lemma rwfz_effects_keep:
  "ens (rwfzadd_effect c s) (keeping c s)" "ens (rwfzincrby_effect c s) (keeping c s)"
  "ens (rwfzrem_effect c s) (keeping c s)"
  unfolding rwfzadd_effect_def rwfzincrby_effect_def rwfzrem_effect_def Let_def
  by (intro ens_rules keep ens_any, auto)+

lemma oz_set_score_keep [keep]: "(\<And>s'. conn s' = conn s \<Longrightarrow> Q s') \<Longrightarrow> ens (oz_set_score tname key e s) Q"
  unfolding oz_set_score_def by (intro ens_rules keep ens_any) auto

lemma oz_effects_keep:
  "ens (ozadd_effect c s) (keeping c s)" "ens (ozincrby_effect c s) (keeping c s)" "ens (ozrem_effect c s) (keeping c s)"
  unfolding ozadd_effect_def ozincrby_effect_def ozrem_effect_def Let_def
  by (intro ens_rules keep ens_any, auto)+

text \<open>A property that every command keeps is kept by the loop over the waiting commands.\<close>

lemma ens_notify_loop:
  assumes "P s" and "\<And>x s. P s \<Longrightarrow> ens (run x s) P"
  shows "ens (notify_loop clk cur run ops s) (\<lambda>(ops', s'). P s')"
  using assms
proof (induction clk cur run ops s rule: notify_loop.induct)
  case (1 clk cur run ops s)
  have "ens (notify_loop clk cur run rest s') (\<lambda>(ops', s'). P s')"
    if "next_ready clk (cur s) ops = Some (Some (x, rest))" "run x s = Some s'" for x rest s'
    using 1(1)[OF that(1) refl refl that(2)] ensD[OF 1(3)[OF 1(2)] that(2)] 1(3) by simp
  then show ?case
    using 1(2) by (subst notify_loop.simps) (auto simp: ens_def split: option.splits)
qed

lemma rz_set_score_keep [keep]: "(\<And>s'. conn s' = conn s \<Longrightarrow> Q s') \<Longrightarrow> ens (rz_set_score tname key e s) Q"
  unfolding rz_set_score_def by (intro ens_rules keep ens_any) auto

lemma rz_run_keep [keep]:
  "(\<And>e' s'. conn s' = conn (snd es) \<Longrightarrow> Q (e', s')) \<Longrightarrow> ens (rz_run tname key cmd es) Q"
  unfolding rz_run_def
  by (cases "rzc_type cmd") (simp_all add: rz_addFunc_def rz_increaseFunc_def rz_removeFunc_def Let_def,
      (intro ens_rules keep ens_any, auto)+)

lemma rz_notifyLoop_keep [keep]:
  "(\<And>e' s'. conn s' = conn (snd es) \<Longrightarrow> Q (e', s')) \<Longrightarrow> ens (rz_notifyLoop tname key es) Q"
  unfolding rz_notifyLoop_def
  by (intro ens_intros(4) ens_use[OF ens_notify_loop[where P = "\<lambda>es'. conn (snd es') = conn (snd es)"]])
    (auto intro: keep)

lemma rz_deliver_keep [keep]: "(\<And>s'. conn s' = conn s \<Longrightarrow> Q s') \<Longrightarrow> ens (rz_deliver tname key cmd e s) Q"
  unfolding rz_deliver_def by (intro ens_rules keep) auto

lemma rz_effects_keep:
  "ens (rzadd_effect c s) (keeping c s)" "ens (rzincrby_effect c s) (keeping c s)" "ens (rzrem_effect c s) (keeping c s)"
  unfolding rzadd_effect_def rzincrby_effect_def rzrem_effect_def Let_def
  by (intro ens_rules keep ens_any, auto)+

lemma rwfl_upd_keep [keep]:
  "(\<And>s'. conn s' = conn s \<Longrightarrow> Q s') \<Longrightarrow> ens (heap_upd a f s) Q"
  "(\<And>s'. conn s' = conn s \<Longrightarrow> Q s') \<Longrightarrow> ens (rl_upd a g s) Q"
  unfolding heap_upd_def rl_upd_def by (intro ens_rules, auto)+

lemma rwfl_removeFunc_keep [keep]: "(\<And>s'. conn s' = conn s \<Longrightarrow> Q s') \<Longrightarrow> ens (rwfl_removeFunc tname a t s) Q"
  unfolding rwfl_removeFunc_def Let_def by (intro ens_rules keep ens_any) auto

lemma link_keep [keep]:
  "(\<And>s'. conn s' = conn s \<Longrightarrow> Q s') \<Longrightarrow> ens (rwfl_link tname ht prev a s) Q"
  "(\<And>s'. conn s' = conn s \<Longrightarrow> Q s') \<Longrightarrow> ens (rl_link tname ht prev a s) Q"
  unfolding rwfl_link_def rl_link_def by (intro ens_rules keep ens_any, auto)+

lemma rwflinsert_effect_keep: "ens (rwflinsert_effect c s) (keeping c s)"
  unfolding rwflinsert_effect_def Let_def by (intro ens_rules keep ens_any) simp_all

lemma rwflupdate_effect_keep: "ens (rwflupdate_effect c s) (keeping c s)"
  unfolding rwflupdate_effect_def Let_def
  by (intro ens_rules keep ens_any) simp_all

lemma rwflrem_effect_keep: "ens (rwflrem_effect c s) (keeping c s)"
  unfolding rwflrem_effect_def Let_def by (intro ens_rules keep ens_any) simp_all

lemma rl_advance_keep [keep]: "(\<And>s'. conn s' = conn s \<Longrightarrow> Q s') \<Longrightarrow> ens (rl_advance ht t s) Q"
  unfolding rl_advance_def by (intro ens_rules keep) simp_all

lemma rl_funcs_keep [keep]:
  "(\<And>s'. conn s' = conn s \<Longrightarrow> Q s') \<Longrightarrow> ens (rl_insertFunc ht args t s) Q"
  "(\<And>s'. conn s' = conn s \<Longrightarrow> Q s') \<Longrightarrow> ens (rl_updateFunc ht args t s) Q"
  "(\<And>s'. conn s' = conn s \<Longrightarrow> Q s') \<Longrightarrow> ens (rl_removeFunc ht args t s) Q"
  unfolding rl_insertFunc_def rl_updateFunc_def rl_removeFunc_def Let_def by (intro ens_rules keep ens_any, simp_all)+

lemma rl_run_keep [keep]: "(\<And>cur' s'. conn s' = conn (snd cs) \<Longrightarrow> Q (cur', s')) \<Longrightarrow> ens (rl_run ht cmd cs) Q"
  unfolding rl_run_def by (cases "rlc_type cmd") (simp_all, (intro ens_rules keep, simp_all)+)

lemma rl_notifyLoop_keep [keep]: "(\<And>s'. conn s' = conn s \<Longrightarrow> Q s') \<Longrightarrow> ens (rl_notifyLoop ht s) Q"
  unfolding rl_notifyLoop_def
  by (intro ens_rules keep ens_use[OF ens_notify_loop[where P = "\<lambda>cs. conn (snd cs) = conn s"]])
    (auto intro!: keep ens_rules)

lemma rl_deliver_keep [keep]: "(\<And>b s'. conn s' = conn s \<Longrightarrow> Q (b, s')) \<Longrightarrow> ens (rl_deliver ty args s) Q"
  unfolding rl_deliver_def by (intro ens_rules keep ens_any) simp_all

lemma rl_effects_keep:
  "ens (rlinsert_effect c s) (keeping c s)" "ens (rlupdate_effect c s) (keeping c s)" "ens (rlrem_effect c s) (keeping c s)"
  unfolding rlinsert_effect_def rlupdate_effect_def rlrem_effect_def by (intro ens_rules keep, simp_all)+

section \<open>Prepare phases\<close>

text \<open>A check hands the client on unchanged, or ends the command with a reply only.\<close>

definition gate :: "client \<Rightarrow> client step \<Rightarrow> bool" where
  "gate c r \<longleftrightarrow> (case r of Go d \<Rightarrow> d = c | Done d \<Rightarrow> refused c d | Crash \<Rightarrow> True)"

lemma gate_checks:
  "gate c (CHECK_ARGC n c)" "gate c (CHECK_CONTAINER_TYPE ty s c)" "gate c (CHECK_ARG_TYPE_INT i c)"
  "gate c (CHECK_ARG_TYPE_DOUBLE i c)"
  by (simp_all add: gate_def CHECK_ARGC_def CHECK_CONTAINER_TYPE_def CHECK_ARG_TYPE_INT_def CHECK_ARG_TYPE_DOUBLE_def
      addReplyError_def split: option.split)

lemma gate_then: "gate c r \<Longrightarrow> gate c (f c) \<Longrightarrow> gate c (then_check r f)"
  by (cases r) (auto simp: gate_def)

lemma gate_ints: "gate c r \<Longrightarrow> gate c (check_ints is r)"
  unfolding check_ints_def
  by (induction "is" arbitrary: r) (auto intro: gate_then gate_checks)

abbreviation (input) preparing :: "client \<Rightarrow> server \<Rightarrow> client step \<times> server \<Rightarrow> bool" where
  "preparing c s \<equiv> \<lambda>(r, s'). conn s' = conn s \<and>
     (case r of Go d \<Rightarrow> flags d = flags c \<and> replies d = replies c | Done d \<Rightarrow> refused c d | Crash \<Rightarrow> True)"

lemma ens_after_checks:
  "gate c r \<Longrightarrow> ens (f c) (preparing c s) \<Longrightarrow> ens (after_checks r s f) (preparing c s)"
  by (cases r) (auto simp: gate_def after_checks_def intro!: ens_intros)

lemmas prepare_rules = ens_after_checks gate_then gate_ints gate_checks ens_rules

lemma rwfz_prepares_keep:
  "ens (rwfzadd_prepare c s) (preparing c s)" "ens (rwfzincrby_prepare c s) (preparing c s)"
  "ens (rwfzrem_prepare c s) (preparing c s)"
  unfolding rwfzadd_prepare_def rwfzincrby_prepare_def rwfzrem_prepare_def
  by (intro prepare_rules keep ens_any, simp_all)+

lemma RARGV_ADD_TAGS_simps [simp]: "flags (RARGV_ADD_TAGS e c) = flags c" "replies (RARGV_ADD_TAGS e c) = replies c"
proof -
  have "flags (fold (\<lambda>(_, a). RARGV_ADD_SDS (lcToSds (ase_t a))) xs c) = flags c \<and>
    replies (fold (\<lambda>(_, a). RARGV_ADD_SDS (lcToSds (ase_t a))) xs c) = replies c" for xs :: "(addr \<times> oz_ase) list" and c
    by (induction xs arbitrary: c) auto
  then show "flags (RARGV_ADD_TAGS e c) = flags c" "replies (RARGV_ADD_TAGS e c) = replies c"
    by (simp_all add: RARGV_ADD_TAGS_def)
qed

lemma oz_prepares_keep:
  "ens (ozadd_prepare c s) (preparing c s)" "ens (ozincrby_prepare c s) (preparing c s)" "ens (ozrem_prepare c s) (preparing c s)"
  unfolding ozadd_prepare_def ozincrby_prepare_def ozrem_prepare_def Let_def
  by (intro prepare_rules keep ens_any, simp_all)+

lemma rz_prepares_keep:
  "ens (rzadd_prepare c s) (preparing c s)" "ens (rzincrby_prepare c s) (preparing c s)" "ens (rzrem_prepare c s) (preparing c s)"
  unfolding rzadd_prepare_def rzincrby_prepare_def rzrem_prepare_def
  by (intro prepare_rules keep ens_any, simp_all)+

lemma new_pos_keep [keep]:
  "(\<And>p s'. conn s' = conn s \<Longrightarrow> Q (p, s')) \<Longrightarrow> ens (rwfl_new_pos tname pre s) Q"
  "(\<And>p s'. conn s' = conn s \<Longrightarrow> Q (p, s')) \<Longrightarrow> ens (rl_new_pos tname pre s) Q"
  unfolding rwfl_new_pos_def rl_new_pos_def Let_def
  by (intro ens_rules keep ens_any, auto dest!: new_keep)+

lemma rl_now_keep [keep]:
  "(\<And>r s'. conn s' = conn s \<Longrightarrow> flags r = flags c \<Longrightarrow> replies r = replies c \<Longrightarrow> Q (Go r, s')) \<Longrightarrow> ens (rl_now tname c s) Q"
  unfolding rl_now_def by (intro ens_rules keep ens_any) simp_all

lemma rwfl_prepares_keep:
  "ens (rwflinsert_prepare c s) (preparing c s)" "ens (rwflupdate_prepare c s) (preparing c s)"
  "ens (rwflrem_prepare c s) (preparing c s)"
  unfolding rwflinsert_prepare_def rwflupdate_prepare_def rwflrem_prepare_def Let_def
  by (intro prepare_rules keep ens_any, simp_all)+

lemma rl_prepares_keep:
  "ens (rlinsert_prepare c s) (preparing c s)" "ens (rlupdate_prepare c s) (preparing c s)"
  "ens (rlrem_prepare c s) (preparing c s)"
  unfolding rlinsert_prepare_def rlupdate_prepare_def rlrem_prepare_def rl_existing_def Let_def
  by (intro prepare_rules keep ens_any, simp_all)+

section \<open>Commands\<close>

text \<open>A command that changes the data either refuses a client with an error or answers \<open>OK\<close> and
  leaves arguments to broadcast; a query leaves everything as it is. Neither answers a replica.\<close>

definition update_cmd :: "(client \<Rightarrow> server \<Rightarrow> (client \<times> server) option) \<Rightarrow> bool" where
  "update_cmd proc \<longleftrightarrow> (\<forall>c s. ens (proc c s) (\<lambda>(c', s'). conn s' = conn s \<and> flags c' = flags c \<and>
     (if prepareClientToWrite c
      then \<not> flag_replica c \<and> \<not> flag_message c \<and> rargv c = None \<longrightarrow>
        refused c c' \<or> rargv c' \<noteq> None \<and> replies c' = replies c @ [ROk]
      else replies c' = replies c)))"

definition query_cmd :: "(client \<Rightarrow> server \<Rightarrow> (client \<times> server) option) \<Rightarrow> bool" where
  "query_cmd proc \<longleftrightarrow> (\<forall>c s. ens (proc c s) (\<lambda>(c', s'). s' = s \<and> flags c' = flags c \<and> rargv c' = rargv c \<and>
     (\<not> prepareClientToWrite c \<longrightarrow> replies c' = replies c)))"

lemma write_flags: "flags c = flags d \<Longrightarrow> prepareClientToWrite c = prepareClientToWrite d"
  by (simp add: flags_def prepareClientToWrite_def)

lemma addReply_mute [simp]: "\<not> prepareClientToWrite c \<Longrightarrow> addReply r c = c"
  by (simp add: addReply_def)

lemma write_addReply [simp]: "prepareClientToWrite (addReply r c) = prepareClientToWrite c"
  by (simp add: prepareClientToWrite_def)

lemma fold_addReply_keep [simp]:
  "flags (fold addReply rs c) = flags c" "rargv (fold addReply rs c) = rargv c"
  by (induction rs arbitrary: c) auto

lemma fold_addReply_mute [simp]: "\<not> prepareClientToWrite c \<Longrightarrow> fold addReply rs c = c"
  by (induction rs) auto

lemma CRDT_COMMAND_update:
  assumes prep: "\<And>c s. ens (prep c s) (preparing c s)" and eff: "\<And>c s. ens (eff c s) (keeping c s)"
  shows "update_cmd (CRDT_COMMAND prep eff)"
  unfolding update_cmd_def
proof (intro allI ensI)
  fix c s r
  assume r: "CRDT_COMMAND prep eff c s = Some r"
  obtain c' s' where r': "r = (c', s')" by fastforce
  show "case r of (c', s') \<Rightarrow> conn s' = conn s \<and> flags c' = flags c \<and>
     (if prepareClientToWrite c
      then \<not> flag_replica c \<and> \<not> flag_message c \<and> rargv c = None \<longrightarrow>
        refused c c' \<or> rargv c' \<noteq> None \<and> replies c' = replies c @ [ROk]
      else replies c' = replies c)"
  proof (cases "REPLICATION_MODE s \<and> \<not> flag_replica c")
    case True
    then obtain p s1 where p: "prep c s = Some (p, s1)" using r by (auto simp: CRDT_COMMAND_def bind_eq_Some_conv)
    note P = ensD[OF prep p]
    show ?thesis
    proof (cases p)
      case (Go d)
      let ?d = "if rargv (addReply ROk d) = None then INIT_RARGV (addReply ROk d) else addReply ROk d"
      obtain c2 s2 where c2: "eff ?d s1 = Some (c2, s2)" "c' = (if flag_message c2 then addReply ROk c2 else c2)" "s' = s2"
        using True r r' p Go by (auto simp: CRDT_COMMAND_def bind_eq_Some_conv Let_def)
      have d: "flags ?d = flags c" "rargv ?d \<noteq> None" "replies ?d = replies c @ [ROk]"
        using P Go True by (auto simp: INIT_RARGV_def addReply_def flags_def prepareClientToWrite_def)
      then have "flags c2 = flags c" "rargv c2 \<noteq> None" "replies c2 = replies c @ [ROk]" "conn s2 = conn s"
        using ensD[OF eff c2(1)] P Go by auto
      then show ?thesis using c2(2,3) r' True by (auto simp: flags_def prepareClientToWrite_def)
    next
      case (Done d)
      then show ?thesis
        using True r r' p P by (auto simp: CRDT_COMMAND_def refused_def prepareClientToWrite_def)
    qed (use True r p in \<open>simp add: CRDT_COMMAND_def\<close>)
  next
    case False
    show ?thesis
    proof (cases "REPLICATION_MODE s")
      case mode: True
      obtain c2 where c2: "eff c s = Some (c2, s')" "c' = (if flag_message c2 then addReply ROk c2 else c2)"
        using False mode r r' by (auto simp: CRDT_COMMAND_def bind_eq_Some_conv)
      then show ?thesis
        using ensD[OF eff c2(1)] False mode r' by (auto simp: addReply_def flags_def prepareClientToWrite_def)
    next
      case mode: False
      then show ?thesis using r r' by (auto simp: CRDT_COMMAND_def)
    qed
  qed
qed

lemma rwfl_list_loop_keep:
  "rwfl_list_loop s q c = Some c' \<Longrightarrow> flags c' = flags c \<and> rargv c' = rargv c \<and> (\<not> prepareClientToWrite c \<longrightarrow> replies c' = replies c)"
proof (induction s q c c' rule: rwfl_list_loop.raw_induct[rotated, consumes 1, case_names step])
  case (step loop s q c c')
  show ?case
  proof (cases q)
    case None
    then show ?thesis using step(2) by simp
  next
    case (Some a)
    then obtain e :: rwfle and rs where "loop s (rwfle_next e) (fold addReply rs c) = Some c'"
      using step(2) by (auto simp: bind_eq_Some_conv split del: if_split)
    from step(1)[OF this] show ?thesis
      using write_flags[OF fold_addReply_keep(1)[of rs c]] by (cases "prepareClientToWrite c") simp_all
  qed
qed

lemma rl_list_loop_keep:
  "rl_list_loop s q c = Some c' \<Longrightarrow> flags c' = flags c \<and> rargv c' = rargv c \<and> (\<not> prepareClientToWrite c \<longrightarrow> replies c' = replies c)"
proof (induction s q c c' rule: rl_list_loop.raw_induct[rotated, consumes 1, case_names step])
  case (step loop s q c c')
  show ?case
  proof (cases q)
    case None
    then show ?thesis using step(2) by simp
  next
    case (Some a)
    then obtain e :: rle and rs where "loop s (rle_next e) (fold addReply rs c) = Some c'"
      using step(2) by (auto simp: bind_eq_Some_conv split del: if_split)
    from step(1)[OF this] show ?thesis
      using write_flags[OF fold_addReply_keep(1)[of rs c]] by (cases "prepareClientToWrite c") simp_all
  qed
qed

lemma ens_lookup:
  "ens (h None (addReply r c)) Q \<Longrightarrow> (\<And>v. ens (h (Some v) c) Q) \<Longrightarrow>
   ens (case lookupKeyReadOrReply c key r s of (o', c) \<Rightarrow> h o' c) Q"
  by (simp add: lookupKeyReadOrReply_def split: option.split)

lemma score_query: "query_cmd score_reply"
  unfolding query_cmd_def score_reply_def Let_def
  by (intro allI ens_intros(3) ens_pure ens_lookup ens_rules ens_any) simp_all

lemma max_query: "query_cmd max_reply"
  unfolding query_cmd_def max_reply_def Let_def
  by (intro allI ens_intros(3) ens_pure ens_lookup ens_rules ens_any) simp_all

lemma len_query: "query_cmd rwfllenCommand"
  unfolding query_cmd_def rwfllenCommand_def Let_def
  by (intro allI ens_intros(3) ens_pure ens_lookup ens_rules ens_any) simp_all

lemma list_queries: "query_cmd rwfllistCommand" "query_cmd rllistCommand"
  unfolding query_cmd_def rwfllistCommand_def rllistCommand_def Let_def
  by (intro allI ens_intros(3) ens_pure ens_lookup ens_rules ensI, auto dest!: rwfl_list_loop_keep rl_list_loop_keep)+

lemmas query_defs = ozscoreCommand_def ozmaxCommand_def rzscoreCommand_def rzmaxCommand_def rwfzscoreCommand_def
  rwfzmaxCommand_def rllenCommand_def

lemma queries:
  "query_cmd ozscoreCommand" "query_cmd ozmaxCommand" "query_cmd rzscoreCommand" "query_cmd rzmaxCommand"
  "query_cmd rwfzscoreCommand" "query_cmd rwfzmaxCommand" "query_cmd rllenCommand"
  using score_query max_query len_query by (simp_all add: query_cmd_def query_defs)

lemma updates:
  "update_cmd ozaddCommand" "update_cmd ozincrbyCommand" "update_cmd ozremCommand"
  "update_cmd rzaddCommand" "update_cmd rzincrbyCommand" "update_cmd rzremCommand"
  "update_cmd rwfzaddCommand" "update_cmd rwfzincrbyCommand" "update_cmd rwfzremCommand"
  "update_cmd rlinsertCommand" "update_cmd rlupdateCommand" "update_cmd rlremCommand"
  "update_cmd rwflinsertCommand" "update_cmd rwflupdateCommand" "update_cmd rwflremCommand"
  unfolding ozaddCommand_def ozincrbyCommand_def ozremCommand_def rzaddCommand_def rzincrbyCommand_def rzremCommand_def
    rwfzaddCommand_def rwfzincrbyCommand_def rwfzremCommand_def rlinsertCommand_def rlupdateCommand_def rlremCommand_def
    rwflinsertCommand_def rwflupdateCommand_def rwflremCommand_def
  by (simp_all only: CRDT_COMMAND_update oz_prepares_keep rz_prepares_keep rwfz_prepares_keep rl_prepares_keep rwfl_prepares_keep
      oz_effects_keep rz_effects_keep rwfz_effects_keep rl_effects_keep
      rwflinsert_effect_keep rwflupdate_effect_keep rwflrem_effect_keep)

lemma table_rows:
  assumes "redisCommandTable net junk peer name = Some cmd" and "name \<noteq> ''replicate''"
  shows "update_cmd (cmd_proc cmd) \<or> query_cmd (cmd_proc cmd)"
  using assms updates queries len_query list_queries
  by (auto simp: redisCommandTable_def redis_row_def split: if_splits)

end
