(* ===== verification/Cluster.thy ===== *)
theory Cluster
  imports Frames "HOL-Library.Sublist"
begin

text \<open>
  A group of replicas and the network between them. A step is the request of a client at one
  replica, or the arrival of the oldest command queued on one connection. The history of a
  replica, a list of commands with the replica each comes from, is recorded on the side: it is
  what the theorems speak about and nothing reads it.
\<close>

section \<open>One request\<close>

definition update_names :: "sds list" where
  "update_names = [''ozadd'', ''ozincrby'', ''ozrem'', ''rzadd'', ''rzincrby'', ''rzrem'', ''rwfzadd'', ''rwfzincrby'', ''rwfzrem'',
     ''rlinsert'', ''rlupdate'', ''rlrem'', ''rwflinsert'', ''rwflupdate'', ''rwflrem'']"

lemma table_updates:
  assumes "redisCommandTable net junk peer name = Some cmd" and "name \<in> set update_names"
  shows "update_cmd (cmd_proc cmd)"
  using assms(2,1) updates unfolding update_names_def
  by (auto simp: redisCommandTable_def redis_row_def)

lemma serve_update:
  assumes "update_cmd proc" "call proc c s = Some (c', s')"
    and c: "\<not> flag_replica c" "\<not> flag_message c" "rargv c = None"
  shows "rargv c' = None \<and> replicas s' = replicas s \<and> (\<exists>e. replies c' = replies c @ [RErr e]) \<or>
    (\<exists>m. rargv c' = Some m \<and> replicas s' = replicas (replicationBroadcast m s) \<and> replies c' = replies c @ [ROk])"
proof -
  have w: "prepareClientToWrite c" using c by (simp add: prepareClientToWrite_def)
  obtain c1 s1 where p: "proc c s = Some (c1, s1)" and r: "c' = c1"
    "s' = (case rargv c1 of Some args \<Rightarrow> replicationBroadcast args s1 | None \<Rightarrow> s1)"
    and k: "conn s1 = conn s" "flags c1 = flags c"
  proof -
    obtain c1 s1 where p: "proc c s = Some (c1, s1)" using assms(2) c by (auto simp: call_def bind_eq_Some_conv)
    then have "conn s1 = conn s" "flags c1 = flags c" using assms(1) by (auto simp: update_cmd_def ens_def)
    then show ?thesis using that[OF p] p assms(2) c by (auto simp: call_def flags_def split: option.splits)
  qed
  have "refused c c1 \<or> rargv c1 \<noteq> None \<and> replies c1 = replies c @ [ROk]"
    using ensD[OF assms(1)[unfolded update_cmd_def, rule_format] p] c w by simp
  then show ?thesis
    using r k c w by (auto simp: refused_def addReply_def conn_def replicationBroadcast_def split: option.splits)
qed

text \<open>C10: a client's request of any of the fifteen commands that change a replicated type is either
  refused with an error, and then nothing is queued on any connection, or answered \<open>OK\<close>, and then
  one and the same command is queued at the end of every connection.\<close>

theorem request_outcome:
  assumes "argv c = name # as" "sdstolower name \<in> set update_names" "\<not> flag_replica c" "\<not> flag_message c" "rargv c = None"
    and "processCommand (redisCommandTable net junk peer) c s = Some (c', s')"
  shows "rargv c' = None \<and> replicas s' = replicas s \<and> (\<exists>e. replies c' = replies c @ [RErr e]) \<or>
    (\<exists>m. rargv c' = Some m \<and> replicas s' = replicas (replicationBroadcast m s) \<and> replies c' = replies c @ [ROk])"
proof (cases "redisCommandTable net junk peer (sdstolower name)")
  case None
  then show ?thesis
    using assms by (auto simp: processCommand_def addReplyError_def addReply_def prepareClientToWrite_def)
next
  case (Some cmd)
  show ?thesis
  proof (cases "arity_ok (cmd_arity cmd) c")
    case True
    then show ?thesis
      using serve_update[OF table_updates[OF Some assms(2)], of c s c' s'] Some assms by (simp add: processCommand_def)
  next
    case False
    then show ?thesis
      using Some assms by (auto simp: processCommand_def addReplyError_def addReply_def prepareClientToWrite_def)
  qed
qed

section \<open>The group\<close>

type_synonym table = "sds \<Rightarrow> redisCommand option"

record cluster =
  sv :: "nat \<Rightarrow> server"
  history :: "nat \<Rightarrow> (nat \<times> sds list) list"

text \<open>Clients and the connections of replicas, between two commands.\<close>

definition is_user :: "client \<Rightarrow> bool" where
  "is_user c \<longleftrightarrow> \<not> flag_replica c \<and> \<not> flag_message c \<and> rargv c = None"

definition is_peer :: "client \<Rightarrow> bool" where
  "is_peer c \<longleftrightarrow> flag_replica c \<and> \<not> flag_message c \<and> rargv c = None"

definition drop_first :: "nat \<Rightarrow> server \<Rightarrow> server" where
  "drop_first k s = s\<lparr>replicas := (replicas s)[k := (replicas s ! k)\<lparr>lk_out := tl (lk_out (replicas s ! k))\<rparr>]\<rparr>"

inductive cstep :: "table \<Rightarrow> (sds list \<Rightarrow> bool) \<Rightarrow> nat \<Rightarrow> cluster \<Rightarrow> cluster \<Rightarrow> bool" for table admit n where
  request: "i < n \<Longrightarrow> is_user c \<Longrightarrow> admit args \<Longrightarrow>
    processCommand table (c\<lparr>argv := args\<rparr>) (sv K i) = Some (c', s') \<Longrightarrow>
    cstep table admit n K
      \<lparr>sv = (sv K)(i := s'),
       history = (history K)(i := history K i @ (case rargv c' of Some m \<Rightarrow> [(i, m)] | None \<Rightarrow> []))\<rparr>"
| deliver: "i < n \<Longrightarrow> k < length (replicas (sv K i)) \<Longrightarrow> j = lk_peer (replicas (sv K i) ! k) \<Longrightarrow>
    lk_out (replicas (sv K i) ! k) = m # rest \<Longrightarrow> is_peer c \<Longrightarrow>
    processCommand table (c\<lparr>argv := m\<rparr>) (sv K j) = Some (c', s') \<Longrightarrow>
    cstep table admit n K
      \<lparr>sv = (sv K)(i := drop_first k (sv K i), j := s'), history = (history K)(j := history K j @ [(i, m)])\<rparr>"

inductive reach :: "table \<Rightarrow> (sds list \<Rightarrow> bool) \<Rightarrow> nat \<Rightarrow> cluster \<Rightarrow> cluster \<Rightarrow> bool" for table admit n K0 where
  start: "reach table admit n K0 K0"
| step: "reach table admit n K0 K \<Longrightarrow> cstep table admit n K K' \<Longrightarrow> reach table admit n K0 K'"

text \<open>A fully connected group: every replica has exactly one connection to every other.\<close>

definition mesh :: "nat \<Rightarrow> cluster \<Rightarrow> bool" where
  "mesh n K \<longleftrightarrow> (\<forall>i < n. distinct (map lk_peer (replicas (sv K i))) \<and> lk_peer ` set (replicas (sv K i)) = {..<n} - {i})"

definition fresh_cluster :: "nat \<Rightarrow> cluster \<Rightarrow> bool" where
  "fresh_cluster n K \<longleftrightarrow> mesh n K \<and> (\<forall>i < n. db (sv K i) = Map.empty \<and> p2p_count (sv K i) = int n \<and> p2p_id (sv K i) = int i \<and>
     history K i = [] \<and> (\<forall>l \<in> set (replicas (sv K i)). lk_out l = []))"

definition quiet :: "nat \<Rightarrow> cluster \<Rightarrow> bool" where
  "quiet n K \<longleftrightarrow> (\<forall>i < n. \<forall>l \<in> set (replicas (sv K i)). lk_out l = [])"

text \<open>The commands of one replica in a history, in order.\<close>

definition sent_by :: "nat \<Rightarrow> (nat \<times> sds list) list \<Rightarrow> sds list list" where
  "sent_by i h = map snd (filter (\<lambda>(j, m). j = i) h)"

text \<open>What is in flight from one replica to another is what the receiver lacks.\<close>

definition accounted :: "nat \<Rightarrow> cluster \<Rightarrow> bool" where
  "accounted n K \<longleftrightarrow> (\<forall>i < n. \<forall>l \<in> set (replicas (sv K i)). sent_by i (history K (lk_peer l)) @ lk_out l = sent_by i (history K i)) \<and>
     (\<forall>j < n. fst ` set (history K j) \<subseteq> {..<n})"

lemma sent_by_simps [simp]:
  "sent_by i [] = []" "sent_by i (h @ h') = sent_by i h @ sent_by i h'" "sent_by i [(i, m)] = [m]"
  "i \<noteq> j \<Longrightarrow> sent_by i [(j, m)] = []"
  by (simp_all add: sent_by_def)

lemma sent_by_count: "count (mset h) (i, m) = count (mset (sent_by i h)) m"
  by (induction h) (auto simp: sent_by_def)

text \<open>Histories with the same commands of every replica hold the same commands.\<close>

lemma sent_by_mset:
  assumes "\<And>i. i < n \<Longrightarrow> sent_by i h = sent_by i h'" and "fst ` set h \<subseteq> {..<n}" "fst ` set h' \<subseteq> {..<n}"
  shows "mset h = mset h'"
proof (rule multiset_eqI)
  fix x :: "nat \<times> sds list"
  obtain i m where x: "x = (i, m)" by fastforce
  have "sent_by i h = sent_by i h'"
  proof (cases "i < n")
    case False
    then have "sent_by i h = []" "sent_by i h' = []" using assms(2,3) by (force simp: sent_by_def filter_empty_conv)+
    then show ?thesis by simp
  qed (rule assms(1))
  then show "count (mset h) x = count (mset h') x" using x by (simp add: sent_by_count)
qed

lemma links_update:
  assumes "k < length ls" and "distinct (map lk_peer ls)" and "l \<in> set (ls[k := (ls ! k)\<lparr>lk_out := out\<rparr>])"
  shows "l = (ls ! k)\<lparr>lk_out := out\<rparr> \<or> l \<in> set ls \<and> lk_peer l \<noteq> lk_peer (ls ! k)"
proof -
  obtain k' where "k' < length ls" "l = ls[k := (ls ! k)\<lparr>lk_out := out\<rparr>] ! k'" using assms(3) by (auto simp: in_set_conv_nth)
  then show ?thesis
    using assms(1,2) nth_eq_iff_index_eq[of "map lk_peer ls" k k'] by (cases "k' = k") auto
qed

lemma mesh_peer:
  assumes "mesh n K" "i < n" "l \<in> set (replicas (sv K i))"
  shows "lk_peer l < n" "lk_peer l \<noteq> i"
proof -
  have "lk_peer l \<in> {..<n} - {i}" using assms unfolding mesh_def by blast
  then show "lk_peer l < n" "lk_peer l \<noteq> i" by simp_all
qed

lemma mesh_link:
  assumes "mesh n K" "i < n" "j < n" "i \<noteq> j"
  obtains l where "l \<in> set (replicas (sv K i))" "lk_peer l = j"
proof -
  have "j \<in> lk_peer ` set (replicas (sv K i))" using assms unfolding mesh_def by simp
  then show ?thesis using that by blast
qed

lemma accounted_prefix:
  assumes "mesh n K" "accounted n K" "i < n" "j < n"
  shows "prefix (sent_by i (history K j)) (sent_by i (history K i))"
    and "quiet n K \<Longrightarrow> sent_by i (history K j) = sent_by i (history K i)"
proof -
  have "\<exists>out. sent_by i (history K j) @ out = sent_by i (history K i) \<and> (quiet n K \<longrightarrow> out = [])"
  proof (cases "i = j")
    case False
    from mesh_link[OF assms(1,3,4) this] obtain l where "l \<in> set (replicas (sv K i))" "lk_peer l = j" by blast
    then show ?thesis using assms(2,3) by (auto simp: accounted_def quiet_def)
  qed simp
  then obtain out where out: "sent_by i (history K j) @ out = sent_by i (history K i)" "quiet n K \<longrightarrow> out = []" by blast
  show "prefix (sent_by i (history K j)) (sent_by i (history K i))" using prefixI[OF out(1)[symmetric]] .
  show "quiet n K \<Longrightarrow> sent_by i (history K j) = sent_by i (history K i)" using out by simp
qed

lemma quiet_same:
  assumes inv: "mesh n K" "accounted n K" and q: "quiet n K" and ij: "i < n" "j < n"
  shows "mset (history K i) = mset (history K j)"
proof (rule sent_by_mset)
  show "sent_by x (history K i) = sent_by x (history K j)" if "x < n" for x
    using accounted_prefix(2)[OF inv that ij(1) q] accounted_prefix(2)[OF inv that ij(2) q] by simp
  show "fst ` set (history K i) \<subseteq> {..<n}" "fst ` set (history K j) \<subseteq> {..<n}"
    using inv(2) ij unfolding accounted_def by simp_all
qed

text \<open>Everything that was ever issued, and how much of it is in flight.\<close>

definition all_issued :: "nat \<Rightarrow> cluster \<Rightarrow> (nat \<times> sds list) list" where
  "all_issued n K = concat (map (\<lambda>i. map (Pair i) (sent_by i (history K i))) [0..<n])"

definition in_flight :: "nat \<Rightarrow> cluster \<Rightarrow> nat" where
  "in_flight n K = (\<Sum>i < n. \<Sum>l \<leftarrow> replicas (sv K i). length (lk_out l))"

lemma count_pairs: "count (image_mset (Pair j) (mset xs)) (i, m) = (if i = j then count (mset xs) m else 0)"
  by (induction xs) auto

lemma all_issued_count:
  assumes "i < n"
  shows "count (mset (all_issued n K)) (i, m) = count (mset (sent_by i (history K i))) m"
proof -
  have "count (mset (concat (map (\<lambda>i. map (Pair i) (f i)) [0..<n]))) (i, m) = (if i < n then count (mset (f i)) m else 0)"
    for f :: "nat \<Rightarrow> sds list list"
    by (induction n) (auto simp: count_pairs)
  then show ?thesis using assms by (simp add: all_issued_def)
qed

lemma history_issued:
  assumes "mesh n K" "accounted n K" "j < n"
  shows "mset (history K j) \<subseteq># mset (all_issued n K)"
proof (rule mset_subset_eqI)
  fix x :: "nat \<times> sds list"
  obtain i m where x: "x = (i, m)" by fastforce
  show "count (mset (history K j)) x \<le> count (mset (all_issued n K)) x"
  proof (cases "i < n")
    case True
    obtain out where "sent_by i (history K i) = sent_by i (history K j) @ out"
      using accounted_prefix(1)[OF assms(1,2) True assms(3)] by (auto elim: prefixE)
    then show ?thesis using x True by (simp add: sent_by_count[of "history K j"] all_issued_count)
  next
    case False
    then have "x \<notin> set (history K j)" using assms(2,3) x by (force simp: accounted_def)
    then show ?thesis by (simp add: count_eq_zero_iff[THEN iffD2])
  qed
qed

lemma quiet_in_flight: "quiet n K \<longleftrightarrow> in_flight n K = 0"
  by (auto simp: quiet_def in_flight_def)

lemma in_flight_next:
  assumes "0 < in_flight n K"
  obtains i k m rest where "i < n" "k < length (replicas (sv K i))" "lk_out (replicas (sv K i) ! k) = m # rest"
proof -
  have "\<not> quiet n K" using assms by (simp add: quiet_in_flight)
  then obtain i l where "i < n" "l \<in> set (replicas (sv K i))" "lk_out l \<noteq> []" by (auto simp: quiet_def)
  then show ?thesis using that by (metis in_set_conv_nth neq_Nil_conv)
qed

text \<open>An arrival takes one command out of flight and issues none.\<close>

lemma arrival:
  assumes i: "i < n" "k < length (replicas (sv K i))" "lk_out (replicas (sv K i) ! k) = m # rest"
    and j: "j < n" "j \<noteq> i" and s': "replicas s' = replicas (sv K j)"
    and K': "K' = \<lparr>sv = (sv K)(i := drop_first k (sv K i), j := s'), history = (history K)(j := history K j @ [(i, m)])\<rparr>"
  shows "in_flight n K = Suc (in_flight n K')" "all_issued n K' = all_issued n K"
proof -
  let ?out = "\<lambda>K x. \<Sum>l \<leftarrow> replicas (sv K x). length (lk_out l)"
  have upd: "(\<Sum>l \<leftarrow> ls. length (lk_out l)) = Suc (\<Sum>l \<leftarrow> ls[k := (ls ! k)\<lparr>lk_out := rest\<rparr>]. length (lk_out l))"
    if "k < length ls" "lk_out (ls ! k) = m # rest" for ls
    using that
  proof (induction ls arbitrary: k)
    case (Cons l ls)
    then show ?case by (cases k) auto
  qed simp
  have "?out K i = Suc (?out K' i)" using upd[OF i(2,3)] i(3) j(2) K' by (simp add: drop_first_def)
  moreover have "?out K x = ?out K' x" if "x \<noteq> i" for x using that s' K' by simp
  ultimately have "in_flight n K = (\<Sum>x < n. ?out K' x + (if x = i then 1 else 0))"
    unfolding in_flight_def by (intro sum.cong) auto
  then show "in_flight n K = Suc (in_flight n K')" using i(1) by (simp add: sum.distrib in_flight_def)
  show "all_issued n K' = all_issued n K"
    unfolding all_issued_def by (intro arg_cong[where f = concat] map_cong) (use j K' in auto)
qed

section \<open>Delivery\<close>

locale broadcast_table =
  fixes table :: table
  assumes rows: "table name = Some cmd \<Longrightarrow> update_cmd (cmd_proc cmd) \<or> query_cmd (cmd_proc cmd)"
begin

text \<open>A request changes no connection but by queueing one command on all of them.\<close>

lemma user_conn:
  assumes c: "is_user c" and p: "processCommand table (c\<lparr>argv := args\<rparr>) s = Some (c', s')"
  shows "p2p_count s' = p2p_count s \<and> p2p_id s' = p2p_id s \<and>
    (case rargv c' of None \<Rightarrow> replicas s' = replicas s | Some m \<Rightarrow> replicas s' = replicas (replicationBroadcast m s))"
proof -
  consider (err) c1 where "c' = addReplyError c1 (c\<lparr>argv := args\<rparr>)" "s' = s"
    | (cmd) name cmd where "table name = Some cmd" "call (cmd_proc cmd) (c\<lparr>argv := args\<rparr>) s = Some (c', s')"
    using p by (auto simp: processCommand_def split: list.splits option.splits if_splits)
  then show ?thesis
  proof cases
    case err
    then show ?thesis using c by (simp add: addReplyError_def is_user_def)
  next
    case cmd
    have c0: "\<not> flag_replica (c\<lparr>argv := args\<rparr>)" "rargv (c\<lparr>argv := args\<rparr>) = None" using c by (simp_all add: is_user_def)
    obtain c1 s1 where p: "cmd_proc cmd (c\<lparr>argv := args\<rparr>) s = Some (c1, s1)"
      using cmd(2) c0 by (auto simp: call_def bind_eq_Some_conv)
    have "conn s1 = conn s \<and> flags c1 = flags c"
      using rows[OF cmd(1)] ensD[OF _ p] by (fastforce simp: update_cmd_def query_cmd_def)
    then show ?thesis
      using cmd(2) c0 p by (auto simp: call_def flags_def conn_def replicationBroadcast_def split: option.splits)
  qed
qed

text \<open>A command of another replica is neither forwarded nor answered.\<close>

lemma peer_conn:
  assumes c: "is_peer c" and p: "processCommand table (c\<lparr>argv := args\<rparr>) s = Some (c', s')"
  shows "conn s' = conn s \<and> replies c' = replies c"
proof -
  have mute: "\<not> prepareClientToWrite (c\<lparr>argv := as, rargv := r\<rparr>)" "\<not> prepareClientToWrite (c\<lparr>argv := as\<rparr>)" for as r
    using c by (simp_all add: is_peer_def prepareClientToWrite_def)
  consider (err) c1 where "c' = addReplyError c1 (c\<lparr>argv := args\<rparr>)" "s' = s"
    | (cmd) name cmd where "table name = Some cmd" "call (cmd_proc cmd) (c\<lparr>argv := args\<rparr>) s = Some (c', s')"
    using p by (auto simp: processCommand_def split: list.splits option.splits if_splits)
  then show ?thesis
  proof cases
    case err
    then show ?thesis using mute by (simp add: addReplyError_def)
  next
    case cmd
    let ?c = "c\<lparr>argv := args, rargv := Some args\<rparr>"
    have c0: "flag_replica (c\<lparr>argv := args\<rparr>)" using c by (simp add: is_peer_def)
    obtain c1 s1 where p: "cmd_proc cmd ?c s = Some (c1, s1)" using cmd(2) c0 by (auto simp: call_def bind_eq_Some_conv)
    have "conn s1 = conn s \<and> flags c1 = flags c \<and> replies c1 = replies c"
      using rows[OF cmd(1)] ensD[OF _ p] mute by (fastforce simp: update_cmd_def query_cmd_def)
    then show ?thesis
      using cmd(2) c0 p by (auto simp: call_def flags_def conn_def split: option.splits)
  qed
qed

lemma mesh_step:
  assumes "mesh n K" and "cstep table admit n K K'"
  shows "mesh n K'"
  using assms(2)
proof cases
  case (request i c args c' s')
  have "map lk_peer (replicas s') = map lk_peer (replicas (sv K i))"
    using user_conn[OF request(3,5)] by (auto simp: replicationBroadcast_def split: option.splits)
  then have "lk_peer ` set (replicas s') = lk_peer ` set (replicas (sv K i))" by (metis list.set_map)
  then show ?thesis
    using assms(1) request(1) \<open>map lk_peer (replicas s') = _\<close> by (simp add: mesh_def)
next
  case (deliver i k j m rest c c' s')
  let ?ls = "replicas (sv K i)"
  have "map lk_peer (replicas (drop_first k (sv K i))) = map lk_peer ?ls"
    using list_update_id[of "map lk_peer ?ls" k] deliver(3) by (simp add: drop_first_def map_update)
  then have *: "map lk_peer (replicas (sv K' x)) = map lk_peer (replicas (sv K x))" for x
    using peer_conn[OF deliver(6,7)] deliver(1) by (simp add: conn_def)
  then have "lk_peer ` set (replicas (sv K' x)) = lk_peer ` set (replicas (sv K x))" for x by (metis list.set_map)
  then show ?thesis using assms(1) * by (simp add: mesh_def)
qed

lemma accounted_step:
  assumes "mesh n K" "accounted n K" and "cstep table admit n K K'"
  shows "accounted n K'"
  using assms(3)
proof cases
  case (request i c args c' s')
  note u = user_conn[OF request(3,5)]
  show ?thesis
    unfolding accounted_def
  proof (intro conjI allI impI ballI)
    fix x l
    assume x: "x < n" and l: "l \<in> set (replicas (sv K' x))"
    show "sent_by x (history K' (lk_peer l)) @ lk_out l = sent_by x (history K' x)"
    proof (cases "x = i")
      case True
      obtain l0 where l0: "l0 \<in> set (replicas (sv K i))" "lk_peer l = lk_peer l0"
        "lk_out l = lk_out l0 @ (case rargv c' of Some m \<Rightarrow> [m] | None \<Rightarrow> [])"
        using l u True request(1) by (auto simp: replicationBroadcast_def split: option.splits)
      moreover have "lk_peer l0 \<noteq> i" using assms(1) l0(1) request(2) by (auto simp: mesh_def)
      moreover have "sent_by i (history K (lk_peer l0)) @ lk_out l0 = sent_by i (history K i)"
        using assms(2) l0(1) request(2) by (auto simp: accounted_def)
      ultimately show ?thesis using True request(1) by (auto split: option.split)
    next
      case False
      then have "sent_by x (history K' y) = sent_by x (history K y)" for y using request(1) by (auto split: option.split)
      then show ?thesis using False l x assms(2) request(1) by (auto simp: accounted_def)
    qed
  next
    fix j
    assume "j < n"
    then show "fst ` set (history K' j) \<subseteq> {..<n}"
      using assms(2) request(1,2) by (auto simp: accounted_def split: option.splits if_splits)
  qed
next
  case (deliver i k j m rest c c' s')
  let ?ls = "replicas (sv K i)"
  have j: "j < n" "j \<noteq> i" using mesh_peer[OF assms(1) deliver(2) nth_mem[OF deliver(3)]] deliver(4) by simp_all
  have out: "sent_by i (history K j) @ m # rest = sent_by i (history K i)"
    using assms(2) deliver(2-5) nth_mem[OF deliver(3)] unfolding accounted_def by metis
  have others: "sent_by x (history K' y) = sent_by x (history K y)" if "x \<noteq> i \<or> y \<noteq> j" for x y
    using that deliver(1) by auto
  show ?thesis
    unfolding accounted_def
  proof (intro conjI allI impI ballI)
    fix x l
    assume x: "x < n" and l: "l \<in> set (replicas (sv K' x))"
    show "sent_by x (history K' (lk_peer l)) @ lk_out l = sent_by x (history K' x)"
    proof (cases "x = i")
      case True
      then have "l \<in> set (?ls[k := (?ls ! k)\<lparr>lk_out := rest\<rparr>])" using l deliver(1,5) j(2) by (simp add: drop_first_def)
      then consider "l = (?ls ! k)\<lparr>lk_out := rest\<rparr>" | "l \<in> set ?ls" "lk_peer l \<noteq> j"
        using links_update[OF deliver(3)] assms(1) deliver(2,4) by (auto simp: mesh_def)
      then show ?thesis
      proof cases
        case 1
        then show ?thesis using out True deliver(1,4) j(2) by simp
      next
        case 2
        then show ?thesis using others[of i] True j(2) assms(2) deliver(2) by (simp add: accounted_def)
      qed
    next
      case False
      then have "l \<in> set (replicas (sv K x))"
        using l deliver(1) peer_conn[OF deliver(6,7)] by (auto simp: conn_def split: if_splits)
      then show ?thesis using False others x assms(2) by (simp add: accounted_def)
    qed
  next
    fix y
    assume "y < n"
    then show "fst ` set (history K' y) \<subseteq> {..<n}"
      using assms(2) deliver(1,2) by (auto simp: accounted_def split: if_splits)
  qed
qed

lemma reach_accounted:
  assumes "fresh_cluster n K0" "reach table admit n K0 K"
  shows "mesh n K \<and> accounted n K"
  using assms(2)
proof induction
  case start
  have "lk_peer l < n" if "i < n" "l \<in> set (replicas (sv K0 i))" for i l
    using assms(1) that by (auto simp: fresh_cluster_def mesh_def)
  then show ?case using assms(1) by (auto simp: fresh_cluster_def accounted_def)
next
  case (step K K')
  then show ?case using mesh_step accounted_step by blast
qed

end

text \<open>The commands of an established group: all of them but \<open>REPLICATE\<close>.\<close>

definition data_table :: "(sds \<Rightarrow> int \<Rightarrow> sds option \<Rightarrow> bool) \<Rightarrow> int \<Rightarrow> nat \<Rightarrow> table" where
  "data_table net junk peer = (redisCommandTable net junk peer)(''replicate'' := None)"

interpretation dt: broadcast_table "data_table net junk peer" for net junk peer
  by unfold_locales (auto simp: data_table_def split: if_splits dest: table_rows)

text \<open>C3: the broadcast is reliable and keeps the order of every sender. At any time a replica has
  processed a prefix of what any other replica has issued; when nothing is in flight, all replicas
  have processed the same commands, each exactly once. This holds for all commands of all five
  replicated types, with clients sending anything to any replica.\<close>

theorem broadcast_reliable:
  assumes "fresh_cluster n K0" and "reach (data_table net junk peer) admit n K0 K"
  shows "(\<forall>i < n. \<forall>j < n. prefix (sent_by i (history K j)) (sent_by i (history K i)) \<and>
    (quiet n K \<longrightarrow> mset (history K i) = mset (history K j)))"
proof -
  have inv: "mesh n K" "accounted n K" using dt.reach_accounted[OF assms] by simp_all
  show ?thesis using accounted_prefix(1)[OF inv] quiet_same[OF inv] by (intro allI impI conjI)
qed

end
