(* ===== verification/RwfCluster.thy ===== *)
theory RwfCluster
  imports Cluster
begin

text \<open>
  A group of replicas that serves one remove-win priority queue. Every reachable state is described
  by the histories of the replicas alone: the element of a key is what the framework computes from
  the commands on that key, and the clock that a replica puts on an add is new. So the replicas
  agree as soon as nothing is in flight.
\<close>

section \<open>What a client may ask for\<close>

text \<open>The operation a prepare phase lets pass on an element, and the clock it puts on it.\<close>

fun may_issue :: "rwfze \<Rightarrow> rwfz_op \<Rightarrow> bool" where
  "may_issue e (RAdd t v) \<longleftrightarrow> \<not> EXISTS (rwfze_header e) \<and> t = reh_current (rwfze_header e)"
| "may_issue e (RUpd t v) \<longleftrightarrow> EXISTS (rwfze_header e) \<and> t = reh_current (rwfze_header e)"
| "may_issue e (RRmv t) \<longleftrightarrow> EXISTS (rwfze_header e) \<and>
     vc_inc (reh_current (rwfze_header e)) (vc_id (reh_current (rwfze_header e))) = Some t"

fun rwfz_prepare :: "rwfz_op \<Rightarrow> prepare" where
  "rwfz_prepare (RAdd t v) = rwfzadd_prepare"
| "rwfz_prepare (RUpd t v) = rwfzincrby_prepare"
| "rwfz_prepare (RRmv t) = rwfzrem_prepare"

text \<open>A well-formed request for an operation that may be issued.\<close>

definition acceptable :: "(rwfz_op \<Rightarrow> bool) \<Rightarrow> sds \<Rightarrow> sds list \<Rightarrow> server \<Rightarrow> bool" where
  "acceptable form tname args s \<longleftrightarrow> (\<exists>p x. form p \<and> rwfz_args p (args @ [x]) \<and> may_issue (rwft.slot s tname (args ! 2)) p \<and>
     length args = (if is_RRmv p then 3 else 4))"

text \<open>The result of a prepare phase: a client whose request is not acceptable is refused, any other is
  sent on with the arguments of an operation that may be issued. The data do not change.\<close>

definition prepared :: "(rwfz_op \<Rightarrow> bool) \<Rightarrow> sds \<Rightarrow> client \<Rightarrow> server \<Rightarrow> (client step \<times> server) option \<Rightarrow> bool" where
  "prepared form tname c s r \<longleftrightarrow> (\<exists>q s1. r = Some (q, s1) \<and> rwfq.sync tname s1 \<and> rwft.slot s1 tname = rwft.slot s tname \<and>
     frame tname RWF_RPQ_TABLE_SUFFIX s s1 \<and>
     (case q of
        Go d \<Rightarrow> \<exists>x p. d = RARGV_ADD_SDS x c \<and> form p \<and> rwfz_args p (argv c @ [x]) \<and>
          may_issue (rwft.slot s tname (argv c ! 2)) p \<and> acceptable form tname (argv c) s
      | Done d \<Rightarrow> refused c d \<and> \<not> acceptable form tname (argv c) s
      | Crash \<Rightarrow> False))"

fun is_add :: "rwfz_op \<Rightarrow> bool" where
  "is_add (RAdd t v) = True"
| "is_add _ = False"

fun is_upd :: "rwfz_op \<Rightarrow> bool" where
  "is_upd (RUpd t v) = True"
| "is_upd _ = False"

lemma form_iff:
  "is_add p \<longleftrightarrow> (\<exists>t v. p = RAdd t v)" "is_upd p \<longleftrightarrow> (\<exists>t v. p = RUpd t v)" "is_RRmv p \<longleftrightarrow> (\<exists>t. p = RRmv t)"
  by (cases p; simp)+

lemma after_checks_prepared:
  assumes "gate c r" and "r \<noteq> Crash" and "rwfq.sync tname s"
    and "acceptable form tname (argv c) s \<Longrightarrow> r = Go c" and "r = Go c \<Longrightarrow> prepared form tname c s (f c)"
  shows "prepared form tname c s (after_checks r s f)"
  using assms by (cases r) (auto simp: gate_def after_checks_def prepared_def)

lemma checks_run:
  assumes "2 < length (argv c)"
  shows "CHECK_ARGC n c \<noteq> Crash" "CHECK_CONTAINER_TYPE ty s c \<noteq> Crash"
    "i < length (argv c) \<Longrightarrow> CHECK_ARG_TYPE_DOUBLE i c \<noteq> Crash"
  using assms
  by (auto simp: CHECK_ARGC_def CHECK_CONTAINER_TYPE_def CHECK_ARG_TYPE_DOUBLE_def arg_def split: option.splits)

lemma then_check_run: "gate c r \<Longrightarrow> r \<noteq> Crash \<Longrightarrow> f c \<noteq> Crash \<Longrightarrow> then_check r f \<noteq> Crash"
  by (cases r) (auto simp: gate_def)

lemma sync_type: "rwfq.sync tname s \<Longrightarrow> db s tname = Some v \<Longrightarrow> is_zset v"
  by (cases v) (auto simp: rwfq.sync_def zcontent_def)

lemma slot_clock:
  assumes "rwfq.sync tname s"
  shows "vc_size (reh_current (rwfze_header (rwft.slot s tname key))) = nat (p2p_count s)"
    "vc_id (reh_current (rwfze_header (rwft.slot s tname key))) = p2p_id s"
  using assms by (auto simp: rwfq.sync_def rwfz_wf_def)

lemma clock_text:
  assumes "rwfq.sync tname s" "0 < p2p_count s" "p2p_count s \<le> 100"
  obtains x where "vcToSds (reh_current (rwfze_header (rwft.slot s tname key))) = Some x"
    "sdsToVC x = Some (reh_current (rwfze_header (rwft.slot s tname key)))"
proof -
  let ?c = "reh_current (rwfze_header (rwft.slot s tname key))"
  have "vc_vector ?c \<noteq> []" "vc_size ?c \<le> 100" using slot_clock(1)[OF assms(1), of key] assms(2,3) by auto
  then show ?thesis using that vcToSds_Some sdsToVC_vcToSds by blast
qed

lemma now_text:
  assumes "rwfq.sync tname s" "0 < p2p_count s" "p2p_count s \<le> 100" "0 \<le> p2p_id s" "p2p_id s < p2p_count s"
  obtains x t where "vc_now (reh_current (rwfze_header (rwft.slot s tname key))) = Some x" "sdsToVC x = Some t"
    "vc_inc (reh_current (rwfze_header (rwft.slot s tname key))) (p2p_id s) = Some t"
proof -
  let ?c = "reh_current (rwfze_header (rwft.slot s tname key))"
  have sz: "vc_size ?c = nat (p2p_count s)" "vc_id ?c = p2p_id s" using slot_clock[OF assms(1)] by simp_all
  then obtain t where t: "vc_inc ?c (p2p_id s) = Some t" "vc_size t = nat (p2p_count s)"
    using assms(2,4,5) by (auto simp: vc_inc_def)
  then have "vc_vector t \<noteq> []" using assms(2) by auto
  then obtain x where x: "vcToSds t = Some x" using vcToSds_Some by blast
  have "sdsToVC x = Some t" using sdsToVC_vcToSds[OF x] t(2) assms(3) by simp
  then show ?thesis using that[of x t] t(1) x sz(2) by (simp add: vc_now_def)
qed

lemma rwfzadd_prepared:
  assumes sync: "rwfq.sync tname s" and n: "0 < p2p_count s" "p2p_count s \<le> 100"
    and c: "argv c ! 1 = tname" "4 \<le> length (argv c)"
  shows "prepared is_add tname c s (rwfzadd_prepare c s)"
  unfolding rwfzadd_prepare_def
proof (rule after_checks_prepared[OF _ _ sync])
  let ?r = "then_check (then_check (CHECK_ARGC 4 c) (CHECK_CONTAINER_TYPE is_zset s)) (CHECK_ARG_TYPE_DOUBLE 3)"
  let ?key = "argv c ! 2"
  show "gate c ?r" by (intro gate_then gate_checks)
  show "?r \<noteq> Crash" using c(2) by (intro then_check_run[of c] gate_then[of c] gate_checks checks_run) simp_all
  show "acceptable is_add tname (argv c) s \<Longrightarrow> ?r = Go c"
    using sync_type[OF sync] c by (auto simp: acceptable_def then_check_Go form_iff nth_append)
  assume "?r = Go c"
  then obtain v where len: "length (argv c) = 4" and v: "string2d (argv c ! 3) = Some v" using c(2) by (auto simp: then_check_Go)
  obtain s1 where s1: "GET_RWFZE tname ?key True s = Some (Some (rwft.slot s tname ?key), s1)"
    "rwfq.holding tname ?key (rwft.slot s tname ?key) s1" "rwft.slot s1 tname = rwft.slot s tname"
    "frame tname RWF_RPQ_TABLE_SUFFIX s s1"
    using rwfq.get_holding[OF sync] by blast
  obtain x where x: "vcToSds (reh_current (rwfze_header (rwft.slot s tname ?key))) = Some x"
    "sdsToVC x = Some (reh_current (rwfze_header (rwft.slot s tname ?key)))"
    using clock_text[OF sync n] by blast
  let ?p = "RAdd (reh_current (rwfze_header (rwft.slot s tname ?key))) v"
  have "rwfz_args ?p (argv c @ [x])" using v x len by (simp add: nth_append)
  moreover from this have "\<not> EXISTS (rwfze_header (rwft.slot s tname ?key)) \<Longrightarrow> acceptable is_add tname (argv c) s"
    using len unfolding acceptable_def by (intro exI[of _ ?p] exI[of _ x]) simp
  ultimately show "prepared is_add tname c s (do {
        tname \<leftarrow> arg (argv c) 1;
        key \<leftarrow> arg (argv c) 2;
        (p, s) \<leftarrow> GET_RWFZE tname key True s;
        e \<leftarrow> p;
        if EXISTS (rwfze_header e) then Some (Done (addReply ele_exist c), s)
        else do {
          x \<leftarrow> vcToSds (reh_current (rwfze_header e));
          Some (Go (RARGV_ADD_SDS x c), s)
        }
      })"
    using s1 x(1) len c(1) unfolding prepared_def rwfq.holding_def
    by (auto simp: arg_def form_iff intro!: exI[of _ x] exI[of _ ?p]) (auto simp: acceptable_def form_iff)
qed

text \<open>The common end of the other two prepare phases: only an element that exists is changed.\<close>

lemma existing_prepared:
  assumes sync: "rwfq.sync tname s" and c: "argv c ! 1 = tname" "2 < length (argv c)"
    and x: "clk (reh_current (rwfze_header (rwft.slot s tname (argv c ! 2)))) = Some x"
    and p: "EXISTS (rwfze_header (rwft.slot s tname (argv c ! 2))) \<Longrightarrow>
      form p \<and> rwfz_args p (argv c @ [x]) \<and> may_issue (rwft.slot s tname (argv c ! 2)) p \<and> acceptable form tname (argv c) s"
    and ex: "acceptable form tname (argv c) s \<Longrightarrow> EXISTS (rwfze_header (rwft.slot s tname (argv c ! 2)))"
  shows "prepared form tname c s (do {
      tname \<leftarrow> arg (argv c) 1;
      key \<leftarrow> arg (argv c) 2;
      (p, s) \<leftarrow> GET_RWFZE tname key False s;
      (case p of
         None \<Rightarrow> Some (Done (addReply ele_nexist c), s)
       | Some e \<Rightarrow>
           if \<not> EXISTS (rwfze_header e) then Some (Done (addReply ele_nexist c), s)
           else do {
             x \<leftarrow> clk (reh_current (rwfze_header e));
             Some (Go (RARGV_ADD_SDS x c), s)
           })
    })"
proof -
  have g: "GET_RWFZE tname key False s = Some (rwft.stored s tname key, s)" for key
    using rwft.get_existing sync by (simp add: rwfq.sync_def)
  show ?thesis
  proof (cases "rwft.stored s tname (argv c ! 2)")
    case None
    then have "rwft.slot s tname (argv c ! 2) = rwfzeNew (p2p_count s) (p2p_id s)" by (simp add: rwft.slot_def)
    then have "\<not> acceptable form tname (argv c) s" using ex by (auto simp: rwfzeNew_def REH_INIT_def EXISTS_def)
    then show ?thesis using None g c sync by (simp add: arg_def prepared_def)
  next
    case (Some e)
    then have "rwft.slot s tname (argv c ! 2) = e" by (rule rwft.stored_slot)
    then show ?thesis
      using g[of "argv c ! 2"] Some c sync x p ex by (auto simp: arg_def prepared_def)
  qed
qed

lemma rwfzincrby_prepared:
  assumes sync: "rwfq.sync tname s" and n: "0 < p2p_count s" "p2p_count s \<le> 100"
    and c: "argv c ! 1 = tname" "4 \<le> length (argv c)"
  shows "prepared is_upd tname c s (rwfzincrby_prepare c s)"
proof -
  let ?r = "then_check (then_check (CHECK_ARGC 4 c) (CHECK_CONTAINER_TYPE is_zset s)) (CHECK_ARG_TYPE_DOUBLE 3)"
  let ?t = "reh_current (rwfze_header (rwft.slot s tname (argv c ! 2)))"
  let ?p = "RUpd ?t (the (string2d (argv c ! 3)))"
  have g: "gate c ?r" by (intro gate_then gate_checks)
  have r: "?r \<noteq> Crash" using c(2) by (intro then_check_run[of c] gate_then[of c] gate_checks checks_run) simp_all
  obtain x where x: "vcToSds ?t = Some x" "sdsToVC x = Some ?t" using clock_text[OF sync n] by blast
  have args: "rwfz_args ?p (argv c @ [x])" if "?r = Go c"
    using that x c(2) by (auto simp: then_check_Go nth_append)
  have acc: "acceptable is_upd tname (argv c) s" if "?r = Go c" "EXISTS (rwfze_header (rwft.slot s tname (argv c ! 2)))"
    using args[OF that(1)] that c(2) unfolding acceptable_def
    by (intro exI[of _ ?p] exI[of _ x]) (auto simp: then_check_Go simp del: rwfz_args.simps)
  have a: "acceptable is_upd tname (argv c) s \<Longrightarrow> ?r = Go c"
    using sync_type[OF sync] c by (auto simp: acceptable_def then_check_Go form_iff nth_append)
  show ?thesis
    unfolding rwfzincrby_prepare_def
    by (rule after_checks_prepared[OF g r sync a], assumption, rule existing_prepared[where clk = vcToSds and x = x and p = ?p])
      (use sync c x args acc in \<open>auto simp: form_iff simp del: rwfz_args.simps\<close>, auto simp: acceptable_def form_iff)
qed

lemma rwfzrem_prepared:
  assumes sync: "rwfq.sync tname s" and n: "0 < p2p_count s" "p2p_count s \<le> 100" "0 \<le> p2p_id s" "p2p_id s < p2p_count s"
    and c: "argv c ! 1 = tname" "3 \<le> length (argv c)"
  shows "prepared is_RRmv tname c s (rwfzrem_prepare c s)"
proof -
  let ?r = "then_check (CHECK_ARGC 3 c) (CHECK_CONTAINER_TYPE is_zset s)"
  let ?t = "reh_current (rwfze_header (rwft.slot s tname (argv c ! 2)))"
  have g: "gate c ?r" by (intro gate_then gate_checks)
  have r: "?r \<noteq> Crash" using c(2) by (intro then_check_run[of c] gate_checks checks_run) simp_all
  obtain x t where x: "vc_now ?t = Some x" "sdsToVC x = Some t" "vc_inc ?t (p2p_id s) = Some t"
    using now_text[OF sync n] by blast
  have acc: "acceptable is_RRmv tname (argv c) s" if "?r = Go c" "EXISTS (rwfze_header (rwft.slot s tname (argv c ! 2)))"
    using that c(2) x slot_clock(2)[OF sync] unfolding acceptable_def
    by (intro exI[of _ "RRmv t"] exI[of _ x]) (auto simp: then_check_Go)
  have a: "acceptable is_RRmv tname (argv c) s \<Longrightarrow> ?r = Go c"
    using sync_type[OF sync] c by (auto simp: acceptable_def then_check_Go)
  show ?thesis
    unfolding rwfzrem_prepare_def
    by (rule after_checks_prepared[OF g r sync a], assumption, rule existing_prepared[where clk = vc_now and x = x and p = "RRmv t"])
      (use sync c x slot_clock(2)[OF sync] acc in \<open>auto simp: form_iff\<close>, auto simp: acceptable_def form_iff)
qed

section \<open>One command\<close>

lemma effect_same_client: "rwfz_effect p c s = Some (c', s') \<Longrightarrow> c' = c"
proof -
  have "ens (rwfz_effect p c s) (\<lambda>(c', s'). c' = c)"
    by (cases p; simp only: rwfz_effect.simps; unfold rwfzadd_effect_def rwfzincrby_effect_def rwfzrem_effect_def Let_def;
        intro ens_rules keep ens_any; simp)
  then show "rwfz_effect p c s = Some (c', s') \<Longrightarrow> c' = c" by (auto dest: ensD)
qed

lemma may_issue_clock:
  assumes "rwfq.sync tname s" "may_issue (rwft.slot s tname key) p" "0 \<le> p2p_id s"
  shows "vc_size (op_clock p) = nat (p2p_count s)" "vc_id (op_clock p) = p2p_id s" "op_ids_ok p"
  using assms(2,3) slot_clock[OF assms(1), of key] by (cases p; auto simp: vc_inc_def split: option.splits)+

text \<open>What a client's command did: nothing to the data, or the operation that it broadcasts.\<close>

definition issued :: "(rwfz_op \<Rightarrow> bool) \<Rightarrow> sds \<Rightarrow> sds list \<Rightarrow> server \<Rightarrow> client \<Rightarrow> server \<Rightarrow> bool" where
  "issued form tname args s c' s' \<longleftrightarrow> rwfq.sync tname s' \<and>
     (case rargv c' of
        None \<Rightarrow> \<not> acceptable form tname args s \<and> rwft.slot s' tname = rwft.slot s tname
      | Some m \<Rightarrow> \<exists>p x. m = args @ [x] \<and> form p \<and> rwfz_args p m \<and> may_issue (rwft.slot s tname (args ! 2)) p \<and>
          acceptable form tname args s \<and> rwft.slot s' tname = (rwft.slot s tname)(args ! 2 := rz.step p (rwft.slot s tname (args ! 2))))"

lemma update_split:
  assumes sync: "rwfq.sync tname s" and n: "0 < p2p_count s" "0 \<le> p2p_id s"
    and c: "is_user c" "argv c = args" "args ! 1 = tname" "2 < length args"
    and prep: "prepared form tname c s (prep c s)" and eff: "\<And>p. form p \<Longrightarrow> rwfz_effect p = eff"
  obtains (refused) d s1 where "\<not> acceptable form tname args s" "rargv d = None" "rwfq.sync tname s1" "rwft.slot s1 tname = rwft.slot s tname"
      "call (CRDT_COMMAND prep eff) c s = Some (d, s1)"
  | (passed) p x where "form p" "rwfz_args p (args @ [x])" "may_issue (rwft.slot s tname (args ! 2)) p"
      "acceptable form tname args s"
      "\<And>c' s'. call (CRDT_COMMAND prep eff) c s = Some (c', s') \<Longrightarrow> rargv c' = Some (args @ [x])"
      "rwfz_SCORE (rz.step p (rwft.slot s tname (args ! 2))) \<noteq> NaN \<Longrightarrow>
        \<exists>c' s'. call (CRDT_COMMAND prep eff) c s = Some (c', s') \<and> rwfq.sync tname s' \<and>
          rwft.slot s' tname = (rwft.slot s tname)(args ! 2 := rz.step p (rwft.slot s tname (args ! 2)))"
proof -
  have mode: "REPLICATION_MODE s" using n by (simp add: REPLICATION_MODE_def)
  have user: "\<not> flag_replica c" "\<not> flag_message c" "rargv c = None" using c(1) by (simp_all add: is_user_def)
  obtain q s1 where q: "prep c s = Some (q, s1)" and s1: "rwfq.sync tname s1" "rwft.slot s1 tname = rwft.slot s tname"
    "frame tname RWF_RPQ_TABLE_SUFFIX s s1"
    and r: "case q of
        Go d \<Rightarrow> \<exists>x p. d = RARGV_ADD_SDS x c \<and> form p \<and> rwfz_args p (args @ [x]) \<and> may_issue (rwft.slot s tname (args ! 2)) p \<and>
          acceptable form tname args s
      | Done d \<Rightarrow> refused c d \<and> \<not> acceptable form tname args s
      | Crash \<Rightarrow> False"
    using prep c(2) by (auto simp: prepared_def)
  show ?thesis
  proof (cases q)
    case (Done d)
    then have d: "rargv d = None" "\<not> flag_replica d" "\<not> acceptable form tname args s" using r user by (auto simp: refused_def flags_def)
    then have "call (CRDT_COMMAND prep eff) c s = Some (d, s1)"
      using call_rejected[OF user(1) mode, of prep d s1 eff] q Done by simp
    then show ?thesis using refused d(1,3) s1(1,2) by blast
  next
    case (Go d)
    then obtain x p where d: "d = RARGV_ADD_SDS x c" and p: "form p" "rwfz_args p (args @ [x])"
      "may_issue (rwft.slot s tname (args ! 2)) p" "acceptable form tname args s" using r by auto
    let ?d = "addReply ROk d"
    have rd: "rargv ?d = Some (args @ [x])" "\<not> flag_replica ?d" "\<not> flag_message ?d" using user d c(2) by simp_all
    have run: "call (CRDT_COMMAND prep eff) c s = Some (?d, replicationBroadcast (args @ [x]) s2)"
      if "eff ?d s1 = Some (?d, s2)" for s2
      using call_accepted[OF user(1) mode, of prep d s1 "args @ [x]" eff ?d s2 "args @ [x]"] q Go rd d that by simp
    show ?thesis
    proof (rule passed[OF p])
      fix c' s'
      assume "call (CRDT_COMMAND prep eff) c s = Some (c', s')"
      moreover from this obtain c2 s2 where e: "eff ?d s1 = Some (c2, s2)"
        using q Go mode user rd d by (auto simp: call_def CRDT_COMMAND_def bind_eq_Some_conv)
      moreover from e have "c2 = ?d" using effect_same_client[of p] eff[OF p(1)] by simp
      ultimately show "rargv c' = Some (args @ [x])" using run rd(1) by simp
    next
      assume num: "rwfz_SCORE (rz.step p (rwft.slot s tname (args ! 2))) \<noteq> NaN"
      have "rwfz_done tname (args ! 2) p ?d s1 (rwfz_effect p ?d s1)"
      proof (rule rwfz_effect_done[OF s1(1) _ _ rd(1) p(2)])
        show "vc_size (op_clock p) = nat (p2p_count s1)" "op_ids_ok p"
          using may_issue_clock[OF sync p(3) n(2)] s1(3) by (simp_all add: frame_def)
      qed (use c(3,4) in \<open>simp_all add: nth_append\<close>)
      from rwfz_done_numeric[OF this] obtain s2 where s2: "eff ?d s1 = Some (?d, s2)" "rwfq.sync tname s2"
        "rwft.slot s2 tname = (rwft.slot s tname)(args ! 2 := rz.step p (rwft.slot s tname (args ! 2)))"
        using eff[OF p(1)] num s1(2) by metis
      let ?s = "replicationBroadcast (args @ [x]) s2"
      have b: "db ?s = db s2" "p2p_count ?s = p2p_count s2" "p2p_id ?s = p2p_id s2" by (simp_all add: replicationBroadcast_def)
      have "rwfq.sync tname ?s" "rwft.slot ?s tname = rwft.slot s2 tname"
        using rwfq.sync_cong[OF s2(2)] rwft.table_cong(3)[of ?s tname s2] b by simp_all
      then show "\<exists>c' s'. call (CRDT_COMMAND prep eff) c s = Some (c', s') \<and> rwfq.sync tname s' \<and>
          rwft.slot s' tname = (rwft.slot s tname)(args ! 2 := rz.step p (rwft.slot s tname (args ! 2)))"
        using run[OF s2(1)] s2(3) by auto
    qed
  qed (use r in simp)
qed

lemma update_call:
  assumes sync: "rwfq.sync tname s" and n: "0 < p2p_count s" "0 \<le> p2p_id s"
    and c: "is_user c" "argv c = args" "args ! 1 = tname" "2 < length args"
    and prep: "prepared form tname c s (prep c s)" and eff: "\<And>p. form p \<Longrightarrow> rwfz_effect p = eff"
    and call: "call (CRDT_COMMAND prep eff) c s = Some (c', s')"
    and num: "\<And>p y. rargv c' = Some (args @ [y]) \<Longrightarrow> form p \<Longrightarrow> rwfz_args p (args @ [y]) \<Longrightarrow>
      may_issue (rwft.slot s tname (args ! 2)) p \<Longrightarrow> rwfz_SCORE (rz.step p (rwft.slot s tname (args ! 2))) \<noteq> NaN"
  shows "issued form tname args s c' s'"
proof (cases rule: update_split[where prep = prep and form = form and eff = eff, OF sync n c prep, case_names eff refused passed])
  case (refused d s1)
  then show ?thesis using call by (simp add: issued_def)
next
  case (passed p x)
  have m: "rargv c' = Some (args @ [x])" using passed(5)[OF call] .
  from passed(6)[OF num[OF m passed(1-3)]] call m passed(1-4)
  show ?thesis by (auto simp: issued_def simp del: rz.step.simps)
qed (rule eff)

text \<open>A command that cannot make a score undefined never fails.\<close>

lemma update_runs:
  assumes sync: "rwfq.sync tname s" and n: "0 < p2p_count s" "0 \<le> p2p_id s"
    and c: "is_user c" "argv c = args" "args ! 1 = tname" "2 < length args"
    and prep: "prepared form tname c s (prep c s)" and eff: "\<And>p. form p \<Longrightarrow> rwfz_effect p = eff"
    and num: "\<And>p y. form p \<Longrightarrow> rwfz_args p (args @ [y]) \<Longrightarrow> may_issue (rwft.slot s tname (args ! 2)) p \<Longrightarrow>
      rwfz_SCORE (rz.step p (rwft.slot s tname (args ! 2))) \<noteq> NaN"
  shows "\<exists>c' s'. call (CRDT_COMMAND prep eff) c s = Some (c', s')"
proof (cases rule: update_split[where prep = prep and form = form and eff = eff, OF sync n c prep, case_names eff refused passed])
  case (passed p x)
  then show ?thesis using num[OF passed(1-3)] by blast
qed (use eff in blast)+

text \<open>Reading a broadcast command back as an operation.\<close>

definition rwf_op_of :: "sds list \<Rightarrow> rwfz_op" where
  "rwf_op_of m = (let t = the (sdsToVC (last m)); v = the (string2d (m ! 3)) in
     if sdstolower (m ! 0) = ''rwfzadd'' then RAdd t v
     else if sdstolower (m ! 0) = ''rwfzincrby'' then RUpd t v
     else RRmv t)"

definition rwf_msg :: "nat \<Rightarrow> sds \<Rightarrow> nat \<times> sds list \<Rightarrow> bool" where
  "rwf_msg n tname = (\<lambda>(i, m). sdstolower (m ! 0) \<in> {''rwfzadd'', ''rwfzincrby'', ''rwfzrem''} \<and> m ! 1 = tname \<and>
     rwfz_args (rwf_op_of m) m \<and> vc_size (op_clock (rwf_op_of m)) = n \<and> vc_id (op_clock (rwf_op_of m)) = int i)"

definition hist_ops :: "sds \<Rightarrow> (nat \<times> sds list) list \<Rightarrow> rwfz_op list" where
  "hist_ops key h = map (\<lambda>(i, m). rwf_op_of m) (filter (\<lambda>(i, m). m ! 2 = key) h)"

text \<open>The server of replica \<open>i\<close> is the result of the history \<open>h\<close>.\<close>

definition explained :: "nat \<Rightarrow> sds \<Rightarrow> nat \<Rightarrow> (nat \<times> sds list) list \<Rightarrow> server \<Rightarrow> bool" where
  "explained n tname i h s \<longleftrightarrow> rwfq.sync tname s \<and> p2p_count s = int n \<and> p2p_id s = int i \<and>
     rwft.slot s tname = (\<lambda>key. rz.run (hist_ops key h) (rwfzeNew (int n) (int i))) \<and> list_all (rwf_msg n tname) h"

definition rwf_request :: "sds \<Rightarrow> sds list \<Rightarrow> bool" where
  "rwf_request tname args \<longleftrightarrow> args \<noteq> [] \<and>
     sdstolower (hd args) \<in> {''rwfzadd'', ''rwfzincrby'', ''rwfzrem'', ''rwfzscore'', ''rwfzmax''} \<and>
     (1 < length args \<longrightarrow> args ! 1 = tname)"

lemma rwf_msgD:
  assumes "rwf_msg n tname (i, m)"
  shows "vc_size (op_clock (rwf_op_of m)) = n" "op_ids_ok (rwf_op_of m)" "2 < length m"
  using assms by (cases "rwf_op_of m"; auto simp: rwf_msg_def)+

lemma hist_ops_wf:
  assumes "list_all (rwf_msg n tname) h"
  shows "rwf_history n (hist_ops key h)" "list_all op_ids_ok (hist_ops key h)"
  using assms rwf_msgD by (fastforce simp: hist_ops_def rwf_history_def list_all_iff)+

lemma hist_ops_snoc [simp]: "hist_ops key (h @ [(i, m)]) = hist_ops key h @ (if m ! 2 = key then [rwf_op_of m] else [])"
  by (simp add: hist_ops_def)

lemma hist_ops_append: "hist_ops key (h @ h') = hist_ops key h @ hist_ops key h'"
  by (simp add: hist_ops_def)

lemma score_of_history:
  assumes "list_all (rwf_msg n tname) h" "exact_values (op_values (hist_ops key h))"
  shows "rwfz_SCORE (rz.run (hist_ops key h) (rwfzeNew (int n) me)) \<noteq> NaN"
  using rwfz_score_numeric[OF hist_ops_wf[OF assms(1)] assms(2)] .

text \<open>An issued operation extends the history.\<close>

lemma issued_explained:
  assumes x: "explained n tname i h s" and iss: "issued form tname args s c' s'"
    and conn: "p2p_count s' = p2p_count s" "p2p_id s' = p2p_id s"
    and args: "2 < length args" "args ! 1 = tname" "sdstolower (args ! 0) \<in> {''rwfzadd'', ''rwfzincrby'', ''rwfzrem''}"
    and form: "\<And>p m. form p \<Longrightarrow> rwfz_args p m \<Longrightarrow> m ! 0 = args ! 0 \<Longrightarrow> rwf_op_of m = p"
  shows "case rargv c' of
      None \<Rightarrow> explained n tname i h s'
    | Some m \<Rightarrow> explained n tname i (h @ [(i, m)]) s' \<and> may_issue (rwft.slot s tname (m ! 2)) (rwf_op_of m)"
proof (cases "rargv c'")
  case None
  then show ?thesis using x iss conn by (simp add: issued_def explained_def)
next
  case (Some m)
  then obtain p y where m: "m = args @ [y]" and p: "form p" "rwfz_args p m" "may_issue (rwft.slot s tname (args ! 2)) p"
    and s': "rwfq.sync tname s'" "rwft.slot s' tname = (rwft.slot s tname)(args ! 2 := rz.step p (rwft.slot s tname (args ! 2)))"
    using iss by (auto simp: issued_def)
  have sync: "rwfq.sync tname s" "p2p_count s = int n" "p2p_id s = int i" using x by (simp_all add: explained_def)
  have nth: "m ! 0 = args ! 0" "m ! 1 = args ! 1" "m ! 2 = args ! 2" using m args(1) by (auto simp: nth_append)
  have op: "rwf_op_of m = p" using form[OF p(1,2) nth(1)] .
  have "rwf_msg n tname (i, m)"
    using may_issue_clock[OF sync(1) p(3)] sync op p(2) nth args by (simp add: rwf_msg_def)
  moreover have "rwft.slot s' tname = (\<lambda>key. rz.run (hist_ops key (h @ [(i, m)])) (rwfzeNew (int n) (int i)))"
    using x s'(2) op nth(3) by (auto simp: explained_def fun_eq_iff simp del: rz.step.simps)
  ultimately show ?thesis using Some x s'(1) conn p(3) op nth(3) by (simp add: explained_def)
qed

text \<open>A client's request at a replica that its history explains: first the three updates, then any
  command on the queue.\<close>

lemma update_explained:
  assumes x: "explained n tname i h s" and n: "0 < n"
    and c: "is_user c" "argv c = args" "2 < length args" "args ! 1 = tname"
    and name: "sdstolower (args ! 0) \<in> {''rwfzadd'', ''rwfzincrby'', ''rwfzrem''}"
    and call: "call (CRDT_COMMAND prep eff) c s = Some (c', s')" and prep: "prepared form tname c s (prep c s)"
    and eff: "\<And>p. form p \<Longrightarrow> rwfz_effect p = eff"
    and form: "\<And>p m. form p \<Longrightarrow> rwfz_args p m \<Longrightarrow> m ! 0 = args ! 0 \<Longrightarrow> rwf_op_of m = p"
    and conn: "p2p_count s' = p2p_count s" "p2p_id s' = p2p_id s"
    and ex: "\<And>key. exact_values (op_values (hist_ops key (h @ (case rargv c' of Some m \<Rightarrow> [(i, m)] | None \<Rightarrow> []))))"
  shows "case rargv c' of
      None \<Rightarrow> explained n tname i h s'
    | Some m \<Rightarrow> explained n tname i (h @ [(i, m)]) s' \<and> may_issue (rwft.slot s tname (m ! 2)) (rwf_op_of m)"
proof -
  have sync: "rwfq.sync tname s" "p2p_count s = int n" "p2p_id s = int i" using x by (simp_all add: explained_def)
  have num: "rwfz_SCORE (rz.step p (rwft.slot s tname (args ! 2))) \<noteq> NaN"
    if m: "rargv c' = Some (args @ [y])" "form p" "rwfz_args p (args @ [y])" "may_issue (rwft.slot s tname (args ! 2)) p" for p y
  proof -
    let ?m = "args @ [y]"
    have nth: "?m ! 0 = args ! 0" "?m ! 2 = args ! 2" "?m ! 1 = tname" using c(3,4) by (auto simp: nth_append)
    have op: "rwf_op_of ?m = p" using form[OF m(2,3) nth(1)] .
    have "list_all (rwf_msg n tname) (h @ [(i, ?m)])"
      using x may_issue_clock[OF sync(1) m(4)] sync op m(3) nth name by (simp add: explained_def rwf_msg_def)
    from score_of_history[OF this, of "args ! 2" "int i"] ex[of "args ! 2"] m(1) x op nth(2)
    show ?thesis by (simp add: explained_def del: rz.step.simps)
  qed
  have "issued form tname args s c' s'"
    using update_call[OF sync(1) _ _ c(1,2,4,3) prep eff call num] n sync(2,3) by simp
  from issued_explained[OF x this conn c(3,4) name form] show ?thesis .
qed

lemma rwf_rows:
  "data_table net junk peer ''rwfzadd'' = Some (redis_row rwfzaddCommand (-4))"
  "data_table net junk peer ''rwfzincrby'' = Some (redis_row rwfzincrbyCommand (-4))"
  "data_table net junk peer ''rwfzrem'' = Some (redis_row rwfzremCommand (-3))"
  "data_table net junk peer ''rwfzscore'' = Some (redis_row rwfzscoreCommand 3)"
  "data_table net junk peer ''rwfzmax'' = Some (redis_row rwfzmaxCommand 2)"
  by (simp_all add: data_table_def redisCommandTable_def)

lemma arity_simps:
  "arity_ok (-4) c \<longleftrightarrow> 4 \<le> length (argv c)" "arity_ok (-3) c \<longleftrightarrow> 3 \<le> length (argv c)"
  by (auto simp: arity_ok_def)

lemma processCommand_row:
  assumes "args \<noteq> []" "table (sdstolower (hd args)) = Some (redis_row proc ar)"
  shows "processCommand table (c\<lparr>argv := args\<rparr>) s =
    (if arity_ok ar (c\<lparr>argv := args\<rparr>) then call proc (c\<lparr>argv := args\<rparr>) s
     else Some (addReplyError ''wrong number of arguments'' (c\<lparr>argv := args\<rparr>), s))"
  using assms by (cases args) (simp_all add: processCommand_def redis_row_def)

lemma query_call:
  assumes "query_cmd proc" "is_user c" "proc c s = Some (c', s')"
  shows "call proc c s = Some (c', s) \<and> rargv c' = None"
proof -
  have "s' = s" "rargv c' = None" "flags c' = flags c"
    using ensD[OF assms(1)[unfolded query_cmd_def, rule_format] assms(3)] assms(2) by (auto simp: is_user_def)
  then show ?thesis using assms(2,3) by (auto simp: call_def is_user_def flags_def)
qed

text \<open>The operations of the kind that a command asks for.\<close>

definition asked :: "sds list \<Rightarrow> rwfz_op \<Rightarrow> bool" where
  "asked args p \<longleftrightarrow> sdstolower (hd args) = ''rwfzadd'' \<and> is_add p \<or> sdstolower (hd args) = ''rwfzincrby'' \<and> is_upd p \<or>
     sdstolower (hd args) = ''rwfzrem'' \<and> is_RRmv p"

lemma asked_kinds:
  "sdstolower (hd args) = ''rwfzadd'' \<Longrightarrow> asked args = is_add" "sdstolower (hd args) = ''rwfzincrby'' \<Longrightarrow> asked args = is_upd"
  "sdstolower (hd args) = ''rwfzrem'' \<Longrightarrow> asked args = is_RRmv"
  by (simp_all add: asked_def fun_eq_iff)

text \<open>A request is answered without touching the data, or is one of the three updates.\<close>

lemma request_split:
  assumes sync: "rwfq.sync tname s" and b: "0 < p2p_count s" "p2p_count s \<le> 100" "0 \<le> p2p_id s" "p2p_id s < p2p_count s"
    and c: "is_user c" "rwf_request tname args"
  obtains (same) c' where "processCommand (data_table net junk peer) (c\<lparr>argv := args\<rparr>) s = Some (c', s)" "rargv c' = None"
      "\<not> acceptable (asked args) tname args s"
  | (update) prep eff where
      "processCommand (data_table net junk peer) (c\<lparr>argv := args\<rparr>) s = call (CRDT_COMMAND prep eff) (c\<lparr>argv := args\<rparr>) s"
      "2 < length args" "args ! 1 = tname" "sdstolower (args ! 0) \<in> {''rwfzadd'', ''rwfzincrby'', ''rwfzrem''}"
      "prepared (asked args) tname (c\<lparr>argv := args\<rparr>) s (prep (c\<lparr>argv := args\<rparr>) s)" "\<forall>p. asked args p \<longrightarrow> rwfz_effect p = eff"
      "\<forall>p m. asked args p \<longrightarrow> rwfz_args p m \<longrightarrow> m ! 0 = args ! 0 \<longrightarrow> rwf_op_of m = p"
      "\<forall>p. asked args p \<longrightarrow> is_RRmv p \<or> 3 < length args"
proof -
  let ?c = "c\<lparr>argv := args\<rparr>" and ?T = "data_table net junk peer"
  have user: "is_user ?c" using c(1) by (simp add: is_user_def)
  have args: "args \<noteq> []" "hd args = args ! 0" using c(2) by (auto simp: rwf_request_def hd_conv_nth)
  have t: "args ! 1 = tname" if "1 < length args" using c(2) that by (simp add: rwf_request_def)
  have bad: thesis
    if "?T (sdstolower (hd args)) = Some (redis_row proc ar)" "\<not> arity_ok ar ?c" "\<not> acceptable (asked args) tname args s" for proc ar
    using same processCommand_row[where table = ?T, OF args(1) that(1), of c s] that(2,3) c(1)
    by (simp add: addReplyError_def is_user_def)
  have upd: thesis
    if row: "?T (sdstolower (hd args)) = Some (redis_row (CRDT_COMMAND prep eff) ar)"
      and name: "sdstolower (hd args) \<in> {''rwfzadd'', ''rwfzincrby'', ''rwfzrem''}" and ar: "arity_ok ar ?c \<Longrightarrow> 2 < length args"
      and prep: "arity_ok ar ?c \<Longrightarrow> prepared (asked args) tname ?c s (prep ?c s)" and eff: "\<forall>p. asked args p \<longrightarrow> rwfz_effect p = eff"
      and form: "\<forall>p m. asked args p \<longrightarrow> rwfz_args p m \<longrightarrow> m ! 0 = args ! 0 \<longrightarrow> rwf_op_of m = p"
      and len: "arity_ok ar ?c \<Longrightarrow> \<forall>p. asked args p \<longrightarrow> is_RRmv p \<or> 3 < length args"
      and acc: "acceptable (asked args) tname args s \<Longrightarrow> arity_ok ar ?c"
    for prep eff ar
  proof (cases "arity_ok ar ?c")
    case True
    show thesis
      by (rule update[where prep = prep and eff = eff, OF _ ar[OF True] t _ prep[OF True] eff form len[OF True]])
        (use processCommand_row[where table = ?T, OF args(1) row, of c s] True name args ar[OF True] in simp_all)
  qed (use bad[OF row] acc in blast)
  have qry: thesis
    if row: "?T (sdstolower (hd args)) = Some (redis_row proc ar)" and q: "query_cmd proc"
      and run: "arity_ok ar ?c \<Longrightarrow> \<exists>c' s'. proc ?c s = Some (c', s')" and acc: "\<not> acceptable (asked args) tname args s" for proc ar
  proof (cases "arity_ok ar ?c")
    case True
    then obtain c' s' where "proc ?c s = Some (c', s')" using run by blast
    from query_call[OF q user this] show thesis
      using same processCommand_row[where table = ?T, OF args(1) row, of c s] True acc by simp
  qed (use bad[OF row] acc in blast)
  obtain xs where xs: "zcontent s tname xs" using sync by (auto simp: rwfq.sync_def)
  consider "sdstolower (hd args) = ''rwfzadd''" | "sdstolower (hd args) = ''rwfzincrby''" | "sdstolower (hd args) = ''rwfzrem''"
    | "sdstolower (hd args) = ''rwfzscore''" | "sdstolower (hd args) = ''rwfzmax''"
    using c(2) by (auto simp: rwf_request_def)
  then show thesis
  proof cases
    case 1
    show thesis
      by (rule upd[where prep = rwfzadd_prepare and eff = rwfzadd_effect and ar = "-4"])
        (use 1 t args rwfzadd_prepared[OF sync b(1,2), of ?c] in
          \<open>auto simp: rwf_rows rwfzaddCommand_def arity_simps asked_kinds acceptable_def form_iff rwf_op_of_def\<close>)
  next
    case 2
    show thesis
      by (rule upd[where prep = rwfzincrby_prepare and eff = rwfzincrby_effect and ar = "-4"])
        (use 2 t args rwfzincrby_prepared[OF sync b(1,2), of ?c] in
          \<open>auto simp: rwf_rows rwfzincrbyCommand_def arity_simps asked_kinds acceptable_def form_iff rwf_op_of_def\<close>)
  next
    case 3
    show thesis
      by (rule upd[where prep = rwfzrem_prepare and eff = rwfzrem_effect and ar = "-3"])
        (use 3 t args rwfzrem_prepared[OF sync b, of ?c] in
          \<open>auto simp: rwf_rows rwfzremCommand_def arity_simps asked_kinds acceptable_def form_iff rwf_op_of_def\<close>)
  next
    case 4
    show thesis
      by (rule qry[OF _ queries(5), where ar = 3])
        (use 4 t score_reply_content[OF xs, of ?c] in \<open>simp_all add: rwf_rows rwfzscoreCommand_def arity_ok_def acceptable_def asked_def\<close>)
  next
    case 5
    show thesis
      by (rule qry[OF _ queries(6), where ar = 2])
        (use 5 t max_reply_content[OF xs, of ?c] in \<open>simp_all add: rwf_rows rwfzmaxCommand_def arity_ok_def acceptable_def asked_def\<close>)
  qed
qed

lemma request_explained:
  assumes x: "explained n tname i h s" and n: "0 < n" "n \<le> 100" "i < n"
    and c: "is_user c" "rwf_request tname args"
    and p: "processCommand (data_table net junk peer) (c\<lparr>argv := args\<rparr>) s = Some (c', s')"
    and ex: "\<And>key. exact_values (op_values (hist_ops key (h @ (case rargv c' of Some m \<Rightarrow> [(i, m)] | None \<Rightarrow> []))))"
  shows "case rargv c' of
      None \<Rightarrow> explained n tname i h s'
    | Some m \<Rightarrow> explained n tname i (h @ [(i, m)]) s' \<and> may_issue (rwft.slot s tname (m ! 2)) (rwf_op_of m)"
proof -
  let ?c = "c\<lparr>argv := args\<rparr>"
  have user: "is_user ?c" using c(1) by (simp add: is_user_def)
  have sync: "rwfq.sync tname s" "p2p_count s = int n" "p2p_id s = int i" using x by (simp_all add: explained_def)
  have b: "0 < p2p_count s" "p2p_count s \<le> 100" "0 \<le> p2p_id s" "p2p_id s < p2p_count s" using sync n by simp_all
  have conn: "p2p_count s' = p2p_count s" "p2p_id s' = p2p_id s" using dt.user_conn[OF c(1) p] by simp_all
  show ?thesis
  proof (cases rule: request_split[OF sync(1) b c, where net = net and junk = junk and peer = peer, case_names same update])
    case (same d)
    then show ?thesis using p x by simp
  next
    case (update prep eff)
    show ?thesis
      by (rule update_explained[where prep = prep and eff = eff and form = "asked args", OF x n(1) user _ update(2-4) _ update(5) _ _ conn ex]) (use update p in auto)
  qed
qed

text \<open>No request fails as long as the scores stay exact.\<close>

lemma request_runs:
  assumes x: "explained n tname i h s" and n: "0 < n" "n \<le> 100" "i < n"
    and c: "is_user c" "rwf_request tname args"
    and ex: "exact_values (op_values (hist_ops (args ! 2) h))"
      "\<And>v. string2d (args ! 3) = Some v \<Longrightarrow> exact_values (op_values (hist_ops (args ! 2) h) @ [v])"
  shows "\<exists>c' s'. processCommand (data_table net junk peer) (c\<lparr>argv := args\<rparr>) s = Some (c', s')"
proof -
  let ?c = "c\<lparr>argv := args\<rparr>"
  have user: "is_user ?c" using c(1) by (simp add: is_user_def)
  have sync: "rwfq.sync tname s" "p2p_count s = int n" "p2p_id s = int i" using x by (simp_all add: explained_def)
  have b: "0 < p2p_count s" "p2p_count s \<le> 100" "0 \<le> p2p_id s" "p2p_id s < p2p_count s" using sync n by simp_all
  show ?thesis
  proof (cases rule: request_split[OF sync(1) b c, where net = net and junk = junk and peer = peer, case_names same update])
    case (update prep eff)
    have num: "rwfz_SCORE (rz.step p (rwft.slot s tname (args ! 2))) \<noteq> NaN"
      if p: "asked args p" "rwfz_args p (args @ [y])" "may_issue (rwft.slot s tname (args ! 2)) p" for p y
    proof -
      let ?m = "args @ [y]"
      have nth: "?m ! 0 = args ! 0" "?m ! 2 = args ! 2" "?m ! 1 = tname" using update(2,3) by (auto simp: nth_append)
      have op: "rwf_op_of ?m = p" using update(7) p(1,2) nth(1) by blast
      have wf: "list_all (rwf_msg n tname) (h @ [(i, ?m)])"
        using x may_issue_clock[OF sync(1) p(3)] sync op p(2) nth update(4) by (simp add: explained_def rwf_msg_def)
      have "exact_values (op_values (hist_ops (args ! 2) (h @ [(i, ?m)])))"
        using update(8) p(1,2) ex op nth(2) by (cases p) (auto simp: nth_append)
      from score_of_history[OF wf this, of "int i"] x op nth(2)
      show ?thesis by (simp add: explained_def del: rz.step.simps)
    qed
    show ?thesis
      using update_runs[where prep = prep and eff = eff and form = "asked args", OF sync(1) b(1,3) user _ update(3,2,5) _ num] update(1,6)
      by auto
  qed blast
qed

text \<open>The arrival of a command of another replica never fails.\<close>

lemma deliver_explained:
  assumes x: "explained n tname j h s" and n: "0 < n" and c: "is_peer c" and m: "rwf_msg n tname (i, m)"
    and ex: "exact_values (op_values (hist_ops (m ! 2) (h @ [(i, m)])))"
  shows "\<exists>c' s'. processCommand (data_table net junk peer) (c\<lparr>argv := m\<rparr>) s = Some (c', s') \<and>
    explained n tname j (h @ [(i, m)]) s'"
proof -
  let ?p = "rwf_op_of m" and ?c = "c\<lparr>argv := m, rargv := Some m\<rparr>"
  have sync: "rwfq.sync tname s" "p2p_count s = int n" "p2p_id s = int j" using x by (simp_all add: explained_def)
  have mode: "REPLICATION_MODE s" using sync n by (simp add: REPLICATION_MODE_def)
  have args: "rwfz_args ?p m" "m ! 1 = tname" "m \<noteq> []" using m rwf_msgD(3)[OF m] by (auto simp: rwf_msg_def)
  have all: "list_all (rwf_msg n tname) (h @ [(i, m)])" using x m by (simp add: explained_def)
  have slot: "rwft.slot s tname key = rz.run (hist_ops key h) (rwfzeNew (int n) (int j))" for key
    using x by (simp add: explained_def)
  have num: "rwfz_SCORE (rz.step ?p (rwft.slot s tname (m ! 2))) \<noteq> NaN"
    using score_of_history[OF all ex, of "int j"] slot by (simp del: rz.step.simps)
  have "rwfz_done tname (m ! 2) ?p ?c s (rwfz_effect ?p ?c s)"
  proof (rule rwfz_effect_done[OF sync(1) _ _ _ args(1,2)])
    show "vc_size (op_clock ?p) = nat (p2p_count s)" "op_ids_ok ?p" using rwf_msgD[OF m] sync(2) by simp_all
  qed simp_all
  from rwfz_done_numeric[OF this num] obtain s' where s': "rwfz_effect ?p ?c s = Some (?c, s')" "rwfq.sync tname s'"
    "rwft.slot s' tname = (rwft.slot s tname)(m ! 2 := rz.step ?p (rwft.slot s tname (m ! 2)))"
    "frame tname RWF_RPQ_TABLE_SUFFIX s s'" .
  have hd: "hd m = m ! 0" using args(3) by (simp add: hd_conv_nth)
  have call: "call (CRDT_COMMAND prep (rwfz_effect ?p)) (c\<lparr>argv := m\<rparr>) s = Some (?c\<lparr>rargv := None\<rparr>, s')" for prep
    using call_replica[of "c\<lparr>argv := m\<rparr>" s "rwfz_effect ?p" ?c s' prep] s'(1) c mode by (simp add: is_peer_def)
  have "processCommand (data_table net junk peer) (c\<lparr>argv := m\<rparr>) s = Some (?c\<lparr>rargv := None\<rparr>, s')"
  proof -
    obtain prep ar where "data_table net junk peer (sdstolower (m ! 0)) = Some (redis_row (CRDT_COMMAND prep (rwfz_effect ?p)) ar)"
      "arity_ok ar (c\<lparr>argv := m\<rparr>)"
      using m args(1) by (auto simp: rwf_msg_def rwf_op_of_def Let_def rwf_rows arity_simps
          rwfzaddCommand_def rwfzincrbyCommand_def rwfzremCommand_def)
    then show ?thesis
      using call[of prep] hd args(3) by (cases m) (simp_all add: processCommand_def redis_row_def)
  qed
  moreover have "rwft.slot s' tname = (\<lambda>key. rz.run (hist_ops key (h @ [(i, m)])) (rwfzeNew (int n) (int j)))"
    using s'(3) slot by (auto simp: fun_eq_iff simp del: rz.step.simps)
  ultimately show ?thesis
    using s'(2,4) sync all by (auto simp: explained_def frame_def)
qed

lemma request_done:
  assumes s: "rwfq.sync tname s" "0 < p2p_count s" "p2p_count s \<le> 100" "0 \<le> p2p_id s" "p2p_id s < p2p_count s"
    and c: "is_user c" "rwf_request tname args"
    and num: "\<And>p x. asked args p \<Longrightarrow> rwfz_args p (args @ [x]) \<Longrightarrow> may_issue (rwft.slot s tname (args ! 2)) p \<Longrightarrow>
      rwfz_SCORE (rz.step p (rwft.slot s tname (args ! 2))) \<noteq> NaN"
  shows "\<exists>c' s'. processCommand (data_table net junk peer) (c\<lparr>argv := args\<rparr>) s = Some (c', s') \<and> rwfq.sync tname s' \<and>
    (if acceptable (asked args) tname args s
     then \<exists>p x. rargv c' = Some (args @ [x]) \<and> asked args p \<and> rwfz_args p (args @ [x]) \<and>
       may_issue (rwft.slot s tname (args ! 2)) p \<and>
       rwft.slot s' tname = (rwft.slot s tname)(args ! 2 := rz.step p (rwft.slot s tname (args ! 2)))
     else rargv c' = None \<and> rwft.slot s' tname = rwft.slot s tname)"
proof (cases rule: request_split[OF s c, where net = net and junk = junk and peer = peer, case_names same update])
  case (same d)
  then show ?thesis using s(1) by simp
next
  case (update prep eff)
  let ?c = "c\<lparr>argv := args\<rparr>"
  have user: "is_user ?c" using c(1) by (simp add: is_user_def)
  have eff: "\<And>p. asked args p \<Longrightarrow> rwfz_effect p = eff" using update(6) by blast
  have "\<exists>c' s'. call (CRDT_COMMAND prep eff) ?c s = Some (c', s')"
    by (rule update_runs[where prep = prep and eff = eff and form = "asked args", OF s(1,2,4) user _ update(3,2,5)])
      (use eff num in simp_all)
  then obtain c' s' where call: "call (CRDT_COMMAND prep eff) ?c s = Some (c', s')" by blast
  have "issued (asked args) tname args s c' s'"
    by (rule update_call[where prep = prep and eff = eff, OF s(1,2,4) user _ update(3,2,5) _ call]) (use eff num in simp_all)
  then show ?thesis
    using call update(1) by (auto simp: issued_def split: option.splits simp del: rz.step.simps)
qed

section \<open>The clocks of adds are new\<close>

text \<open>A replica never puts the same clock on two adds of an element.\<close>

definition adds_new :: "nat \<Rightarrow> (nat \<times> sds list) list \<Rightarrow> bool" where
  "adds_new i h \<longleftrightarrow> (\<forall>key. \<forall>p \<in> set (hist_ops key h). \<forall>q \<in> set (hist_ops key h).
     is_add p \<longrightarrow> is_add q \<longrightarrow> vc_id (op_clock p) = int i \<longrightarrow> vc_id (op_clock q) = int i \<longrightarrow> op_vec p = op_vec q \<longrightarrow> p = q)"

lemma adds_newD:
  "adds_new i h \<Longrightarrow> p \<in> set (hist_ops key h) \<Longrightarrow> q \<in> set (hist_ops key h) \<Longrightarrow> is_add p \<Longrightarrow> is_add q \<Longrightarrow>
   vc_id (op_clock p) = int i \<Longrightarrow> vc_id (op_clock q) = int i \<Longrightarrow> op_vec p = op_vec q \<Longrightarrow> p = q"
  unfolding adds_new_def by blast

lemma hist_ops_mem:
  assumes "list_all (rwf_msg n tname) h"
  shows "p \<in> set (hist_ops key h) \<and> vc_id (op_clock p) = int i \<longleftrightarrow>
    (\<exists>m \<in> set (sent_by i h). m ! 2 = key \<and> p = rwf_op_of m)"
  using assms by (force simp: hist_ops_def sent_by_def list_all_iff rwf_msg_def)

lemma adds_new_sub:
  assumes "adds_new i h" and "set (sent_by i h') \<subseteq> set (sent_by i h)"
    and "list_all (rwf_msg n tname) h" "list_all (rwf_msg n tname) h'"
  shows "adds_new i h'"
proof -
  have "p \<in> set (hist_ops key h)" if "p \<in> set (hist_ops key h')" "vc_id (op_clock p) = int i" for p key
    using hist_ops_mem[OF assms(3), of p key i] hist_ops_mem[OF assms(4), of p key i] that assms(2) by blast
  then show ?thesis using assms(1) unfolding adds_new_def by blast
qed

text \<open>An add is issued on an element that does not exist: none of its current operations has its clock.\<close>

lemma issue_new:
  assumes x: "explained n tname i h s" and new: "adds_new i h" and m: "may_issue (rwft.slot s tname (m ! 2)) (rwf_op_of m)"
  shows "adds_new i (h @ [(i, m)])"
proof -
  let ?p = "rwf_op_of m" and ?ops = "hist_ops (m ! 2) h"
  have wf: "rwf_history n ?ops" "list_all op_ids_ok ?ops" using x hist_ops_wf by (auto simp: explained_def)
  have slot: "rwft.slot s tname (m ! 2) = rwfz_view n (int i) ?ops"
    using x rwfz_run_view[OF wf] by (simp add: explained_def)
  have "op_vec q \<noteq> op_vec ?p" if q: "q \<in> set ?ops" "is_add q" and add: "is_add ?p" for q
  proof -
    obtain t v where p: "?p = RAdd t v" using add by (auto simp: form_iff)
    have "pid_view (current_ops n ?ops) = PID_NEXIST" "vc_vector t = latest n ?ops"
      using m p slot by (auto simp: rwfz_view_def Let_def EXISTS_def)
    moreover have "list_all op_ids_ok (current_ops n ?ops)" "\<forall>p \<in> set (current_ops n ?ops). \<not> is_RRmv p"
      using wf(2) by (auto simp: current_ops_def list_all_iff)
    ultimately have "current_ops n ?ops = []" "op_vec ?p = latest n ?ops" using pid_view_NEXIST p by auto
    then show ?thesis
      using q by (auto simp: current_ops_def filter_empty_conv form_iff)
  qed
  then show ?thesis using new unfolding adds_new_def by (fastforce split: if_splits)
qed

lemma adds_new_unique:
  assumes "\<And>i. i < n \<Longrightarrow> adds_new i h" and h: "list_all (rwf_msg n tname) h" and "fst ` set h \<subseteq> {..<n}"
  shows "adds_unique (current_ops n (hist_ops key h))"
  unfolding adds_unique_def
proof (rule inj_onI)
  fix a b
  assume a: "a \<in> set (adds_of (current_ops n (hist_ops key h)))" and b: "b \<in> set (adds_of (current_ops n (hist_ops key h)))"
    and ab: "fst a = fst b"
  have ex: "\<exists>t. RAdd t (snd a) \<in> set (hist_ops key h) \<and> vc_vector t = latest n (hist_ops key h) \<and> vc_id t = fst a"
    if a: "a \<in> set (adds_of (current_ops n (hist_ops key h)))" for a
  proof -
    obtain p where P: "p \<in> set (current_ops n (hist_ops key h))" "a \<in> set (add_entry p)" using a by (auto simp: adds_of_def)
    show ?thesis by (cases p) (use P in \<open>auto simp: current_ops_def\<close>)
  qed
  obtain t where t: "RAdd t (snd a) \<in> set (hist_ops key h)" "vc_vector t = latest n (hist_ops key h)" "vc_id t = fst a"
    using ex[OF a] by blast
  obtain u where u: "RAdd u (snd b) \<in> set (hist_ops key h)" "vc_vector u = latest n (hist_ops key h)" "vc_id u = fst b"
    using ex[OF b] by blast
  obtain i m where m: "(i, m) \<in> set h" "RAdd t (snd a) = rwf_op_of m" using t(1) by (auto simp: hist_ops_def)
  then have "rwf_msg n tname (i, m)" "i < n" using h assms(3) by (auto simp: list_all_iff)
  then have i: "i < n" "vc_id t = int i" using m(2)[symmetric] by (simp_all add: rwf_msg_def)
  have "RAdd t (snd a) = (RAdd u (snd b) :: rwfz_op)"
    by (rule adds_newD[OF assms(1)[OF i(1)] t(1) u(1)]) (use t u ab i in \<open>simp_all add: form_iff\<close>)
  then show "a = b" using ab by (simp add: prod_eq_iff)
qed

section \<open>Agreement\<close>

text \<open>The scores are sums that a double holds exactly.\<close>

definition exact_history :: "nat \<Rightarrow> cluster \<Rightarrow> bool" where
  "exact_history n K \<longleftrightarrow> (\<forall>j < n. \<forall>key. exact_values (op_values (hist_ops key (history K j))))"

lemma exact_prefix: "exact_values (op_values (hist_ops key (h @ h'))) \<Longrightarrow> exact_values (op_values (hist_ops key h))"
  by (erule exact_values_sub) (simp add: hist_ops_append)

lemma explained_cong:
  assumes "explained n tname i h s" "db s' = db s" "p2p_count s' = p2p_count s" "p2p_id s' = p2p_id s"
  shows "explained n tname i h s'"
  using assms rwfq.sync_cong[of tname s s'] rwft.table_cong(3)[of s' tname s] by (simp add: explained_def)

definition described :: "nat \<Rightarrow> sds \<Rightarrow> cluster \<Rightarrow> bool" where
  "described n tname K \<longleftrightarrow> (\<forall>j < n. explained n tname j (history K j) (sv K j) \<and> adds_new j (history K j))"

lemma fresh_described:
  assumes "fresh_cluster n K"
  shows "described n tname K"
  unfolding described_def
proof (intro allI impI conjI)
  fix j
  assume "j < n"
  then have *: "db (sv K j) = Map.empty" "p2p_count (sv K j) = int n" "p2p_id (sv K j) = int j" "history K j = []"
    using assms by (auto simp: fresh_cluster_def)
  then have "rwft.slot (sv K j) tname = (\<lambda>key. rwfzeNew (int n) (int j))"
    by (simp add: rwft.slot_def rwft.stored_def table_of_def hash_at_def fun_eq_iff)
  then show "explained n tname j (history K j) (sv K j)"
    using * rwfq.sync_empty[of "sv K j" tname] by (simp add: explained_def hist_ops_def)
  show "adds_new j (history K j)" using * by (simp add: adds_new_def hist_ops_def)
qed

lemma in_flight_msg:
  assumes "accounted n K" "described n tname K" "i < n" "l \<in> set (replicas (sv K i))" "m \<in> set (lk_out l)"
  shows "rwf_msg n tname (i, m)"
proof -
  have "sent_by i (history K (lk_peer l)) @ lk_out l = sent_by i (history K i)" using assms(1,3,4) by (simp add: accounted_def)
  then have "m \<in> set (sent_by i (history K i))" using assms(5) by (metis Un_iff set_append)
  then have "(i, m) \<in> set (history K i)" by (auto simp: sent_by_def)
  then show ?thesis using assms(2,3) by (auto simp: described_def explained_def list_all_iff)
qed

lemma described_step:
  assumes inv: "mesh n K" "accounted n K" "described n tname K" and n: "n \<le> 100"
    and step: "cstep (data_table net junk peer) (rwf_request tname) n K K'" and ex: "exact_history n K'"
  shows "described n tname K'"
  using step
proof cases
  case (request i c args c' s')
  have x: "explained n tname i (history K i) (sv K i)" "adds_new i (history K i)"
    using inv(3) request(2) by (simp_all add: described_def)
  have e: "exact_values (op_values (hist_ops key (history K i @ (case rargv c' of Some m \<Rightarrow> [(i, m)] | None \<Rightarrow> []))))" for key
    using ex request(1,2) by (auto simp: exact_history_def)
  have "explained n tname i (history K' i) s' \<and> adds_new i (history K' i)"
    using request_explained[OF x(1) _ n request(2-5) e] request(1,2) x(2) issue_new[OF x] by (auto split: option.splits)
  then show ?thesis using inv(3) request(1) by (simp add: described_def)
next
  case (deliver i k j m rest c c' s')
  let ?l = "replicas (sv K i) ! k"
  have l: "?l \<in> set (replicas (sv K i))" using deliver(3) by simp
  have j: "j < n" "j \<noteq> i" using mesh_peer[OF inv(1) deliver(2) l] deliver(4) by simp_all
  have msg: "rwf_msg n tname (i, m)" using in_flight_msg[OF inv(2,3) deliver(2) l, of m] deliver(5) by simp
  have x: "explained n tname j (history K j) (sv K j)" "adds_new j (history K j)"
    using inv(3) j(1) by (simp_all add: described_def)
  have e: "exact_values (op_values (hist_ops (m ! 2) (history K j @ [(i, m)])))"
    using ex[unfolded exact_history_def, rule_format, OF j(1), of "m ! 2"] deliver(1) by simp
  have "explained n tname j (history K j @ [(i, m)]) s'"
    using deliver_explained[OF x(1) _ deliver(6) msg e, of net junk peer] deliver(7) j(1) by auto
  moreover have "adds_new j (history K j @ [(i, m)])"
  proof (rule adds_new_sub[OF x(2)])
    show "list_all (rwf_msg n tname) (history K j)" "list_all (rwf_msg n tname) (history K j @ [(i, m)])"
      using x(1) msg by (simp_all add: explained_def)
  qed (use j(2) in simp)
  moreover have "explained n tname i (history K i) (drop_first k (sv K i))"
    using inv(3) deliver(2) explained_cong[of n tname i "history K i" "sv K i"] by (simp add: described_def drop_first_def)
  ultimately show ?thesis using inv(3) deliver(1) by (simp add: described_def)
qed

lemma exact_step:
  assumes "cstep table admit n K K'" "exact_history n K'"
  shows "exact_history n K"
  unfolding exact_history_def
proof (intro allI impI)
  fix j key
  assume "j < n"
  moreover have "\<exists>h. history K' j = history K j @ h" using assms(1) by cases (simp_all split: option.split)
  ultimately show "exact_values (op_values (hist_ops key (history K j)))"
    using assms(2) exact_prefix unfolding exact_history_def by metis
qed

lemma reach_described:
  assumes "fresh_cluster n K0" "n \<le> 100" "reach (data_table net junk peer) (rwf_request tname) n K0 K" "exact_history n K"
  shows "described n tname K"
  using assms(3,4)
proof induction
  case start
  show ?case by (rule fresh_described[OF assms(1)])
next
  case (step K K')
  have "mesh n K" "accounted n K" using dt.reach_accounted[OF assms(1) step(1)] by simp_all
  then show ?case
    using described_step[OF _ _ step.IH[OF exact_step[OF step(2,4)]] assms(2) step(2,4)] by simp
qed

text \<open>What a described replica holds is determined by the operations in its history.\<close>

lemma described_content:
  assumes "described n tname K" "j < n"
  obtains xs where "zcontent (sv K j) tname xs"
    "map_of xs = (\<lambda>key. rwfq.entry_of (rwfz_view n (int j) (hist_ops key (history K j))))"
proof -
  have x: "explained n tname j (history K j) (sv K j)" using assms by (simp add: described_def)
  then have wf: "list_all (rwf_msg n tname) (history K j)" by (simp add: explained_def)
  obtain xs where "zcontent (sv K j) tname xs" "map_of xs = (\<lambda>key. rwfq.entry_of (rwft.slot (sv K j) tname key))"
    using x by (auto simp: explained_def rwfq.sync_def)
  moreover have "rwft.slot (sv K j) tname key = rwfz_view n (int j) (hist_ops key (history K j))" for key
    using x rwfz_run_view[OF hist_ops_wf[OF wf]] by (simp add: explained_def)
  ultimately show ?thesis using that by simp
qed

lemma described_unique:
  assumes "mesh n K" "accounted n K" "described n tname K" "j < n"
  shows "adds_unique (current_ops n (hist_ops key (history K j)))"
proof (rule adds_new_unique[where tname = tname])
  have wf: "list_all (rwf_msg n tname) (history K i)" if "i < n" for i
    using assms(3) that by (auto simp: described_def explained_def)
  show "adds_new i (history K j)" if "i < n" for i
  proof (rule adds_new_sub[where n = n and tname = tname])
    show "adds_new i (history K i)" using assms(3) that by (simp add: described_def)
    show "set (sent_by i (history K j)) \<subseteq> set (sent_by i (history K i))"
      using accounted_prefix(1)[OF assms(1,2) that assms(4)] by (auto dest: set_mono_prefix)
  qed (use wf that assms(4) in simp_all)
  show "list_all (rwf_msg n tname) (history K j)" using wf assms(4) .
  show "fst ` set (history K j) \<subseteq> {..<n}" using assms(2,4) by (simp add: accounted_def)
qed

lemma hist_ops_mset: "mset h = mset h' \<Longrightarrow> mset (hist_ops key h) = mset (hist_ops key h')"
  by (simp add: hist_ops_def)

text \<open>C1: a group of replicas that serves a remove-win priority queue is eventually consistent. From
  an empty, fully connected group of at most a hundred replicas, clients send any sequence of add,
  increment, remove, score and max commands to any replicas, and the network delivers in any
  interleaving that keeps the order of every connection. Whenever nothing is in flight, all replicas
  hold the same entries and answer every score and max query alike. For every element, the scores and
  increments that were issued have to be whole numbers whose absolute values sum up to at most \<open>2\<close> to
  the power 53, so that a double adds them exactly in every order.\<close>

theorem rwf_cluster_converges:
  assumes K0: "fresh_cluster n K0" "n \<le> 100" and K: "reach (data_table net junk peer) (rwf_request tname) n K0 K"
    and "quiet n K" "exact_history n K"
  shows "\<exists>xs. \<forall>j < n. zcontent (sv K j) tname xs \<and>
    (\<forall>q. 2 < length (argv q) \<and> argv q ! 1 = tname \<longrightarrow>
      rwfzscoreCommand q (sv K j) = Some (addReply (score_answer xs (argv q ! 2)) q, sv K j) \<and>
      rwfzmaxCommand q (sv K j) = Some (fold addReply (max_answer xs) q, sv K j))"
proof -
  have inv: "mesh n K" "accounted n K" "described n tname K"
    using dt.reach_accounted[OF K0(1) K] reach_described[OF K0 K] assms(5) by simp_all
  note same = quiet_same[OF inv(1,2) assms(4)]
  have ans: "rwfzscoreCommand q s = Some (addReply (score_answer xs (argv q ! 2)) q, s) \<and>
      rwfzmaxCommand q s = Some (fold addReply (max_answer xs) q, s)"
    if "zcontent s tname xs" "2 < length (argv q) \<and> argv q ! 1 = tname" for q s xs
    using score_reply_content[OF that(1), of q "argv q ! 2"] max_reply_content[OF that(1), of q] that(2)
    by (simp add: rwfzscoreCommand_def rwfzmaxCommand_def)
  show ?thesis
  proof (cases "n = 0")
    case False
    then have n0: "0 < n" by simp
    obtain xs where xs: "zcontent (sv K 0) tname xs"
      "map_of xs = (\<lambda>key. rwfq.entry_of (rwfz_view n (int 0) (hist_ops key (history K 0))))"
      using described_content[OF inv(3) n0] by blast
    have "zcontent (sv K j) tname xs" if j: "j < n" for j
    proof -
      obtain ys where ys: "zcontent (sv K j) tname ys"
        "map_of ys = (\<lambda>key. rwfq.entry_of (rwfz_view n (int j) (hist_ops key (history K j))))"
        using described_content[OF inv(3) j] by blast
      have ex: "exact_values (op_values (hist_ops key (history K j)))" for key using assms(5) j by (simp add: exact_history_def)
      have "rwfz_view n me (hist_ops key (history K j)) = rwfz_view n me (hist_ops key (history K 0))" for me key
        by (rule rwfz_view_perm[OF hist_ops_mset[OF same[OF j n0]] described_unique[OF inv j] upds_exact[OF ex]])
      then have "map_of ys = map_of xs" unfolding xs(2) ys(2) using rwfz_entry_any_me by metis
      then have "ys = xs" using zsorted_unique zcontent_sorted[OF ys(1)] zcontent_sorted[OF xs(1)] by blast
      then show ?thesis using ys(1) by simp
    qed
    then show ?thesis using ans by (intro exI[of _ xs] allI impI conjI) auto
  qed simp
qed

text \<open>C7: what one request does. A replica that serves a remove-win priority queue takes a request to
  add, increment or remove an element exactly when it is well formed and the element is absent, or
  present, as the operation needs; it then applies the operation and queues the request, with the
  clock of the element as its last argument, the clock of a removal advanced by one, on every
  connection. Any other request changes no element and queues nothing on any connection. Neither
  fails, provided that no operation the request may stand for turns the score of the element into
  the value that is not a number, as the sum of two opposite infinities would.\<close>

theorem rwfz_request_outcome:
  assumes s: "rwfq.sync tname s" "0 < p2p_count s" "p2p_count s \<le> 100" "0 \<le> p2p_id s" "p2p_id s < p2p_count s"
    and c: "is_user c" "rwf_request tname args"
    and num: "\<And>p x. asked args p \<Longrightarrow> rwfz_args p (args @ [x]) \<Longrightarrow> may_issue (rwft.slot s tname (args ! 2)) p \<Longrightarrow>
      rwfz_SCORE (rz.step p (rwft.slot s tname (args ! 2))) \<noteq> NaN"
  shows "\<exists>c' s'. processCommand (data_table net junk peer) (c\<lparr>argv := args\<rparr>) s = Some (c', s') \<and> rwfq.sync tname s' \<and>
    (if acceptable (asked args) tname args s
     then \<exists>p x. rargv c' = Some (args @ [x]) \<and> asked args p \<and> rwfz_args p (args @ [x]) \<and>
       may_issue (rwft.slot s tname (args ! 2)) p \<and>
       rwft.slot s' tname = (rwft.slot s tname)(args ! 2 := rz.step p (rwft.slot s tname (args ! 2))) \<and>
       replicas s' = map (\<lambda>l. l\<lparr>lk_out := lk_out l @ [args @ [x]]\<rparr>) (replicas s)
     else rargv c' = None \<and> rwft.slot s' tname = rwft.slot s tname \<and> replicas s' = replicas s)"
proof -
  have sent: "case rargv c' of None \<Rightarrow> replicas s' = replicas s
      | Some m \<Rightarrow> replicas s' = map (\<lambda>l. l\<lparr>lk_out := lk_out l @ [m]\<rparr>) (replicas s)"
    if "processCommand (data_table net junk peer) (c\<lparr>argv := args\<rparr>) s = Some (c', s')" for c' s'
    using dt.user_conn[OF c(1) that] by (simp add: replicationBroadcast_def split: option.splits)
  have "\<exists>c' s'. processCommand (data_table net junk peer) (c\<lparr>argv := args\<rparr>) s = Some (c', s') \<and> rwfq.sync tname s' \<and>
    (if acceptable (asked args) tname args s
     then \<exists>p x. rargv c' = Some (args @ [x]) \<and> asked args p \<and> rwfz_args p (args @ [x]) \<and>
       may_issue (rwft.slot s tname (args ! 2)) p \<and>
       rwft.slot s' tname = (rwft.slot s tname)(args ! 2 := rz.step p (rwft.slot s tname (args ! 2)))
     else rargv c' = None \<and> rwft.slot s' tname = rwft.slot s tname)"
    using request_done[OF s c num] .
  then obtain c' s' where p: "processCommand (data_table net junk peer) (c\<lparr>argv := args\<rparr>) s = Some (c', s')" "rwfq.sync tname s'"
    and r: "if acceptable (asked args) tname args s
     then \<exists>p x. rargv c' = Some (args @ [x]) \<and> asked args p \<and> rwfz_args p (args @ [x]) \<and>
       may_issue (rwft.slot s tname (args ! 2)) p \<and>
       rwft.slot s' tname = (rwft.slot s tname)(args ! 2 := rz.step p (rwft.slot s tname (args ! 2)))
     else rargv c' = None \<and> rwft.slot s' tname = rwft.slot s tname" by blast
  show ?thesis
  proof (cases "acceptable (asked args) tname args s")
    case True
    obtain q x where q: "rargv c' = Some (args @ [x])" "asked args q" "rwfz_args q (args @ [x])"
      "may_issue (rwft.slot s tname (args ! 2)) q"
      "rwft.slot s' tname = (rwft.slot s tname)(args ! 2 := rz.step q (rwft.slot s tname (args ! 2)))"
      using r True by auto
    moreover have "replicas s' = map (\<lambda>l. l\<lparr>lk_out := lk_out l @ [args @ [x]]\<rparr>) (replicas s)"
      using sent[OF p(1)] q(1) by simp
    ultimately show ?thesis using p True by (intro exI[of _ c'] exI[of _ s']) auto
  next
    case False
    then show ?thesis using p r sent[OF p(1)] by (intro exI[of _ c'] exI[of _ s']) simp
  qed
qed

section \<open>Progress\<close>

definition exact_issued :: "nat \<Rightarrow> cluster \<Rightarrow> bool" where
  "exact_issued n K \<longleftrightarrow> (\<forall>key. exact_values (op_values (hist_ops key (all_issued n K))))"

lemma hist_ops_sub: "mset h \<subseteq># mset h' \<Longrightarrow> mset (op_values (hist_ops key h)) \<subseteq># mset (op_values (hist_ops key h'))"
proof -
  assume "mset h \<subseteq># mset h'"
  then obtain r where "mset h' = mset h + mset r" by (metis ex_mset subset_mset.le_iff_add)
  then have "mset h' = mset (h @ r)" by simp
  then have "mset (op_values (hist_ops key h')) = mset (op_values (hist_ops key (h @ r)))"
    by (intro op_values_mset hist_ops_mset)
  then show ?thesis by (simp add: hist_ops_append)
qed

lemma exact_issued_history: "mesh n K \<Longrightarrow> accounted n K \<Longrightarrow> exact_issued n K \<Longrightarrow> exact_history n K"
  unfolding exact_history_def exact_issued_def
  using exact_values_sub[OF _ hist_ops_sub[OF history_issued]] by blast

text \<open>The oldest command of any connection can be processed by its receiver.\<close>

lemma head_processed:
  assumes inv: "mesh n K" "accounted n K" "described n tname K" and ex: "exact_issued n K"
    and i: "i < n" "k < length (replicas (sv K i))" "lk_out (replicas (sv K i) ! k) = m # rest" and c: "is_peer c"
  shows "\<exists>c' s'. processCommand (data_table net junk peer) (c\<lparr>argv := m\<rparr>) (sv K (lk_peer (replicas (sv K i) ! k))) = Some (c', s')"
proof -
  let ?l = "replicas (sv K i) ! k"
  define j where "j = lk_peer ?l"
  have l: "?l \<in> set (replicas (sv K i))" using i(2) by simp
  have j: "j < n" "j \<noteq> i" using mesh_peer[OF inv(1) i(1) l] j_def by simp_all
  have msg: "rwf_msg n tname (i, m)" using in_flight_msg[OF inv(2,3) i(1) l, of m] i(3) by simp
  have x: "explained n tname j (history K j) (sv K j)" using inv(3) j(1) by (simp add: described_def)
  have "mset (history K j @ [(i, m)]) \<subseteq># mset (all_issued n K)"
  proof (rule mset_subset_eqI)
    fix y :: "nat \<times> sds list"
    have "sent_by i (history K j) @ m # rest = sent_by i (history K i)"
      using inv(2) i l unfolding accounted_def j_def by metis
    then have "count (mset (history K j @ [(i, m)])) (i, m) \<le> count (mset (all_issued n K)) (i, m)"
      using all_issued_count[OF i(1), of K m] by (simp add: sent_by_count[of "history K j"] flip: \<open>_ = sent_by i (history K i)\<close>)
    then show "count (mset (history K j @ [(i, m)])) y \<le> count (mset (all_issued n K)) y"
      using mset_subset_eq_count[OF history_issued[OF inv(1,2) j(1)], of y] by (cases "y = (i, m)") simp_all
  qed
  then have e: "exact_values (op_values (hist_ops (m ! 2) (history K j @ [(i, m)])))"
    using ex exact_values_sub[OF _ hist_ops_sub] unfolding exact_issued_def by blast
  show ?thesis using deliver_explained[OF x _ c msg e, of net junk peer] j(1) j_def by auto
qed

text \<open>A step without requests is an arrival.\<close>

lemma arrival_only:
  assumes "mesh n K" "cstep (data_table net junk peer) (\<lambda>_. False) n K K'"
  shows "in_flight n K = Suc (in_flight n K')" "all_issued n K' = all_issued n K" "cstep (data_table net junk peer) admit n K K'"
proof -
  have "in_flight n K = Suc (in_flight n K') \<and> all_issued n K' = all_issued n K \<and> cstep (data_table net junk peer) admit n K K'"
    using assms(2)
  proof cases
    case (deliver i k j m rest c c' s')
    have j: "j < n" "j \<noteq> i" using mesh_peer[OF assms(1) deliver(2) nth_mem[OF deliver(3)]] deliver(4) by simp_all
    have "replicas s' = replicas (sv K j)" using dt.peer_conn[OF deliver(6,7)] by (simp add: conn_def)
    from arrival[OF deliver(2,3,5) j this deliver(1)] show ?thesis
      using cstep.deliver[OF deliver(2-7)] deliver(1) by simp
  qed simp
  then show "in_flight n K = Suc (in_flight n K')" "all_issued n K' = all_issued n K" "cstep (data_table net junk peer) admit n K K'"
    by simp_all
qed

lemma arrivals:
  assumes K0: "fresh_cluster n K0" and K: "reach (data_table net junk peer) admit n K0 K"
    and "(cstep (data_table net junk peer) (\<lambda>_. False) n ^^ d) K K'"
  shows "reach (data_table net junk peer) admit n K0 K' \<and> in_flight n K = d + in_flight n K' \<and> all_issued n K' = all_issued n K"
  using assms(3)
proof (induction d arbitrary: K')
  case (Suc d)
  then obtain K1 where K1: "(cstep (data_table net junk peer) (\<lambda>_. False) n ^^ d) K K1"
    "cstep (data_table net junk peer) (\<lambda>_. False) n K1 K'" by auto
  note r = Suc.IH[OF K1(1)]
  then have "mesh n K1" using dt.reach_accounted[OF K0] by blast
  from arrival_only[OF this K1(2)] show ?case using r by (auto intro: reach.step)
qed (use K in simp)

lemma reach_inv:
  assumes K0: "fresh_cluster n K0" "n \<le> 100" and K: "reach (data_table net junk peer) (rwf_request tname) n K0 K" "exact_issued n K"
  shows "mesh n K" "accounted n K" "described n tname K"
proof -
  show inv: "mesh n K" "accounted n K" using dt.reach_accounted[OF K0(1) K(1)] by simp_all
  show "described n tname K" using reach_described[OF K0 K(1)] exact_issued_history[OF inv K(2)] .
qed

lemma arrival_possible:
  assumes K0: "fresh_cluster n K0" "n \<le> 100" and K: "reach (data_table net junk peer) (rwf_request tname) n K0 K" "exact_issued n K"
    and fl: "0 < in_flight n K"
  obtains K' where "cstep (data_table net junk peer) (\<lambda>_. False) n K K'"
proof -
  obtain i k m rest where i: "i < n" "k < length (replicas (sv K i))" "lk_out (replicas (sv K i) ! k) = m # rest"
    using in_flight_next[OF fl] .
  let ?c = "createClient\<lparr>flag_replica := True\<rparr>"
  have c: "is_peer ?c" by (simp add: is_peer_def createClient_def)
  obtain c' s' where p: "processCommand (data_table net junk peer) (?c\<lparr>argv := m\<rparr>) (sv K (lk_peer (replicas (sv K i) ! k))) = Some (c', s')"
    using head_processed[OF reach_inv[OF K0 K] K(2) i c] by blast
  show ?thesis by (rule that[OF cstep.deliver[OF i(1,2) refl i(3) c p]])
qed

lemma drain:
  assumes K0: "fresh_cluster n K0" "n \<le> 100" and K: "reach (data_table net junk peer) (rwf_request tname) n K0 K" "exact_issued n K"
    and "d \<le> in_flight n K"
  shows "\<exists>K'. (cstep (data_table net junk peer) (\<lambda>_. False) n ^^ d) K K'"
  using assms(5)
proof (induction d)
  case (Suc d)
  then obtain K1 where K1: "(cstep (data_table net junk peer) (\<lambda>_. False) n ^^ d) K K1" by auto
  note r = arrivals[OF K0(1) K(1) this]
  then have "exact_issued n K1" "0 < in_flight n K1" using K(2) Suc(2) by (simp_all add: exact_issued_def)
  then obtain K' where "cstep (data_table net junk peer) (\<lambda>_. False) n K1 K'" using arrival_possible[OF K0] r by blast
  then show ?case using K1 by auto
qed auto

text \<open>C4: a group that serves a remove-win priority queue never gets stuck, as long as the scores and
  increments issued for each element are whole numbers whose absolute values sum up to at most \<open>2\<close> to
  the power 53. Take any reachable state and let commands
  in flight arrive, without any further request, in any order that keeps the order of each
  connection. Wherever this has led, every receiver can process the oldest command of every
  connection, so that no replica fails; and nothing is in flight exactly when as many commands have
  arrived as were in flight at first, which never takes more steps and can always be reached.\<close>

theorem rwf_cluster_drains:
  assumes "fresh_cluster n K0" "n \<le> 100" "reach (data_table net junk peer) (rwf_request tname) n K0 K" "exact_issued n K"
  shows "(\<forall>d K'. (cstep (data_table net junk peer) (\<lambda>_. False) n ^^ d) K K' \<longrightarrow>
      d \<le> in_flight n K \<and> (quiet n K' \<longleftrightarrow> d = in_flight n K) \<and> all_issued n K' = all_issued n K \<and>
      (\<forall>i k m rest c. i < n \<and> k < length (replicas (sv K' i)) \<and> lk_out (replicas (sv K' i) ! k) = m # rest \<and> is_peer c \<longrightarrow>
        (\<exists>c' s'. processCommand (data_table net junk peer) (c\<lparr>argv := m\<rparr>) (sv K' (lk_peer (replicas (sv K' i) ! k))) = Some (c', s')))) \<and>
    (\<forall>d \<le> in_flight n K. \<exists>K'. (cstep (data_table net junk peer) (\<lambda>_. False) n ^^ d) K K')"
proof (intro conjI allI impI, goal_cases)
  case (1 d K')
  then show ?case using arrivals[OF assms(1,3) 1] by simp
next
  case (2 d K')
  then show ?case using arrivals[OF assms(1,3) 2] by (auto simp: quiet_in_flight)
next
  case (3 d K')
  then show ?case using arrivals[OF assms(1,3) 3] by simp
next
  case (4 d K' i k m rest c)
  note r = arrivals[OF assms(1,3) 4(1)]
  then have ex: "exact_issued n K'" using assms(4) by (simp add: exact_issued_def)
  have inv: "mesh n K'" "accounted n K'" "described n tname K'" using reach_inv[OF assms(1,2) _ ex] r by blast+
  show ?case using head_processed[OF inv ex] 4(2) by blast
next
  case (5 d)
  then show ?case by (rule drain[OF assms])
qed

section \<open>A run of two replicas\<close>

text \<open>Replica 0 is asked to add an element; the command then reaches replica 1.\<close>

definition pair_server :: "nat \<Rightarrow> server" where
  "pair_server i = (initServer [] [] (\<lambda>_. dzero) (\<lambda>_ _. 0))
     \<lparr>p2p_count := 2, p2p_id := int i, replicas := [\<lparr>lk_peer = 1 - i, lk_out = []\<rparr>]\<rparr>"

definition pair :: cluster where
  "pair = \<lparr>sv = pair_server, history = \<lambda>_. []\<rparr>"

abbreviation (input) add_k :: "sds list" where
  "add_k \<equiv> [''rwfzadd'', ''q'', ''k'', ''5'']"

lemma pair_fresh: "fresh_cluster 2 pair"
  by (auto simp: fresh_cluster_def mesh_def pair_def pair_server_def initServer_def dest!: less_2_cases)

lemma pair_value: "string2d ''5'' = Some (Fin 5)"
  using dround_of_int[of 5] by (simp add: eval_double)

lemma exact_one: "exact_values [Fin 5]"
  unfolding exact_values_def by (intro exI[of _ "[5]"]) simp

lemma pair_slot: "rwft.slot (pair_server i) ''q'' ''k'' = rwfzeNew 2 (int i)"
  by (simp add: rwft.slot_def rwft.stored_def table_of_def hash_at_def pair_server_def initServer_def)

lemma pair_admits: "rwf_request ''q'' add_k" "asked add_k = is_add"
  by (simp_all add: rwf_request_def asked_def fun_eq_iff eval_string)

lemma pair_sync: "rwfq.sync ''q'' (pair_server i)"
  by (rule rwfq.sync_empty) (simp_all add: pair_server_def initServer_def)

lemma pair_acceptable: "acceptable (asked add_k) ''q'' add_k (pair_server 0)"
proof -
  let ?t = "\<lparr>vc_vector = [0, 0], vc_id = 0\<rparr>"
  have "sdsToVC ''0,0|0'' = Some ?t" by (simp add: eval_vc)
  moreover have "reh_current (rwfze_header (rwfzeNew 2 0)) = ?t" "\<not> EXISTS (rwfze_header (rwfzeNew 2 0))"
    by (simp_all add: rwfzeNew_def REH_INIT_def vc_new_def EXISTS_def numeral_2_eq_2)
  ultimately show ?thesis
    unfolding acceptable_def pair_admits
    by (intro exI[of _ "RAdd ?t (Fin 5)"] exI[of _ "''0,0|0''"]) (simp add: pair_slot[of 0, simplified] pair_value)
qed

lemma pair_numeric:
  assumes "asked add_k p" "rwfz_args p (add_k @ [x])" "may_issue (rwft.slot (pair_server 0) ''q'' ''k'') p"
  shows "rwfz_SCORE (rz.step p (rwft.slot (pair_server 0) ''q'' ''k'')) \<noteq> NaN"
proof -
  obtain t where p: "p = RAdd t (Fin 5)" "t = reh_current (rwfze_header (rwfzeNew 2 0))"
    using assms pair_slot[of 0] pair_value by (auto simp: pair_admits form_iff)
  then have "rz.run [p] (rwfzeNew (int 2) 0) = rz.step p (rwft.slot (pair_server 0) ''q'' ''k'')"
    using pair_slot[of 0] rz.run_snoc[of "[]" p "rwfzeNew 2 0"] by (simp del: rz.step.simps)
  moreover have "rwf_history 2 [p]" "list_all op_ids_ok [p]" "exact_values (op_values [p])"
    using p exact_one by (simp_all add: rwf_history_def rwfzeNew_def REH_INIT_def vc_new_def)
  ultimately show ?thesis using rwfz_score_numeric[of 2 "[p]" 0] by simp
qed

lemma pair_request:
  obtains c' s' x where
    "processCommand (data_table net junk peer) (createClient\<lparr>argv := add_k\<rparr>) (pair_server 0) = Some (c', s')"
    "rargv c' = Some (add_k @ [x])" "string2d (add_k ! 3) = Some (Fin 5)"
proof -
  have user: "is_user createClient" by (simp add: is_user_def createClient_def)
  have b: "0 < p2p_count (pair_server 0)" "p2p_count (pair_server 0) \<le> 100" "0 \<le> p2p_id (pair_server 0)"
    "p2p_id (pair_server 0) < p2p_count (pair_server 0)" by (simp_all add: pair_server_def)
  have "\<exists>c' s' x. processCommand (data_table net junk peer) (createClient\<lparr>argv := add_k\<rparr>) (pair_server 0) = Some (c', s') \<and>
     rargv c' = Some (add_k @ [x])"
    using request_done[OF pair_sync b user pair_admits(1), of net junk peer] pair_numeric pair_acceptable by fastforce
  then show ?thesis using that pair_value by auto
qed

lemma pair_pending:
  obtains K m where "reach (data_table net junk peer) (rwf_request ''q'') 2 pair K" "exact_issued 2 K"
    "all_issued 2 K = [(0, m)]"
proof -
  let ?T = "data_table net junk peer"
  have cl: "is_user createClient" by (simp add: is_user_def createClient_def)
  obtain c1 s1 x where r: "processCommand ?T (createClient\<lparr>argv := add_k\<rparr>) (pair_server 0) = Some (c1, s1)"
    "rargv c1 = Some (add_k @ [x])" using pair_request by blast
  define m where "m = add_k @ [x]"
  define K1 where "K1 = \<lparr>sv = pair_server(0 := s1), history = (\<lambda>_. [])(0 := [(0, m)])\<rparr>"
  have "cstep ?T (rwf_request ''q'') 2 pair K1"
    using cstep.request[of 0 2 createClient "rwf_request ''q''" add_k ?T pair c1 s1] cl pair_admits(1) r
    by (simp add: pair_def K1_def m_def)
  then have "reach ?T (rwf_request ''q'') 2 pair K1" by (rule reach.step[OF reach.start])
  moreover have a: "all_issued 2 K1 = [(0, m)]" by (simp add: all_issued_def K1_def sent_by_def numeral_2_eq_2)
  then have "exact_issued 2 K1"
    using exact_one by (auto simp: exact_issued_def hist_ops_def m_def rwf_op_of_def pair_value eval_string exact_values_Nil)
  ultimately show ?thesis using that a by blast
qed

lemma pair_prefix: "map (Pair (0 :: nat)) xs @ map (Pair 1) ys = [(0, m)] \<Longrightarrow> xs = [m]"
  by (cases xs) auto

lemma pair_run:
  "\<exists>K m. reach (data_table net junk peer) (rwf_request ''q'') 2 pair K \<and> quiet 2 K \<and> exact_history 2 K \<and>
     sent_by 0 (history K 0) = [m] \<and> sent_by 0 (history K 1) = [m]"
proof -
  let ?T = "data_table net junk peer"
  obtain K1 m where K1: "reach ?T (rwf_request ''q'') 2 pair K1" "exact_issued 2 K1" "all_issued 2 K1 = [(0, m)]"
    using pair_pending by blast
  obtain K where "(cstep ?T (\<lambda>_. False) 2 ^^ in_flight 2 K1) K1 K"
    using drain[OF pair_fresh _ K1(1,2)] by auto
  from arrivals[OF pair_fresh K1(1) this] have K: "quiet 2 K" "all_issued 2 K = all_issued 2 K1"
    and r: "reach ?T (rwf_request ''q'') 2 pair K" by (simp_all add: quiet_in_flight)
  have inv: "mesh 2 K" "accounted 2 K" using dt.reach_accounted[OF pair_fresh r] by simp_all
  have "exact_issued 2 K" using K1(2) K(2) by (simp add: exact_issued_def)
  then have "exact_history 2 K" using exact_issued_history[OF inv] by simp
  moreover have "sent_by 0 (history K 0) = [m]"
    using pair_prefix[of "sent_by 0 (history K 0)" "sent_by 1 (history K 1)"] K(2) K1(3)
    by (simp add: all_issued_def numeral_2_eq_2)
  moreover have "sent_by 0 (history K 1) = sent_by 0 (history K 0)" by (rule accounted_prefix(2)[OF inv _ _ K(1)]) simp_all
  ultimately show ?thesis using r K(1) by auto
qed

theorem rwf_cluster_converges_witness:
  "\<exists>K m xs. reach (data_table (\<lambda>_ _ _. True) 0 0) (rwf_request ''q'') 2 pair K \<and> sent_by 0 (history K 0) = [m] \<and> sent_by 0 (history K 1) = [m] \<and>
     zcontent (sv K 0) ''q'' xs \<and> zcontent (sv K 1) ''q'' xs"
proof -
  obtain K m where K: "reach (data_table (\<lambda>_ _ _. True) 0 0) (rwf_request ''q'') 2 pair K" "quiet 2 K" "exact_history 2 K"
    "sent_by 0 (history K 0) = [m]" "sent_by 0 (history K 1) = [m]"
    using pair_run by blast
  from rwf_cluster_converges[OF pair_fresh _ K(1-3)] obtain xs where
    xs: "\<forall>j < 2. zcontent (sv K j) ''q'' xs" by auto
  then have "zcontent (sv K 0) ''q'' xs" "zcontent (sv K 1) ''q'' xs" by simp_all
  then show ?thesis using K by blast
qed

theorem rwf_cluster_drains_witness:
  "\<exists>K K' m. reach (data_table (\<lambda>_ _ _. True) 0 0) (rwf_request ''q'') 2 pair K \<and> all_issued 2 K = [(0, m)] \<and>
     (cstep (data_table (\<lambda>_ _ _. True) 0 0) (\<lambda>_. False) 2 ^^ in_flight 2 K) K K' \<and> quiet 2 K'"
proof -
  obtain K m where K: "reach (data_table (\<lambda>_ _ _. True) 0 0) (rwf_request ''q'') 2 pair K" "exact_issued 2 K"
    "all_issued 2 K = [(0, m)]"
    using pair_pending by blast
  note d = rwf_cluster_drains[OF pair_fresh _ K(1,2), simplified]
  then obtain K' where K': "(cstep (data_table (\<lambda>_ _ _. True) 0 0) (\<lambda>_. False) 2 ^^ in_flight 2 K) K K'" by blast
  then have "quiet 2 K'" using d by blast
  then show ?thesis using K K' by blast
qed

theorem broadcast_reliable_witness:
  "\<exists>K m. reach (data_table (\<lambda>_ _ _. True) 0 0) (rwf_request ''q'') 2 pair K \<and> sent_by 0 (history K 0) = [m] \<and>
     mset (history K 0) = mset (history K 1)"
proof -
  obtain K m where K: "reach (data_table (\<lambda>_ _ _. True) 0 0) (rwf_request ''q'') 2 pair K" "quiet 2 K"
    "sent_by 0 (history K 0) = [m]"
    using pair_run by blast
  have "mset (history K 0) = mset (history K 1)"
    using broadcast_reliable[OF pair_fresh K(1), rule_format, of 0 1] K(2) by simp
  then show ?thesis using K by blast
qed

theorem rwfz_request_outcome_witness:
  "\<exists>c' s' x. processCommand (data_table (\<lambda>_ _ _. True) 0 0) (createClient\<lparr>argv := add_k\<rparr>) (pair_server 0) = Some (c', s') \<and>
     rargv c' = Some (add_k @ [x]) \<and> rwfq.sync ''q'' s'"
proof -
  have user: "is_user createClient" by (simp add: is_user_def createClient_def)
  have b: "0 < p2p_count (pair_server 0)" "p2p_count (pair_server 0) \<le> 100" "0 \<le> p2p_id (pair_server 0)"
    "p2p_id (pair_server 0) < p2p_count (pair_server 0)" by (simp_all add: pair_server_def)
  show ?thesis
    using rwfz_request_outcome[OF pair_sync b user pair_admits(1), of "\<lambda>_ _ _. True" 0 0] pair_numeric pair_acceptable by fastforce
qed

theorem request_outcome_witness:
  "\<exists>c' s' m. processCommand (redisCommandTable (\<lambda>_ _ _. True) 0 0) (createClient\<lparr>argv := add_k\<rparr>) (pair_server 0) = Some (c', s') \<and>
     rargv c' = Some m \<and> replies c' = [ROk] \<and> replicas s' = [\<lparr>lk_peer = 1, lk_out = [m]\<rparr>]"
proof -
  have nm: "sdstolower ''rwfzadd'' = ''rwfzadd''" by (simp add: eval_string)
  obtain c' s' x where "processCommand (data_table (\<lambda>_ _ _. True) 0 0) (createClient\<lparr>argv := add_k\<rparr>) (pair_server 0) = Some (c', s')"
    and r: "rargv c' = Some (add_k @ [x])" using pair_request by blast
  then have p: "processCommand (redisCommandTable (\<lambda>_ _ _. True) 0 0) (createClient\<lparr>argv := add_k\<rparr>) (pair_server 0) = Some (c', s')"
    by (simp add: processCommand_def data_table_def nm)
  show ?thesis
    using request_outcome[OF _ _ _ _ _ p, of "''rwfzadd''" "tl add_k"] nm r p
    by (simp add: createClient_def update_names_def replicationBroadcast_def pair_server_def)
qed

end
