(* ===== verification/CausalDelivery.thy ===== *)
theory CausalDelivery
  imports CausalQueue
begin

text \<open>
  What the loop of \<open>CausalQueue\<close> guarantees to the types that use it. The locale
  \<open>causal_process\<close> is its contract with a type: an operation that is next in causal order can be
  applied, and applying it advances the clock. In return the operations of a causal history are
  all applied, each in its turn, whatever the order they arrive in.
\<close>

section \<open>Clocks applied in turn\<close>

lemma vlt_trans: "vlt xs ys \<Longrightarrow> vlt ys zs \<Longrightarrow> vlt xs zs"
  unfolding vlt_def using vle_trans vle_antisym by blast

lemma vlt_asym: "vlt xs ys \<Longrightarrow> \<not> vlt ys xs"
  unfolding vlt_def using vle_antisym by blast

definition vc_seq :: "vc \<Rightarrow> int" where
  "vc_seq t = vc_vector t ! nat (vc_id t)"

definition clock_ok :: "nat \<Rightarrow> vc \<Rightarrow> bool" where
  "clock_ok n t \<longleftrightarrow> vc_size t = n \<and> 0 \<le> vc_id t \<and> vc_id t < int n"

fun in_turn :: "vc \<Rightarrow> vc list \<Rightarrow> bool" where
  "in_turn c [] \<longleftrightarrow> True"
| "in_turn c (t # ts) \<longleftrightarrow> vc_causally_ready c t = Some True \<and> in_turn (vc_update c t) ts"

definition merged :: "nat \<Rightarrow> int \<Rightarrow> vc list \<Rightarrow> vc" where
  "merged n me ts = foldl vc_update (vc_new (int n) me) ts"

lemma in_turn_append [simp]: "in_turn c (ts @ us) \<longleftrightarrow> in_turn c ts \<and> in_turn (foldl vc_update c ts) us"
  by (induction ts arbitrary: c) auto

lemma merged_snoc [simp]: "merged n me (ts @ [t]) = vc_update (merged n me ts) t"
  by (simp add: merged_def)

lemma merged_Nil [simp]: "merged n me [] = vc_new (int n) me"
  by (simp add: merged_def)

lemma vc_size_merged [simp]: "vc_size (merged n me ts) = n"
  by (induction ts rule: rev_induct) (simp_all add: vc_new_def)

lemma vc_id_merged [simp]: "vc_id (merged n me ts) = me"
  by (induction ts rule: rev_induct) (simp_all add: vc_new_def)

lemma in_turn_snoc:
  "in_turn (vc_new (int n) me) (ts @ [t]) \<longleftrightarrow>
     in_turn (vc_new (int n) me) ts \<and> vc_causally_ready (merged n me ts) t = Some True"
  by (simp add: merged_def)

lemma ready_decided:
  assumes "clock_ok n t" "vc_size c = n"
  obtains b where "vc_causally_ready c t = Some b"
  using assms vc_causally_ready_iff[of c t] by (simp add: clock_ok_def)

lemma ready_seq:
  assumes "clock_ok n t" "vc_size c = n" "vc_causally_ready c t = Some True"
  shows "vc_seq t = vc_vector c ! nat (vc_id t) + 1"
    and "vc_vector (vc_update c t) = (vc_vector c)[nat (vc_id t) := vc_vector c ! nat (vc_id t) + 1]"
  using assms vc_causally_ready_iff[of c t] ready_advances[of c t] by (simp_all add: clock_ok_def vc_seq_def)

text \<open>The merged clock counts what was applied: the operations of replica \<open>k\<close> numbered up to its entry.\<close>

lemma in_turn_counts:
  assumes "in_turn (vc_new (int n) me) ts" "list_all (clock_ok n) ts" "k < n"
  shows "0 \<le> vc_vector (merged n me ts) ! k \<and>
    vc_seq ` {t \<in> set ts. vc_id t = int k} = {1..vc_vector (merged n me ts) ! k}"
  using assms(1,2)
proof (induction ts rule: rev_induct)
  case Nil
  then show ?case using assms(3) by (simp add: vc_new_def)
next
  case (snoc t ts)
  let ?c = "merged n me ts"
  have t: "clock_ok n t" "vc_causally_ready ?c t = Some True" using snoc.prems by (simp_all add: in_turn_snoc del: in_turn_append)
  note adv = ready_seq[OF t(1) vc_size_merged t(2)]
  have IH: "0 \<le> vc_vector ?c ! k" "vc_seq ` {t \<in> set ts. vc_id t = int k} = {1..vc_vector ?c ! k}"
    using snoc by (simp_all add: in_turn_snoc del: in_turn_append)
  show ?case
  proof (cases "vc_id t = int k")
    case True
    have "{u \<in> set (ts @ [t]). vc_id u = int k} = insert t {u \<in> set ts. vc_id u = int k}" using True by auto
    then have "vc_seq ` {u \<in> set (ts @ [t]). vc_id u = int k} = insert (vc_vector ?c ! k + 1) {1..vc_vector ?c ! k}"
      using IH(2) adv(1) True by simp
    also have "\<dots> = {1..vc_vector ?c ! k + 1}" using IH(1) by auto
    finally show ?thesis using IH(1) adv(2) True assms(3) by simp
  next
    case False
    have "nat (vc_id t) \<noteq> k" using False t(1) by (auto simp: clock_ok_def)
    moreover have "{u \<in> set (ts @ [t]). vc_id u = int k} = {u \<in> set ts. vc_id u = int k}" using False by auto
    ultimately show ?thesis using IH adv(2) by simp
  qed
qed

section \<open>Causal histories\<close>

text \<open>The clocks of a history of \<open>n\<close> replicas: replicas number their operations, and every
  operation a clock counts is in the history, with a clock below it.\<close>

definition causal_history :: "nat \<Rightarrow> vc list \<Rightarrow> bool" where
  "causal_history n ts \<longleftrightarrow>
     list_all (\<lambda>t. clock_ok n t \<and> 1 \<le> vc_seq t) ts \<and> distinct (map (\<lambda>t. (vc_id t, vc_seq t)) ts) \<and>
     list_all (\<lambda>t. \<forall>k < n. \<forall>m \<in> {1..vc_vector t ! k}.
       list_ex (\<lambda>u. vc_id u = int k \<and> vc_seq u = m \<and> (u = t \<or> vlt (vc_vector u) (vc_vector t))) ts) ts"

lemma causal_historyD:
  assumes "causal_history n ts"
  shows "t \<in> set ts \<Longrightarrow> clock_ok n t" "t \<in> set ts \<Longrightarrow> 1 \<le> vc_seq t"
    "distinct (map (\<lambda>t. (vc_id t, vc_seq t)) ts)"
    "t \<in> set ts \<Longrightarrow> k < n \<Longrightarrow> 1 \<le> m \<Longrightarrow> m \<le> vc_vector t ! k \<Longrightarrow>
       \<exists>u \<in> set ts. vc_id u = int k \<and> vc_seq u = m \<and> (u = t \<or> vlt (vc_vector u) (vc_vector t))"
  using assms by (auto simp: causal_history_def list_all_iff list_ex_iff)

lemma causal_history_perm: "mset ts = mset us \<Longrightarrow> causal_history n ts = causal_history n us"
  using mset_eq_setD[of ts us] mset_eq_imp_distinct_iff[of "map (\<lambda>t. (vc_id t, vc_seq t)) ts" "map (\<lambda>t. (vc_id t, vc_seq t)) us"]
  by (simp add: causal_history_def list_all_iff list_ex_iff)

lemma causal_history_inj:
  assumes "causal_history n ts" "t \<in> set ts" "u \<in> set ts" "vc_id t = vc_id u" "vc_seq t = vc_seq u"
  shows "t = u"
  using causal_historyD(3)[OF assms(1)] assms(2-) by (auto simp: distinct_map dest: inj_onD)

text \<open>A replica's own operations are ordered by their numbers.\<close>

lemma causal_history_same_id:
  assumes h: "causal_history n ts" and "t \<in> set ts" "u \<in> set ts" "vc_id t = vc_id u" "vc_seq t \<le> vc_seq u"
  shows "vle (vc_vector t) (vc_vector u)"
proof -
  have ok: "clock_ok n t" "1 \<le> vc_seq t" using causal_historyD(1,2)[OF h] assms(2) by auto
  have "\<exists>w \<in> set ts. vc_id w = int (nat (vc_id u)) \<and> vc_seq w = vc_seq t \<and> (w = u \<or> vlt (vc_vector w) (vc_vector u))"
    using ok assms(3-5) by (intro causal_historyD(4)[OF h]) (auto simp: clock_ok_def vc_seq_def)
  then obtain w where w: "w \<in> set ts" "vc_id w = vc_id t" "vc_seq w = vc_seq t" "w = u \<or> vlt (vc_vector w) (vc_vector u)"
    using ok assms(4) by (auto simp: clock_ok_def)
  then have "w = t" using causal_history_inj[OF h] assms(2) by blast
  then show ?thesis using w(4) by (auto simp: vlt_def)
qed

lemma causal_history_comparable:
  assumes "causal_history n ts" "t \<in> set ts" "u \<in> set ts"
  shows "vc_size t = vc_size u"
    and "vc_id t \<noteq> vc_id u \<or> vle (vc_vector t) (vc_vector u) \<or> vle (vc_vector u) (vc_vector t)"
  using causal_historyD(1)[OF assms(1) assms(2)] causal_historyD(1)[OF assms(1) assms(3)]
    causal_history_same_id[OF assms(1,2,3)] causal_history_same_id[OF assms(1,3,2)] linear[of "vc_seq t" "vc_seq u"]
  by (simp_all add: clock_ok_def) metis

text \<open>When part of a history was applied in turn and nothing of the rest is next, there is no rest:
  a smallest clock of the rest would be next.\<close>

lemma nothing_waits:
  assumes h: "causal_history n (ts @ ws)" and turn: "in_turn (vc_new (int n) me) ts"
    and stuck: "\<forall>w \<in> set ws. vc_causally_ready (merged n me ts) w = Some False"
  shows "ws = []"
proof (rule ccontr)
  let ?c = "merged n me ts"
  assume "ws \<noteq> []"
  moreover have "asymp_on (set ws) (\<lambda>u w. vlt (vc_vector u) (vc_vector w))" by (auto intro!: asymp_onI dest: vlt_asym)
  moreover have "transp_on (set ws) (\<lambda>u w. vlt (vc_vector u) (vc_vector w))" by (auto intro!: transp_onI elim: vlt_trans)
  ultimately obtain x where x: "x \<in> set ws" "\<forall>y \<in> set ws. y \<noteq> x \<longrightarrow> \<not> vlt (vc_vector y) (vc_vector x)"
    using Finite_Set.bex_min_element[of "set ws" "\<lambda>u w. vlt (vc_vector u) (vc_vector w)"] by auto
  have xok: "clock_ok n x" "1 \<le> vc_seq x" using causal_historyD(1,2)[OF h] x(1) by auto
  have applied: "0 \<le> vc_vector ?c ! k" "vc_seq ` {t \<in> set ts. vc_id t = int k} = {1..vc_vector ?c ! k}" if "k < n" for k
    using in_turn_counts[OF turn _ that] causal_historyD(1)[OF h] by (auto simp: list_all_iff)
  have apart: "\<not> (vc_id w = vc_id t \<and> vc_seq w = vc_seq t)" if "w \<in> set ws" "t \<in> set ts" for w t
  proof -
    have "(vc_id w, vc_seq w) \<notin> (\<lambda>t. (vc_id t, vc_seq t)) ` set ts" using causal_historyD(3)[OF h] that(1) by auto
    then show ?thesis using that(2) by (auto simp: image_iff)
  qed
  have upto: "vc_vector x ! k \<le> vc_vector ?c ! k" if k: "k < n" "int k \<noteq> vc_id x \<or> vc_seq x \<noteq> vc_vector ?c ! k + 1" for k
  proof (rule ccontr)
    assume "\<not> ?thesis"
    then obtain y where y: "y \<in> set (ts @ ws)" "vc_id y = int k" "vc_seq y = vc_vector ?c ! k + 1" "y = x \<or> vlt (vc_vector y) (vc_vector x)"
      using causal_historyD(4)[OF h, of x k "vc_vector ?c ! k + 1"] x(1) applied(1)[OF k(1)] k(1) by auto
    have "y \<notin> set ts"
    proof
      assume "y \<in> set ts"
      then have "vc_seq y \<in> vc_seq ` {t \<in> set ts. vc_id t = int k}" using y(2) by blast
      then show False using applied(2)[OF k(1)] y(3) by simp
    qed
    moreover have "y \<noteq> x" using y(2,3) k(2) by auto
    ultimately show False using x(2) y by auto
  qed
  let ?i = "nat (vc_id x)"
  have i: "?i < n" "int ?i = vc_id x" using xok by (auto simp: clock_ok_def)
  have "vc_seq x = vc_vector ?c ! ?i + 1"
  proof (rule ccontr)
    assume "vc_seq x \<noteq> vc_vector ?c ! ?i + 1"
    then have "vc_seq x \<in> {1..vc_vector ?c ! ?i}" using upto[OF i(1)] xok(2) by (simp add: vc_seq_def)
    then have "vc_seq x \<in> vc_seq ` {t \<in> set ts. vc_id t = int ?i}" using applied(2)[OF i(1)] by simp
    then obtain t where "t \<in> set ts" "vc_id t = int ?i" "vc_seq x = vc_seq t" by blast
    then show False using apart[OF x(1), of t] i(2) by simp
  qed
  then have "vc_causally_ready ?c x = Some True"
    using upto xok vc_causally_ready_iff[of ?c x] by (auto simp: clock_ok_def vc_seq_def)
  then show False using stuck x(1) by auto
qed

section \<open>The contract\<close>

text \<open>\<open>inv xs s\<close> describes a state that has applied the operations \<open>xs\<close>, all taken from \<open>M\<close>.\<close>

locale causal_process =
  fixes clk :: "'c \<Rightarrow> vc" and cur :: "'s \<Rightarrow> vc" and run :: "'c \<Rightarrow> 's \<Rightarrow> 's option"
    and n :: nat and me :: int and M :: "'c multiset" and inv :: "'c list \<Rightarrow> 's \<Rightarrow> bool"
  assumes inv_cur: "inv xs s \<Longrightarrow> cur s = merged n me (map clk xs)"
    and inv_run: "inv xs s \<Longrightarrow> mset (xs @ [x]) \<subseteq># M \<Longrightarrow> list_all (clock_ok n) (map clk (xs @ [x])) \<Longrightarrow>
      in_turn (vc_new (int n) me) (map clk (xs @ [x])) \<Longrightarrow> \<exists>s'. run x s = Some s' \<and> inv (xs @ [x]) s'"
begin

text \<open>A state between two operations: nothing that waits is next.\<close>

definition settled :: "'c list \<Rightarrow> 'c list \<Rightarrow> 's \<Rightarrow> bool" where
  "settled xs ws s \<longleftrightarrow> inv xs s \<and> in_turn (vc_new (int n) me) (map clk xs) \<and>
     list_all (\<lambda>w. vc_causally_ready (cur s) (clk w) = Some False) ws"

definition receive :: "'c \<Rightarrow> 'c list \<times> 's \<Rightarrow> ('c list \<times> 's) option" where
  "receive x = (\<lambda>(ws, s). do {
     r \<leftarrow> vc_causally_ready (cur s) (clk x);
     if r then do {
       s \<leftarrow> run x s;
       notify_loop clk cur run ws s
     }
     else Some (ws @ [x], s)
   })"

lemma next_ready_total:
  assumes "vc_size c = n" "list_all (clock_ok n) (map clk ws)"
  shows "next_ready clk c ws \<noteq> None"
  using assms(2)
proof (induction ws)
  case (Cons w ws)
  obtain b where "vc_causally_ready c (clk w) = Some b" using ready_decided[of n "clk w" c] Cons.prems assms(1) by auto
  then show ?case using Cons by auto
qed simp

lemma next_ready_stuck:
  "next_ready clk c ws = Some None \<Longrightarrow> list_all (\<lambda>w. vc_causally_ready c (clk w) = Some False) ws"
  by (induction ws) (auto split: option.splits if_splits bind_splits)

text \<open>One operation that is next is applied.\<close>

lemma run_next:
  assumes "inv xs s" "in_turn (vc_new (int n) me) (map clk xs)" "vc_causally_ready (cur s) (clk x) = Some True"
    and "mset (xs @ [x]) \<subseteq># M" "list_all (clock_ok n) (map clk (xs @ [x]))"
  obtains s' where "run x s = Some s'" "inv (xs @ [x]) s'" "in_turn (vc_new (int n) me) (map clk (xs @ [x]))"
proof -
  have "in_turn (vc_new (int n) me) (map clk (xs @ [x]))"
    using assms(2,3) inv_cur[OF assms(1)] by (simp add: merged_def)
  then show ?thesis using inv_run[OF assms(1,4,5)] that by blast
qed

lemma notify_loop_settles:
  assumes "inv xs s" "in_turn (vc_new (int n) me) (map clk xs)" "mset (xs @ ws) \<subseteq># M"
    and "list_all (clock_ok n) (map clk (xs @ ws))"
  shows "\<exists>ys vs s'. notify_loop clk cur run ws s = Some (vs, s') \<and> settled (xs @ ys) vs s' \<and> mset (ys @ vs) = mset ws"
  using assms
proof (induction "length ws" arbitrary: ws xs s rule: less_induct)
  case less
  have "vc_size (cur s) = n" using inv_cur[OF less.prems(1)] by simp
  then obtain r where r: "next_ready clk (cur s) ws = Some r" using next_ready_total less.prems(4) by fastforce
  show ?case
  proof (cases r)
    case None
    then have "notify_loop clk cur run ws s = Some (ws, s)" "settled xs ws s"
      using r less.prems next_ready_stuck[of "cur s" ws] by (simp_all add: notify_loop.simps settled_def)
    then show ?thesis by (intro exI[of _ "[]", OF exI[of _ ws]]) auto
  next
    case (Some p)
    obtain x rest where p: "p = (x, rest)" by fastforce
    obtain pre post where split: "ws = pre @ x # post" "rest = pre @ post" "vc_causally_ready (cur s) (clk x) = Some True"
      using next_ready_split[of clk "cur s" ws x rest] r Some p by auto
    have sub: "mset ((xs @ [x]) @ rest) \<subseteq># M" "list_all (clock_ok n) (map clk ((xs @ [x]) @ rest))"
      using less.prems(3,4) split(1,2) by auto
    have "mset (xs @ [x]) \<subseteq># M" "list_all (clock_ok n) (map clk (xs @ [x]))"
      using sub subset_mset.order_trans[OF _ sub(1), of "mset (xs @ [x])"] by auto
    then obtain s' where s': "run x s = Some s'" "inv (xs @ [x]) s'" "in_turn (vc_new (int n) me) (map clk (xs @ [x]))"
      using run_next[OF less.prems(1,2) split(3)] by blast
    have "length rest < length ws" using split by simp
    from less.hyps[OF this s'(2,3) sub]
    obtain ys vs s'' where "notify_loop clk cur run rest s' = Some (vs, s'')" "settled ((xs @ [x]) @ ys) vs s''"
      "mset (ys @ vs) = mset rest" by blast
    moreover have "notify_loop clk cur run ws s = notify_loop clk cur run rest s'"
      using r Some p s'(1) by (subst notify_loop.simps) simp
    ultimately show ?thesis using split(1,2) by (intro exI[of _ "x # ys", OF exI[of _ vs]]) auto
  qed
qed

lemma receive_settles:
  assumes "settled xs ws s" "mset (xs @ ws @ [x]) \<subseteq># M" "list_all (clock_ok n) (map clk (xs @ ws @ [x]))"
  shows "\<exists>ys vs s'. receive x (ws, s) = Some (vs, s') \<and> settled (xs @ ys) vs s' \<and> mset (ys @ vs) = mset (ws @ [x])"
proof -
  have s: "inv xs s" "in_turn (vc_new (int n) me) (map clk xs)"
    "list_all (\<lambda>w. vc_causally_ready (cur s) (clk w) = Some False) ws"
    using assms(1) by (simp_all add: settled_def)
  have "vc_size (cur s) = n" using inv_cur[OF s(1)] by simp
  then obtain b where b: "vc_causally_ready (cur s) (clk x) = Some b"
    using ready_decided[of n "clk x" "cur s"] assms(3) by auto
  show ?thesis
  proof (cases b)
    case True
    have sub: "mset ((xs @ [x]) @ ws) \<subseteq># M" "list_all (clock_ok n) (map clk ((xs @ [x]) @ ws))"
      using assms(2,3) by auto
    have "mset (xs @ [x]) \<subseteq># M" "list_all (clock_ok n) (map clk (xs @ [x]))"
      using sub subset_mset.order_trans[OF _ sub(1), of "mset (xs @ [x])"] by auto
    then obtain s' where s': "run x s = Some s'" "inv (xs @ [x]) s'" "in_turn (vc_new (int n) me) (map clk (xs @ [x]))"
      using run_next[OF s(1,2), of x] b True by auto
    obtain ys vs s'' where "notify_loop clk cur run ws s' = Some (vs, s'')" "settled ((xs @ [x]) @ ys) vs s''"
      "mset (ys @ vs) = mset ws"
      using notify_loop_settles[OF s'(2,3) sub] by blast
    then show ?thesis using b True s'(1) by (intro exI[of _ "x # ys", OF exI[of _ vs]]) (auto simp: receive_def)
  next
    case False
    then show ?thesis using b s assms(1) by (intro exI[of _ "[]", OF exI[of _ "ws @ [x]"]]) (auto simp: receive_def settled_def)
  qed
qed

text \<open>Once the whole of a causal history has arrived, it has been applied.\<close>

lemma settled_complete:
  assumes "settled xs ws s" "mset (xs @ ws) = mset hs" "causal_history n (map clk hs)"
  shows "ws = [] \<and> mset xs = mset hs"
proof -
  have "mset (map clk (xs @ ws)) = mset (map clk hs)" using assms(2) by (metis mset_map)
  then have "causal_history n (map clk xs @ map clk ws)" using assms(3) causal_history_perm by fastforce
  moreover have "\<forall>w \<in> set (map clk ws). vc_causally_ready (merged n me (map clk xs)) w = Some False"
    using assms(1) inv_cur[of xs s] by (auto simp: settled_def list_all_iff)
  ultimately have "map clk ws = []" using nothing_waits assms(1) unfolding settled_def by blast
  then show ?thesis using assms(2) by simp
qed

end

end
