(* ===== verification/AddSetsView.thy ===== *)
theory AddSetsView
  imports AddSets CausalDelivery
begin

text \<open>
  The add and remove sets of \<open>AddSets\<close> under causal delivery. After operations applied in turn,
  the sets are a function of the operations: the adds that no later add or removal covers, the
  removals that no later add covers, and as value the remaining add of the largest replica.
  The locale \<open>add_sets\<close> has what the two types that use the sets choose: the entry an add creates
  and the change an update makes to an entry.
\<close>

section \<open>The loops\<close>

lemma aset_sweep_eq:
  assumes "distinct (map fst as)"
  shows "aset_sweep clk t v as =
    (list_ex (\<lambda>p. vc_cmp (clk (snd p)) t = VC_LESS) as,
     if list_ex (\<lambda>p. v = Some (fst p) \<and> vc_cmp (clk (snd p)) t = VC_LESS) as then None else v,
     filter (\<lambda>p. vc_cmp (clk (snd p)) t \<noteq> VC_LESS) as)"
  using assms
proof (induction as arbitrary: v)
  case (Cons p as)
  obtain a x where p: "p = (a, x)" by fastforce
  have "\<not> list_ex (\<lambda>q. Some a = Some (fst q) \<and> vc_cmp (clk (snd q)) t = VC_LESS) as"
    using Cons.prems p by (auto simp: list_ex_iff image_iff)
  then show ?case using Cons p by (auto simp: list_ex_iff)
qed simp

lemma rset_sweep_eq: "rset_sweep t rs = filter (\<lambda>r. vc_cmp r t \<noteq> VC_LESS) rs"
  by (induction rs) auto

text \<open>The pointer is at the entry of the largest replica, and null when there is none.\<close>

definition top_value :: "('a \<Rightarrow> vc) \<Rightarrow> (addr \<times> 'a) list \<Rightarrow> addr option \<Rightarrow> bool" where
  "top_value clk as v \<longleftrightarrow> (case v of
       None \<Rightarrow> as = []
     | Some a \<Rightarrow> (case map_of as a of
         None \<Rightarrow> False
       | Some x \<Rightarrow> list_all (\<lambda>p. vc_id (clk (snd p)) \<le> vc_id (clk x)) as))"

lemma top_value_Some: "top_value clk as (Some a) \<longleftrightarrow>
  (\<exists>x. map_of as a = Some x \<and> (\<forall>p \<in> set as. vc_id (clk (snd p)) \<le> vc_id (clk x)))"
  by (auto simp: top_value_def list_all_iff split: option.splits)

lemma top_value_None: "top_value clk as None \<longleftrightarrow> as = []"
  by (simp add: top_value_def)

lemma pick_value_top:
  assumes "distinct (map fst (pre @ as))" "top_value clk pre v"
  shows "\<exists>v'. pick_value clk (pre @ as) v as = Some v' \<and> top_value clk (pre @ as) v'"
  using assms
proof (induction as arbitrary: pre v)
  case (Cons p as)
  obtain a x where p: "p = (a, x)" by fastforce
  have new: "map_of pre a = None" using Cons.prems(1) p by (auto simp: map_of_eq_None_iff)
  obtain b where b: "value_before clk (pre @ p # as) v (clk x) = Some b"
    "top_value clk (pre @ [p]) (if b then Some a else v)"
  proof (cases v)
    case None
    then show ?thesis
      using that[of True] Cons.prems(2) p by (simp add: value_before_def top_value_Some top_value_None)
  next
    case (Some c)
    then obtain w where w: "map_of pre c = Some w" "\<forall>q \<in> set pre. vc_id (clk (snd q)) \<le> vc_id (clk w)"
      using Cons.prems(2) by (auto simp: top_value_Some)
    have at: "map_of (pre @ q # qs) c = Some w" "map_of (pre @ [p]) a = Some x" for q qs
      using w(1) new p by (simp_all add: map_add_def)
    show ?thesis
    proof (rule that[of "vc_id (clk w) < vc_id (clk x)"])
      show "value_before clk (pre @ p # as) v (clk x) = Some (vc_id (clk w) < vc_id (clk x))"
        using Some at(1) by (simp add: value_before_def)
      show "top_value clk (pre @ [p]) (if vc_id (clk w) < vc_id (clk x) then Some a else v)"
      proof (cases "vc_id (clk w) < vc_id (clk x)")
        case True
        then show ?thesis using w(2) at(2) p by (force simp: top_value_Some)
      next
        case False
        then show ?thesis using w(2) at(1)[of p "[]"] p Some by (auto simp: top_value_Some)
      qed
    qed
  qed
  have "distinct (map fst ((pre @ [p]) @ as))" using Cons.prems(1) by simp
  from Cons.IH[OF this b(2)] show ?case using b(1) p by simp
qed auto

section \<open>Operations in turn\<close>

text \<open>A clock that is newer than, or concurrent to, those applied before it.\<close>

definition newest :: "vc \<Rightarrow> vc list \<Rightarrow> bool" where
  "newest t us \<longleftrightarrow> (\<forall>u \<in> set us. (vc_cmp u t = VC_LESS \<longleftrightarrow> vlt (vc_vector u) (vc_vector t)) \<and>
     \<not> vle (vc_vector t) (vc_vector u) \<and> (vc_id u = vc_id t \<longrightarrow> vlt (vc_vector u) (vc_vector t)))"

lemma merged_upper:
  assumes "list_all (clock_ok n) ts" "u \<in> set ts"
  shows "vle (vc_vector u) (vc_vector (merged n me ts))"
  using assms
proof (induction ts rule: rev_induct)
  case (snoc t ts)
  have t: "clock_ok n t" using snoc.prems by simp
  have "vc_vector (merged n me (ts @ [t])) = vjoin (vc_vector (merged n me ts)) (vc_vector t)"
    using t by (simp add: vc_update_join clock_ok_def)
  then show ?case
    using snoc t vjoin_upper[of "vc_vector (merged n me ts)" "vc_vector t"] vle_trans by (auto simp: clock_ok_def)
qed simp

lemma in_turn_newest:
  assumes h: "causal_history n hs" and sub: "set (ts @ [t]) \<subseteq> set hs" and turn: "in_turn (vc_new (int n) me) (ts @ [t])"
  shows "newest t ts"
  unfolding newest_def
proof (rule ballI)
  fix u
  assume u: "u \<in> set ts"
  have ok: "list_all (clock_ok n) ts" "clock_ok n t" using causal_historyD(1)[OF h] sub by (auto simp: list_all_iff)
  have i: "nat (vc_id t) < n" using ok(2) by (auto simp: clock_ok_def)
  have "vc_causally_ready (merged n me ts) t = Some True" using turn by (simp add: merged_def)
  then have "vc_seq t = vc_vector (merged n me ts) ! nat (vc_id t) + 1" using ready_seq(1)[OF ok(2)] by simp
  moreover have "vc_vector u ! nat (vc_id t) \<le> vc_vector (merged n me ts) ! nat (vc_id t)"
    using merged_upper[OF ok(1) u, of me] i by (simp add: vle_nth)
  ultimately have late: "\<not> vle (vc_vector t) (vc_vector u)" using i ok(2) by (fastforce simp: vle_nth vc_seq_def clock_ok_def)
  have "u \<in> set hs" "t \<in> set hs" using u sub by auto
  note cmp = causal_history_comparable[OF h this]
  show "(vc_cmp u t = VC_LESS \<longleftrightarrow> vlt (vc_vector u) (vc_vector t)) \<and> \<not> vle (vc_vector t) (vc_vector u) \<and>
      (vc_id u = vc_id t \<longrightarrow> vlt (vc_vector u) (vc_vector t))"
  proof (intro conjI impI)
    show "vc_cmp u t = VC_LESS \<longleftrightarrow> vlt (vc_vector u) (vc_vector t)" by (rule vc_cmp_less_iff[OF cmp])
    assume "vc_id u = vc_id t"
    then have "vle (vc_vector u) (vc_vector t)" using cmp(2) late by simp
    moreover have "vc_vector u \<noteq> vc_vector t" using late vle_refl[of "vc_vector u"] by metis
    ultimately show "vlt (vc_vector u) (vc_vector t)" by (simp add: vlt_def)
  qed (rule late)
qed

datatype set_kind = SAdd | SUpd | SRem

locale add_sets =
  fixes clk :: "'a \<Rightarrow> vc" and okind :: "'c \<Rightarrow> set_kind" and oclk :: "'c \<Rightarrow> vc"
    and new :: "'c \<Rightarrow> 'a" and upd :: "'c \<Rightarrow> 'a \<Rightarrow> 'a"
  assumes clk_new [simp]: "clk (new c) = oclk c" and clk_upd [simp]: "clk (upd c x) = clk x"
begin

definition sets_step :: "'c \<Rightarrow> 'a addsets \<Rightarrow> 'a addsets option" where
  "sets_step c S = (case okind c of
       SAdd \<Rightarrow> insert_sets clk (new c) (oclk c) S
     | SUpd \<Rightarrow> Some (update_sets clk (oclk c) (upd c) S)
     | SRem \<Rightarrow> remove_sets clk (oclk c) S)"

definition before :: "'c \<Rightarrow> 'c \<Rightarrow> bool" where
  "before c d \<longleftrightarrow> vlt (vc_vector (oclk c)) (vc_vector (oclk d))"

text \<open>The adds and removals that count, and the entry of an add.\<close>

definition live :: "'c list \<Rightarrow> 'c list" where
  "live hs = filter (\<lambda>c. okind c = SAdd \<and> \<not> list_ex (\<lambda>d. okind d \<noteq> SUpd \<and> before c d) hs) hs"

definition rems :: "'c list \<Rightarrow> 'c list" where
  "rems hs = filter (\<lambda>c. okind c = SRem \<and> \<not> list_ex (\<lambda>d. okind d = SAdd \<and> before c d) hs) hs"

definition ent :: "'c list \<Rightarrow> 'c \<Rightarrow> 'a" where
  "ent hs c = foldl (\<lambda>x d. if okind d = SUpd \<and> before c d then upd d x else x) (new c) hs"

definition shape :: "'c list \<Rightarrow> 'a addsets \<Rightarrow> bool" where
  "shape hs S \<longleftrightarrow> distinct (map fst (as_aset S)) \<and> list_all (\<lambda>p. fst p < as_fresh S) (as_aset S) \<and>
     map snd (as_aset S) = map (ent hs) (live hs) \<and> as_rset S = map oclk (rems hs) \<and> top_value clk (as_aset S) (as_value S)"

lemma clk_ent [simp]: "clk (ent hs c) = oclk c"
proof -
  have "clk (foldl (\<lambda>x d. if okind d = SUpd \<and> before c d then upd d x else x) x hs) = clk x" for x
    by (induction hs arbitrary: x) auto
  then show ?thesis by (simp add: ent_def)
qed

lemma newest_before:
  assumes "newest (oclk c) (map oclk hs)" "d \<in> set hs"
  shows "vc_cmp (oclk d) (oclk c) = VC_LESS \<longleftrightarrow> before d c" and "\<not> before c d"
  using assms by (auto simp: newest_def before_def vlt_def)

lemma not_before_self [simp]: "\<not> before c c"
  by (simp add: before_def vlt_def)

lemma live_snoc:
  assumes "newest (oclk c) (map oclk hs)"
  shows "live (hs @ [c]) =
    filter (\<lambda>d. okind c = SUpd \<or> \<not> before d c) (live hs) @ (if okind c = SAdd then [c] else [])"
proof -
  have "\<not> list_ex (\<lambda>d. okind d \<noteq> SUpd \<and> before c d) (hs @ [c])"
    using newest_before(2)[OF assms] by (auto simp: list_ex_iff)
  then show ?thesis unfolding live_def filter_append filter_filter
    by (intro arg_cong2[where f = append] filter_cong) auto
qed

lemma rems_snoc:
  assumes "newest (oclk c) (map oclk hs)"
  shows "rems (hs @ [c]) =
    filter (\<lambda>d. okind c \<noteq> SAdd \<or> \<not> before d c) (rems hs) @ (if okind c = SRem then [c] else [])"
proof -
  have "\<not> list_ex (\<lambda>d. okind d = SAdd \<and> before c d) (hs @ [c])"
    using newest_before(2)[OF assms] by (auto simp: list_ex_iff)
  then show ?thesis unfolding rems_def filter_append filter_filter
    by (intro arg_cong2[where f = append] filter_cong) auto
qed

lemma ent_snoc: "ent (hs @ [c]) d = (if okind c = SUpd \<and> before d c then upd c (ent hs d) else ent hs d)"
  by (simp add: ent_def)

lemma ent_new:
  assumes "newest (oclk c) (map oclk hs)"
  shows "ent hs c = new c"
proof -
  have "\<forall>d \<in> set hs. \<not> before c d" using newest_before(2)[OF assms] by blast
  moreover have "\<forall>d \<in> set hs. \<not> before c d \<Longrightarrow>
      foldl (\<lambda>x d. if okind d = SUpd \<and> before c d then upd d x else x) x hs = x" for x
    by (induction hs arbitrary: x) auto
  ultimately show ?thesis by (simp add: ent_def)
qed

lemma live_sub: "c \<in> set (live hs) \<Longrightarrow> c \<in> set hs"
  by (simp add: live_def)

lemma filter_entries:
  assumes "map snd as = map (ent hs) (live hs)" "newest (oclk c) (map oclk hs)"
  shows "map snd (filter (\<lambda>p. vc_cmp (clk (snd p)) (oclk c) \<noteq> VC_LESS) as) = map (ent hs) (filter (\<lambda>d. \<not> before d c) (live hs))"
proof -
  have "map snd (filter (\<lambda>p. vc_cmp (clk (snd p)) (oclk c) \<noteq> VC_LESS) as) =
      filter (\<lambda>x. vc_cmp (clk x) (oclk c) \<noteq> VC_LESS) (map snd as)"
    by (simp add: filter_map comp_def)
  also have "\<dots> = map (ent hs) (filter (\<lambda>d. vc_cmp (oclk d) (oclk c) \<noteq> VC_LESS) (live hs))"
    unfolding assms(1) by (simp add: filter_map comp_def)
  also have "filter (\<lambda>d. vc_cmp (oclk d) (oclk c) \<noteq> VC_LESS) (live hs) = filter (\<lambda>d. \<not> before d c) (live hs)"
    using newest_before(1)[OF assms(2)] live_sub by (intro filter_cong) auto
  finally show ?thesis .
qed

lemma filter_rems:
  assumes "newest (oclk c) (map oclk hs)"
  shows "filter (\<lambda>r. vc_cmp r (oclk c) \<noteq> VC_LESS) (map oclk (rems hs)) = map oclk (filter (\<lambda>d. \<not> before d c) (rems hs))"
  unfolding filter_map comp_def
  using newest_before(1)[OF assms] by (intro arg_cong[where f = "map oclk"] filter_cong) (auto simp: rems_def)

lemma distinct_filter_fst: "distinct (map fst as) \<Longrightarrow> distinct (map fst (filter P as))"
  by (rule distinct_map_filter)

text \<open>What is left of the pointer after a sweep points to the largest entry that is left, or is null.\<close>

lemma top_value_filter:
  assumes "distinct (map fst as)" "top_value clk as (Some a)" "\<forall>x. map_of as a = Some x \<longrightarrow> P (a, x)"
  shows "top_value clk (filter P as) (Some a)"
proof -
  obtain x where x: "map_of as a = Some x" "\<forall>p \<in> set as. vc_id (clk (snd p)) \<le> vc_id (clk x)"
    using assms(2) by (auto simp: top_value_Some)
  have "(a, x) \<in> set (filter P as)" using x(1) assms(3) by (auto dest: map_of_SomeD)
  then have "map_of (filter P as) a = Some x" using assms(1) by (intro map_of_is_SomeI distinct_map_filter)
  then show ?thesis using x(2) by (auto simp: top_value_Some)
qed

lemma step_upd:
  assumes S: "shape hs S" and c: "okind c = SUpd" "newest (oclk c) (map oclk hs)"
  shows "\<exists>S'. sets_step c S = Some S' \<and> shape (hs @ [c]) S'"
proof -
  let ?f = "\<lambda>(a, x). if vc_cmp (clk x) (oclk c) = VC_LESS then (a, upd c x) else (a, x)"
  let ?as = "map ?f (as_aset S)"
  have fst: "map fst ?as = map fst (as_aset S)" by (auto simp: comp_def split: prod.splits intro!: map_cong)
  have d: "distinct (map fst ?as)" unfolding fst using S by (simp add: shape_def)
  have "map snd ?as = map (\<lambda>x. if vc_cmp (clk x) (oclk c) = VC_LESS then upd c x else x) (map snd (as_aset S))"
    by (auto split: prod.splits)
  also have "\<dots> = map (ent (hs @ [c])) (live hs)"
    using S c newest_before(1)[OF c(2) live_sub] by (auto simp: shape_def ent_snoc)
  finally have snd: "map snd ?as = map (ent (hs @ [c])) (live (hs @ [c]))" using c by (simp add: live_snoc)
  have "top_value clk ?as (as_value S)"
  proof (cases "as_value S")
    case None
    then show ?thesis using S by (simp add: shape_def top_value_None)
  next
    case (Some a)
    then obtain x where x: "map_of (as_aset S) a = Some x" "\<forall>p \<in> set (as_aset S). vc_id (clk (snd p)) \<le> vc_id (clk x)"
      using S by (auto simp: shape_def top_value_Some)
    have "(a, snd (?f (a, x))) \<in> set ?as" using x(1) by (auto dest!: map_of_SomeD split: if_splits intro: rev_image_eqI)
    with d have "map_of ?as a = Some (snd (?f (a, x)))" by (rule map_of_is_SomeI)
    then show ?thesis using x(2) Some by (auto simp: top_value_Some)
  qed
  moreover have "list_all (\<lambda>p. fst p < as_fresh S) ?as" using S by (auto simp: shape_def list_all_iff)
  ultimately have "shape (hs @ [c]) (S\<lparr>as_aset := ?as\<rparr>)"
    using S c d snd by (simp add: shape_def rems_snoc del: map_map)
  then show ?thesis using c by (simp add: sets_step_def update_sets_def)
qed

lemma sweep_top:
  assumes "distinct (map fst as)" "top_value clk as v" "aset_sweep clk t v as = (r, v', as')"
  shows "as' = filter (\<lambda>p. vc_cmp (clk (snd p)) t \<noteq> VC_LESS) as" "v' \<noteq> None \<Longrightarrow> top_value clk as' v'"
    and "v' = None \<Longrightarrow> \<not> r \<Longrightarrow> as = []"
proof -
  note eq = assms(3)[unfolded aset_sweep_eq[OF assms(1)]]
  show as': "as' = filter (\<lambda>p. vc_cmp (clk (snd p)) t \<noteq> VC_LESS) as" using eq by simp
  show "top_value clk as' v'" if "v' \<noteq> None"
  proof -
    obtain a where a: "v' = Some a" using \<open>v' \<noteq> None\<close> by auto
    then have "v = Some a" "\<forall>x. map_of as a = Some x \<longrightarrow> vc_cmp (clk x) t \<noteq> VC_LESS"
      using eq by (auto simp: list_ex_iff dest!: map_of_SomeD split: if_splits)
    then show ?thesis using top_value_filter[OF assms(1), of a "\<lambda>p. vc_cmp (clk (snd p)) t \<noteq> VC_LESS"] assms(2) a as' by simp
  qed
  show "as = []" if "v' = None" "\<not> r"
    using that eq assms(2) by (auto simp: list_ex_iff top_value_None split: if_splits)
qed

lemma step_rem:
  assumes S: "shape hs S" and c: "okind c = SRem" "newest (oclk c) (map oclk hs)"
  shows "\<exists>S'. sets_step c S = Some S' \<and> shape (hs @ [c]) S'"
proof -
  obtain r v as where sw: "aset_sweep clk (oclk c) (as_value S) (as_aset S) = (r, v, as)" by (metis prod_cases3)
  have d: "distinct (map fst (as_aset S))" "top_value clk (as_aset S) (as_value S)" using S by (simp_all add: shape_def)
  note top = sweep_top[OF d sw]
  have d': "distinct (map fst as)" using top(1) d(1) distinct_map_filter by auto
  obtain v' where v': "(if v = None then pick_value clk as v as else Some v) = Some v'" "top_value clk as v'"
    using top(2) pick_value_top[of "[]" as clk None] d' by (cases v) (auto simp: top_value_None)
  have "map snd as = map (ent (hs @ [c])) (live (hs @ [c]))"
    using filter_entries[of "as_aset S" hs c] S c top(1) by (simp add: shape_def live_snoc ent_snoc)
  then have "shape (hs @ [c]) (S\<lparr>as_value := v', as_aset := as, as_rset := as_rset S @ [oclk c]\<rparr>)"
    using S c v'(2) d' top(1) by (auto simp: shape_def rems_snoc list_all_iff)
  then show ?thesis using c sw v'(1) by (simp add: sets_step_def remove_sets_def clock_simps)
qed

text \<open>The end of an insertion: the pointer after the sweep, compared with the new entry.\<close>

lemma insert_pointer:
  assumes d: "distinct (map fst (as @ [(a, x)]))" and v: "v \<noteq> None \<Longrightarrow> top_value clk as v"
    and e: "v = None \<Longrightarrow> \<not> r \<Longrightarrow> as = []"
  shows "\<exists>v1 b. (if r \<and> v = None then pick_value clk (as @ [(a, x)]) v (as @ [(a, x)]) else Some v) = Some v1 \<and>
    value_before clk (as @ [(a, x)]) v1 (clk x) = Some b \<and> top_value clk (as @ [(a, x)]) (if b then Some a else v1)"
proof (cases v)
  case (Some w)
  then obtain v2 where v2: "pick_value clk (as @ [(a, x)]) v [(a, x)] = Some v2" "top_value clk (as @ [(a, x)]) v2"
    using pick_value_top[OF d v] by auto
  then obtain b where "value_before clk (as @ [(a, x)]) v (clk x) = Some b" "v2 = (if b then Some a else v)"
    by (cases "value_before clk (as @ [(a, x)]) v (clk x)") auto
  then show ?thesis using Some v2 by auto
next
  case None
  show ?thesis
  proof (cases r)
    case True
    obtain v1 where v1: "pick_value clk (as @ [(a, x)]) None (as @ [(a, x)]) = Some v1" "top_value clk (as @ [(a, x)]) v1"
      using pick_value_top[of "[]" "as @ [(a, x)]" clk None] d by (auto simp: top_value_None)
    have "value_before clk (as @ [(a, x)]) v1 (clk x) = Some False"
    proof (cases v1)
      case None
      then show ?thesis using v1(2) by (simp add: top_value_None)
    next
      case (Some b)
      then obtain y where "map_of (as @ [(a, x)]) b = Some y" "vc_id (clk x) \<le> vc_id (clk y)"
        using v1(2) by (auto simp: top_value_Some simp del: map_of_append)
      then show ?thesis using Some by (simp add: value_before_def del: map_of_append)
    qed
    then show ?thesis using v1 None True by auto
  next
    case False
    then show ?thesis using None e by (auto simp: value_before_def top_value_Some)
  qed
qed

lemma step_add:
  assumes S: "shape hs S" and c: "okind c = SAdd" "newest (oclk c) (map oclk hs)"
  shows "\<exists>S'. sets_step c S = Some S' \<and> shape (hs @ [c]) S'"
proof -
  let ?a = "as_fresh S" and ?x = "new c" and ?P = "\<lambda>p. vc_cmp (clk (snd p)) (oclk c) \<noteq> VC_LESS"
  let ?as = "filter ?P (as_aset S)"
  obtain r v as where sw: "aset_sweep clk (oclk c) (as_value S) (as_aset S) = (r, v, as)" by (metis prod_cases3)
  have d: "distinct (map fst (as_aset S))" "top_value clk (as_aset S) (as_value S)" using S by (simp_all add: shape_def)
  note top = sweep_top[OF d sw]
  have fresh: "?a \<notin> fst ` set (as_aset S)" using S by (auto simp: shape_def list_all_iff)
  then have da: "distinct (map fst (as_aset S @ [(?a, ?x)]))" using d(1) by simp
  have sw': "aset_sweep clk (oclk c) (as_value S) (as_aset S @ [(?a, ?x)]) = (r, v, as @ [(?a, ?x)])"
    using sw unfolding aset_sweep_eq[OF da] aset_sweep_eq[OF d(1)] by simp
  have d': "distinct (map fst (as @ [(?a, ?x)]))"
    using da top(1) distinct_map_filter[of fst "as_aset S" ?P] by auto
  have "v = None \<Longrightarrow> \<not> r \<Longrightarrow> as = []" using top(1,3) by simp
  then obtain v1 b where "(if r \<and> v = None then pick_value clk (as @ [(?a, ?x)]) v (as @ [(?a, ?x)]) else Some v) = Some v1"
    "value_before clk (as @ [(?a, ?x)]) v1 (oclk c) = Some b" "top_value clk (as @ [(?a, ?x)]) (if b then Some ?a else v1)"
    using insert_pointer[OF d' top(2), of r] by auto
  then obtain v' where v': "insert_sets clk ?x (oclk c) S =
      Some \<lparr>as_value = v', as_aset = as @ [(?a, ?x)], as_rset = rset_sweep (oclk c) (as_rset S), as_fresh = Suc ?a\<rparr>"
    "top_value clk (as @ [(?a, ?x)]) v'"
    using sw' by (simp add: insert_sets_def Let_def)
  have "map snd (as @ [(?a, ?x)]) = map (ent (hs @ [c])) (live (hs @ [c]))"
    using filter_entries[of "as_aset S" hs c] S c top(1) ent_new[OF c(2)] by (simp add: shape_def live_snoc ent_snoc)
  moreover have "rset_sweep (oclk c) (as_rset S) = map oclk (rems (hs @ [c]))"
    using S c filter_rems[OF c(2)] by (simp add: shape_def rset_sweep_eq rems_snoc)
  ultimately show ?thesis
    using S c v' d' top(1) by (auto simp: shape_def sets_step_def list_all_iff less_Suc_eq)
qed

lemma step_shape:
  assumes "shape hs S" "newest (oclk c) (map oclk hs)"
  shows "\<exists>S'. sets_step c S = Some S' \<and> shape (hs @ [c]) S'"
  using step_add[OF assms(1) _ assms(2)] step_upd[OF assms(1) _ assms(2)] step_rem[OF assms(1) _ assms(2)]
  by (cases "okind c") auto

lemma shape_empty: "shape [] as_empty"
  by (simp add: shape_def as_empty_def live_def rems_def top_value_None)

section \<open>What a reader sees\<close>

text \<open>The add whose entry is the value.\<close>

definition winner :: "'c list \<Rightarrow> 'c \<Rightarrow> bool" where
  "winner hs c \<longleftrightarrow> c \<in> set (live hs) \<and> (\<forall>d \<in> set (live hs). vc_id (oclk d) \<le> vc_id (oclk c))"

lemma shape_LOOKUP: "shape hs S \<Longrightarrow> as_LOOKUP S \<longleftrightarrow> live hs \<noteq> [] \<and> rems hs = []"
  by (auto simp: shape_def as_LOOKUP_def dest: arg_cong[where f = length])

lemma shape_value:
  assumes "shape hs S" "live hs \<noteq> []"
  shows "\<exists>c. winner hs c \<and> value_of S = Some (ent hs c)"
proof -
  have S: "map snd (as_aset S) = map (ent hs) (live hs)" "top_value clk (as_aset S) (as_value S)"
    using assms(1) by (simp_all add: shape_def)
  have "as_aset S \<noteq> []" using S(1) assms(2) by auto
  then obtain a x where x: "as_value S = Some a" "map_of (as_aset S) a = Some x"
    "\<forall>p \<in> set (as_aset S). vc_id (clk (snd p)) \<le> vc_id (clk x)"
    using S(2) by (cases "as_value S") (auto simp: top_value_Some top_value_None)
  have "x \<in> set (map snd (as_aset S))" using x(2) by (auto dest: map_of_SomeD intro: rev_image_eqI)
  then obtain c where c: "c \<in> set (live hs)" "x = ent hs c" using S(1) by auto
  have "vc_id (oclk d) \<le> vc_id (oclk c)" if "d \<in> set (live hs)" for d
  proof -
    have "ent hs d \<in> set (map snd (as_aset S))" using that S(1) by simp
    then obtain p where "p \<in> set (as_aset S)" "snd p = ent hs d" by auto
    then show ?thesis using x(3) c(2) by fastforce
  qed
  then show ?thesis using c x by (auto simp: winner_def value_of_def)
qed

text \<open>Entries of one replica cover each other, so the winner is unique.\<close>

lemma winner_unique:
  assumes "\<forall>c \<in> set hs. \<forall>d \<in> set hs. vc_id (oclk c) = vc_id (oclk d) \<longrightarrow> c = d \<or> before c d \<or> before d c"
    and "winner hs c" "winner hs d"
  shows "c = d"
proof -
  have "vc_id (oclk c) = vc_id (oclk d)" using assms(2,3) by (fastforce simp: winner_def)
  moreover have "c \<in> set hs" "d \<in> set hs" "\<not> before c d" "\<not> before d c"
    using assms(2,3) by (auto simp: winner_def live_def list_ex_iff)
  ultimately show ?thesis using assms(1) by blast
qed

lemma view_perm:
  assumes "mset hs = mset hs'"
  shows "set (live hs) = set (live hs')" "set (rems hs) = set (rems hs')" "winner hs = winner hs'"
proof -
  have "set hs = set hs'" using assms by (rule mset_eq_setD)
  then show "set (live hs) = set (live hs')" "set (rems hs) = set (rems hs')"
    by (auto simp: live_def rems_def list_ex_iff)
  then show "winner hs = winner hs'" by (simp add: winner_def fun_eq_iff)
qed

text \<open>The updates an entry has seen.\<close>

definition seen :: "'c list \<Rightarrow> 'c \<Rightarrow> 'c list" where
  "seen hs c = filter (\<lambda>d. okind d = SUpd \<and> before c d) hs"

lemma ent_seen: "ent hs c = foldl (\<lambda>x d. upd d x) (new c) (seen hs c)"
proof -
  have "foldl (\<lambda>x d. if okind d = SUpd \<and> before c d then upd d x else x) x hs =
      foldl (\<lambda>x d. upd d x) x (seen hs c)" for x
    by (induction hs arbitrary: x) (auto simp: seen_def)
  then show ?thesis by (simp add: ent_def)
qed

lemma seen_perm: "mset hs = mset hs' \<Longrightarrow> mset (seen hs c) = mset (seen hs' c)"
  by (simp add: seen_def)

end

text \<open>In a causal history every operation is newest when its turn comes, and operations of one
  replica are ordered.\<close>

lemma history_same_replica:
  assumes h: "causal_history n (map oclk hs)" and "c \<in> set hs" "d \<in> set hs" "vc_id (oclk c) = vc_id (oclk d)"
  shows "c = d \<or> vlt (vc_vector (oclk c)) (vc_vector (oclk d)) \<or> vlt (vc_vector (oclk d)) (vc_vector (oclk c))"
proof (cases "vc_seq (oclk c) = vc_seq (oclk d)")
  case True
  have "inj_on (\<lambda>c. (vc_id (oclk c), vc_seq (oclk c))) (set hs)"
    using causal_historyD(3)[OF h] by (simp add: distinct_map comp_def)
  then show ?thesis using True assms(2-4) by (auto dest: inj_onD)
next
  case False
  have mem: "oclk c \<in> set (map oclk hs)" "oclk d \<in> set (map oclk hs)" using assms(2,3) by auto
  have "vc_vector (oclk c) \<noteq> vc_vector (oclk d)" using False assms(4) by (auto simp: vc_seq_def)
  then show ?thesis
    using causal_history_same_id[OF h mem] causal_history_same_id[OF h mem(2,1)] assms(4)
      linear[of "vc_seq (oclk c)" "vc_seq (oclk d)"]
    by (auto simp: vlt_def)
qed

end
