(* ===== verification/RzQueue.thy ===== *)
theory RzQueue
  imports RZset AddSetsView
begin

text \<open>
  The correctness of the priority queue with causal delivery. The commands of \<open>t_rzset.c\<close> meet the
  contracts of \<open>AddSetsView\<close> (\<open>add_sets\<close>), \<open>CausalDelivery\<close> (\<open>causal_process\<close>) and \<open>Tables\<close> (\<open>queue\<close>), so a
  replica applies every operation in its turn, keeps its sorted set in step with its
  elements, and ends in a state that the set of operations determines.
\<close>

section \<open>Elements\<close>

fun rz_kind :: "rz_cmd \<Rightarrow> set_kind" where
  "rz_kind c = (case rzc_type c of RZADD \<Rightarrow> SAdd | RZINCBY \<Rightarrow> SUpd | RZREM \<Rightarrow> SRem)"

definition rz_entry :: "rz_cmd \<Rightarrow> rz_ase" where
  "rz_entry c = \<lparr>rza_t = vc_dup (rzc_t c), rza_x = rzc_value c, rza_inc = dzero\<rparr>"

definition rz_inc :: "rz_cmd \<Rightarrow> rz_ase \<Rightarrow> rz_ase" where
  "rz_inc c w = w\<lparr>rza_inc := dadd (rza_inc w) (rzc_value c)\<rparr>"

interpretation rzs: add_sets rza_t rz_kind rzc_t rz_entry rz_inc
  by unfold_locales (simp_all add: rz_entry_def rz_inc_def vc_dup_def)

definition rz_score :: "rze \<Rightarrow> dbl" where
  "rz_score e = (case rz_SCORE e of Some v \<Rightarrow> v | None \<Rightarrow> dzero)"

definition rz_wf :: "int \<Rightarrow> int \<Rightarrow> rze \<Rightarrow> bool" where
  "rz_wf n me e \<longleftrightarrow> vc_size (rze_current e) = nat n \<and> vc_id (rze_current e) = me"

interpretation rzq: queue HRze rze_of rzeNew RW_RPQ_TABLE_SUFFIX GET_RZE put_rze rz_LOOKUP rz_score rz_wf
  by unfold_locales (simp_all add: rz_LOOKUP_def as_LOOKUP_def rzeNew_def as_empty_def rz_wf_def vc_new_def)

text \<open>What the operations do to the element alone, one and several in turn.\<close>

definition rz_apply :: "rz_cmd \<Rightarrow> rze \<Rightarrow> rze option" where
  "rz_apply c e = map_option (\<lambda>e. rz_advance e (rzc_t c)) (case rzc_type c of
       RZADD \<Rightarrow> rz_add_sets e (rzc_value c) (rzc_t c)
     | RZINCBY \<Rightarrow> Some (rz_inc_sets e (rzc_value c) (rzc_t c))
     | RZREM \<Rightarrow> rz_rem_sets e (rzc_t c))"

fun rz_play :: "rz_cmd list \<Rightarrow> rze \<Rightarrow> rze option" where
  "rz_play [] e = Some e"
| "rz_play (c # cs) e = Option.bind (rz_apply c e) (rz_play cs)"

lemma rz_play_snoc: "rz_play (xs @ [c]) e = Option.bind (rz_play xs e) (rz_apply c)"
proof (induction xs arbitrary: e)
  case Nil
  show ?case by (cases "rz_apply c e") simp_all
next
  case (Cons d xs)
  then show ?case by (cases "rz_apply d e") simp_all
qed

lemma rz_apply_sets:
  assumes "rzs.sets_step c (rze_sets e) = Some S"
  shows "rz_apply c e = Some (rz_advance (e\<lparr>rze_sets := S\<rparr>) (rzc_t c))"
  using assms rz_inc_def[of c]
  by (cases "rzc_type c")
    (auto simp: rz_apply_def rzs.sets_step_def rz_add_sets_def rz_inc_sets_def rz_rem_sets_def rz_entry_def simp flip: rz_inc_def)

text \<open>An element that has applied \<open>xs\<close>: it is what \<open>xs\<close> make of a new one.\<close>

definition rz_applied :: "nat \<Rightarrow> int \<Rightarrow> rz_cmd list \<Rightarrow> rze \<Rightarrow> bool" where
  "rz_applied n me xs e \<longleftrightarrow> rze_current e = merged n me (map rzc_t xs) \<and> rzs.shape xs (rze_sets e) \<and>
     rz_play xs (rzeNew (int n) me) = Some (e\<lparr>rze_ops := []\<rparr>)"

lemma rz_applied_wf: "rz_applied n me xs e \<Longrightarrow> rz_wf (int n) me e"
  by (simp add: rz_applied_def rz_wf_def)

lemma rz_applied_LOOKUP: "rz_applied n me xs e \<Longrightarrow> rz_LOOKUP e \<longleftrightarrow> rzs.live xs \<noteq> [] \<and> rzs.rems xs = []"
  using rzs.shape_LOOKUP by (auto simp: rz_applied_def rz_LOOKUP_def)

text \<open>The score is the value of the winning add and the increments after it.\<close>

lemma rz_ent: "rzs.ent xs c = \<lparr>rza_t = rzc_t c, rza_x = rzc_value c, rza_inc = dsum dzero (map rzc_value (rzs.seen xs c))\<rparr>"
proof -
  have "foldl (\<lambda>x d. rz_inc d x) w ds = w\<lparr>rza_inc := dsum (rza_inc w) (map rzc_value ds)\<rparr>" for w ds
    by (induction ds arbitrary: w) (simp_all add: rz_inc_def dsum_def)
  then show ?thesis by (simp add: rzs.ent_seen rz_entry_def vc_dup_def)
qed

lemma rz_applied_score:
  assumes "rz_applied n me xs e" "rz_LOOKUP e"
  obtains c where "rzs.winner xs c" "rz_SCORE e = Some (dadd (rzc_value c) (dsum dzero (map rzc_value (rzs.seen xs c))))"
proof -
  have "rzs.live xs \<noteq> []" using assms rz_applied_LOOKUP by blast
  then obtain c where c: "rzs.winner xs c" "value_of (rze_sets e) = Some (rzs.ent xs c)"
    using rzs.shape_value assms(1) unfolding rz_applied_def by blast
  then show ?thesis using that by (simp add: rz_SCORE_def rz_ent)
qed

lemma rz_entry_of: "rz_SCORE e = Some v \<Longrightarrow> rz_LOOKUP e \<Longrightarrow> rzq.entry_of e = Some v"
  by (simp add: rzq.entry_of_def rz_score_def)

lemma seen_values:
  assumes "c \<in> set xs" "rz_kind c = SAdd"
  shows "mset (map rzc_value (c # rzs.seen xs c)) \<subseteq># mset (map rzc_value xs)"
proof -
  have "mset (c # rzs.seen xs c) \<subseteq># mset xs"
  proof (rule mset_subset_eqI)
    fix d
    show "count (mset (c # rzs.seen xs c)) d \<le> count (mset xs) d"
      using assms by (auto simp: rzs.seen_def count_mset_0_iff simp del: rz_kind.simps)
  qed
  then show ?thesis by (metis image_mset_subseteq_mono mset_map)
qed

lemma winner_add: "rzs.winner xs c \<Longrightarrow> c \<in> set xs \<and> rz_kind c = SAdd"
  by (simp add: rzs.winner_def rzs.live_def)

lemma rz_applied_numeric:
  assumes "rz_applied n me xs e" "rz_LOOKUP e" "exact_values (map rzc_value xs)"
  shows "\<exists>v. rz_SCORE e = Some v \<and> v \<noteq> NaN"
proof -
  obtain c where c: "rzs.winner xs c" "rz_SCORE e = Some (dadd (rzc_value c) (dsum dzero (map rzc_value (rzs.seen xs c))))"
    using rz_applied_score[OF assms(1,2)] .
  have "exact_values (map rzc_value (c # rzs.seen xs c))"
    using exact_values_sub[OF assms(3)] seen_values winner_add[OF c(1)] by blast
  then show ?thesis using c(2) exact_values_dadd by simp
qed

section \<open>Operations\<close>

text \<open>What an operation changes outside the element: the sorted set of its queue.\<close>

definition only_zset :: "sds \<Rightarrow> server \<Rightarrow> server \<Rightarrow> bool" where
  "only_zset tname s s' \<longleftrightarrow> p2p_count s' = p2p_count s \<and> p2p_id s' = p2p_id s \<and> replicas s' = replicas s \<and>
     (\<forall>name. name \<noteq> tname \<longrightarrow> db s' name = db s name)"

lemma only_zset_refl [simp]: "only_zset tname s s"
  by (simp add: only_zset_def)

lemma only_zset_trans: "only_zset tname s s' \<Longrightarrow> only_zset tname s' s'' \<Longrightarrow> only_zset tname s s''"
  by (simp add: only_zset_def)

lemma only_zset_incr_dirty [simp]: "only_zset tname s (incr_dirty s') \<longleftrightarrow> only_zset tname s s'"
  by (simp add: only_zset_def)

lemma only_zset_frame:
  assumes "only_zset tname s s'"
  shows "frame tname RW_RPQ_TABLE_SUFFIX s s'" "db s' (tname @ RW_RPQ_TABLE_SUFFIX) = db s (tname @ RW_RPQ_TABLE_SUFFIX)"
  using assms by (simp_all add: only_zset_def frame_def)

definition zset_becomes :: "sds \<Rightarrow> (sds \<Rightarrow> dbl option) \<Rightarrow> server \<Rightarrow> server \<Rightarrow> bool" where
  "zset_becomes tname m s s' \<longleftrightarrow> only_zset tname s s' \<and> (\<exists>zs. zcontent s' tname zs \<and> map_of zs = m)"

lemma zset_becomes_incr_dirty [simp]: "zset_becomes tname m s (incr_dirty s') \<longleftrightarrow> zset_becomes tname m s s'"
  by (simp add: zset_becomes_def zcontent_def)

lemma zset_unchanged: "zcontent s tname zs \<Longrightarrow> map_of zs = m \<Longrightarrow> zset_becomes tname m s s"
  by (auto simp: zset_becomes_def)

lemma zset_scored:
  assumes "zcontent s tname zs" "v \<noteq> NaN"
  shows "\<exists>s'. zset_set_score tname key v s = Some s' \<and> zset_becomes tname ((map_of zs)(key \<mapsto> v)) s s'"
proof -
  obtain z rs where z: "zset_set_score tname key v s = Some (db_put tname (OZset z) s\<lparr>random_draws := rs\<rparr>)"
    "zset_holds z (zins (key, v) (zdel key zs))"
    using zset_set_score_ok[OF assms(1), of key v] assms(2) by auto
  have "map_of (zins (key, v) (zdel key zs)) = (map_of zs)(key \<mapsto> v)"
    using map_of_zins[of "(key, v)" "zdel key zs"] by (simp add: map_of_zdel)
  then show ?thesis using z by (auto simp: zset_becomes_def only_zset_def zcontent_def)
qed

lemma zset_deleted:
  assumes "zcontent s tname zs"
  shows "\<exists>s'. zset_del_key tname key s = Some s' \<and> zset_becomes tname ((map_of zs)(key := None)) s s'"
  using zset_del_key_ok[OF assms, of key] map_of_zdel[of key zs] by (force simp: zset_becomes_def only_zset_def)

lemma rz_elem_step:
  assumes "rz_applied n me xs e" "newest (rzc_t c) (map rzc_t xs)"
  shows "\<exists>S. rzs.sets_step c (rze_sets e) = Some S \<and> rz_applied n me (xs @ [c]) (rz_advance (e\<lparr>rze_sets := S\<rparr>) (rzc_t c))"
proof -
  obtain S where "rzs.sets_step c (rze_sets e) = Some S" "rzs.shape (xs @ [c]) S"
    using rzs.step_shape[OF _ assms(2)] assms(1) unfolding rz_applied_def by blast
  moreover from this have "rz_apply c (e\<lparr>rze_ops := []\<rparr>) = Some (rz_advance (e\<lparr>rze_ops := [], rze_sets := S\<rparr>) (rzc_t c))"
    by (intro rz_apply_sets) simp
  ultimately show ?thesis using assms(1) by (simp add: rz_applied_def rz_advance_def rz_play_snoc)
qed

lemma rz_advance_simps [simp]:
  "rze_sets (rz_advance e t) = rze_sets e" "rze_ops (rz_advance e t) = rze_ops e"
  "rz_LOOKUP (rz_advance e t) = rz_LOOKUP e" "rz_SCORE (rz_advance e t) = rz_SCORE e"
  "rzq.entry_of (rz_advance e t) = rzq.entry_of e"
  by (simp_all add: rz_advance_def rz_LOOKUP_def rz_SCORE_def rzq.entry_of_def rz_score_def)

text \<open>An increment that does not reach the value leaves the score.\<close>

lemma value_of_update: "value_of (update_sets clk t f S) =
  map_option (\<lambda>x. if vc_cmp (clk x) t = VC_LESS then f x else x) (value_of S)"
proof -
  have "map_of (map (\<lambda>(a, x). if vc_cmp (clk x) t = VC_LESS then (a, f x) else (a, x)) as) b =
      map_option (\<lambda>x. if vc_cmp (clk x) t = VC_LESS then f x else x) (map_of as b)" for as b
  proof (induction as)
    case (Cons p as)
    then show ?case by (cases p; cases "vc_cmp (clk (snd p)) t = VC_LESS") simp_all
  qed simp
  then show ?thesis by (cases "as_value S") (simp_all add: value_of_def update_sets_def)
qed

lemma value_of_update_quiet:
  assumes "value_of (update_sets clk t f S) = Some a" "vc_cmp (clk a) t \<noteq> VC_LESS" "\<And>x. clk (f x) = clk x"
  shows "value_of (update_sets clk t f S) = value_of S"
proof -
  obtain x where x: "value_of S = Some x" "a = (if vc_cmp (clk x) t = VC_LESS then f x else x)"
    using assms(1) by (auto simp: value_of_update)
  then show ?thesis using assms by (cases "vc_cmp (clk x) t = VC_LESS") (simp_all add: value_of_update)
qed

lemma rz_add_present:
  assumes "rz_applied n me xs e" "rz_applied n me (xs @ [c]) e'" "newest (rzc_t c) (map rzc_t xs)" "rz_kind c = SAdd"
    and "rz_LOOKUP e"
  shows "rz_LOOKUP e'"
  using assms rz_applied_LOOKUP[OF assms(1)] rz_applied_LOOKUP[OF assms(2)]
  by (simp add: rzs.live_snoc rzs.rems_snoc del: rz_kind.simps)

lemma rz_rem_absent:
  assumes "rz_applied n me (xs @ [c]) e'" "newest (rzc_t c) (map rzc_t xs)" "rz_kind c = SRem"
  shows "\<not> rz_LOOKUP e'"
  using assms rz_applied_LOOKUP[OF assms(1)] by (simp add: rzs.rems_snoc del: rz_kind.simps)

text \<open>One operation that is newest: the element has applied it, and the sorted set follows.\<close>

definition rz_ran :: "sds \<Rightarrow> sds \<Rightarrow> nat \<Rightarrow> int \<Rightarrow> rz_cmd list \<Rightarrow> rze \<Rightarrow> (sds \<Rightarrow> dbl option) \<Rightarrow> server \<Rightarrow> (rze \<times> server) option \<Rightarrow> bool" where
  "rz_ran tname key n me xs e m s r \<longleftrightarrow> (\<exists>e' s'. r = Some (e', s') \<and> rz_applied n me xs e' \<and> rze_ops e' = rze_ops e \<and>
     zset_becomes tname (m(key := rzq.entry_of e')) s s')"

lemma rz_ranI:
  assumes "rz_applied n me xs (rz_advance e1 t)" "rze_ops e1 = rze_ops e"
    and "zset_becomes tname (m(key := rzq.entry_of e1)) s s'"
  shows "rz_ran tname key n me xs e m s (Some (rz_advance e1 t, incr_dirty s'))"
  using assms by (simp add: rz_ran_def)

lemma rz_run_ok:
  assumes e: "rz_applied n me xs e" and c: "newest (rzc_t c) (map rzc_t xs)" and ex: "exact_values (map rzc_value (xs @ [c]))"
    and zs: "zcontent s tname zs" "map_of zs key = rzq.entry_of e"
  shows "rz_ran tname key n me (xs @ [c]) e (map_of zs) s (rz_run tname key c (e, s))"
proof -
  obtain S where S: "rzs.sets_step c (rze_sets e) = Some S"
    "rz_applied n me (xs @ [c]) (rz_advance (e\<lparr>rze_sets := S\<rparr>) (rzc_t c))"
    using rz_elem_step[OF e c] by blast
  let ?e1 = "e\<lparr>rze_sets := S\<rparr>"
  have scored: "\<exists>s'. rz_set_score tname key ?e1 s = Some s' \<and> zset_becomes tname ((map_of zs)(key := rzq.entry_of ?e1)) s s'"
    if look: "rz_LOOKUP ?e1"
  proof -
    obtain v where v: "rz_SCORE ?e1 = Some v" "v \<noteq> NaN" using rz_applied_numeric[OF S(2) _ ex] look by auto
    then show ?thesis using zset_scored[OF zs(1) v(2), of key] rz_entry_of[OF v(1) look] by (simp add: rz_set_score_def)
  qed
  have same: "zset_becomes tname ((map_of zs)(key := rzq.entry_of ?e1)) s s" if "rzq.entry_of ?e1 = rzq.entry_of e"
    using zset_unchanged[OF zs(1)] zs(2) that by (simp add: fun_upd_idem)
  show ?thesis
  proof (cases "rzc_type c")
    case RZADD
    have "rz_add_sets e (rzc_value c) (rzc_t c) = Some ?e1"
      using S(1) RZADD by (simp add: rzs.sets_step_def rz_add_sets_def rz_entry_def)
    moreover have "\<not> rz_LOOKUP ?e1 \<Longrightarrow> \<not> rz_LOOKUP e" using rz_add_present[OF e S(2) c] RZADD by auto
    ultimately show ?thesis
      using scored same RZADD
      by (cases "rz_LOOKUP ?e1") (auto simp: rz_run_def rz_addFunc_def rzq.entry_of_def intro!: rz_ranI[OF S(2)])
  next
    case RZINCBY
    have e1: "rz_inc_sets e (rzc_value c) (rzc_t c) = ?e1" "S = update_sets rza_t (rzc_t c) (rz_inc c) (rze_sets e)"
      using S(1) RZINCBY rz_inc_def[of c] by (simp_all add: rzs.sets_step_def rz_inc_sets_def flip: rz_inc_def)
    show ?thesis
    proof (cases "rz_LOOKUP ?e1")
      case True
      then obtain a where a: "value_of S = Some a" using rz_applied_score[OF S(2)] by (auto simp: rz_SCORE_def)
      have "rzq.entry_of ?e1 = rzq.entry_of e" if "vc_cmp (rza_t a) (rzc_t c) \<noteq> VC_LESS"
      proof -
        have "value_of S = value_of (rze_sets e)" using a that unfolding e1(2) by (rule value_of_update_quiet) (simp add: rz_inc_def)
        moreover have "as_LOOKUP S = as_LOOKUP (rze_sets e)" by (simp add: e1(2) as_LOOKUP_def update_sets_def)
        ultimately show ?thesis by (simp add: rzq.entry_of_def rz_score_def rz_SCORE_def rz_LOOKUP_def)
      qed
      then show ?thesis
        using scored[OF True] same a e1(1) True RZINCBY
        by (cases "vc_cmp (rza_t a) (rzc_t c) = VC_LESS")
          (auto simp: rz_run_def rz_increaseFunc_def Let_def intro!: rz_ranI[OF S(2)])
    next
      case False
      then have "rzq.entry_of ?e1 = rzq.entry_of e"
        using e1(2) by (auto simp: rzq.entry_of_def rz_LOOKUP_def as_LOOKUP_def update_sets_def)
      then show ?thesis
        using same e1(1) False RZINCBY by (auto simp: rz_run_def rz_increaseFunc_def Let_def intro!: rz_ranI[OF S(2)])
    qed
  next
    case RZREM
    have "rz_rem_sets e (rzc_t c) = Some ?e1" using S(1) RZREM by (simp add: rzs.sets_step_def rz_rem_sets_def)
    moreover have "\<not> rz_LOOKUP ?e1" using rz_rem_absent[OF S(2) c] RZREM by simp
    moreover obtain s' where "zset_del_key tname key s = Some s'"
      "zset_becomes tname ((map_of zs)(key := rzq.entry_of ?e1)) s s'"
      using zset_deleted[OF zs(1), of key] calculation(2) by (auto simp: rzq.entry_of_def)
    ultimately show ?thesis
      using RZREM by (auto simp: rz_run_def rz_removeFunc_def intro!: rz_ranI[OF S(2)])
  qed
qed

section \<open>Delivery\<close>

text \<open>The operations \<open>hs\<close> on one element: a causal history whose values add up exactly.\<close>

definition rz_history :: "nat \<Rightarrow> rz_cmd list \<Rightarrow> bool" where
  "rz_history n hs \<longleftrightarrow> causal_history n (map rzc_t hs) \<and> exact_values (map rzc_value hs)"

text \<open>The state inside an effect that read the element in \<open>s0\<close>: it has applied \<open>xs\<close>, and the sorted
  set is that of \<open>s0\<close> but for the element.\<close>

definition rz_inv :: "sds \<Rightarrow> sds \<Rightarrow> nat \<Rightarrow> int \<Rightarrow> rz_cmd list \<Rightarrow> server \<Rightarrow> rz_cmd list \<Rightarrow> rze \<times> server \<Rightarrow> bool" where
  "rz_inv tname key n me hs s0 xs = (\<lambda>(e, s). rz_history n hs \<and> rz_applied n me xs e \<and>
     zset_becomes tname ((\<lambda>k. rzq.entry_of (rzt.slot s0 tname k))(key := rzq.entry_of e)) s0 s)"

lemma exact_part: "rz_history n hs \<Longrightarrow> mset xs \<subseteq># mset hs \<Longrightarrow> exact_values (map rzc_value xs)"
  unfolding rz_history_def by (erule conjE, erule exact_values_sub) (metis image_mset_subseteq_mono mset_map)

lemma rz_inv_run:
  assumes inv: "rz_inv tname key n me hs s0 xs (e, s)" and sub: "mset (xs @ [c]) \<subseteq># mset hs"
    and turn: "in_turn (vc_new (int n) me) (map rzc_t (xs @ [c]))"
  shows "\<exists>e' s'. rz_run tname key c (e, s) = Some (e', s') \<and> rz_inv tname key n me hs s0 (xs @ [c]) (e', s') \<and>
    rze_ops e' = rze_ops e"
proof -
  have i: "rz_history n hs" "rz_applied n me xs e"
    "zset_becomes tname ((\<lambda>k. rzq.entry_of (rzt.slot s0 tname k))(key := rzq.entry_of e)) s0 s"
    using inv by (simp_all add: rz_inv_def)
  obtain zs where zs: "zcontent s tname zs" "map_of zs = (\<lambda>k. rzq.entry_of (rzt.slot s0 tname k))(key := rzq.entry_of e)"
    "only_zset tname s0 s"
    using i(3) by (auto simp: zset_becomes_def)
  have "newest (rzc_t c) (map rzc_t xs)"
    using in_turn_newest[of n "map rzc_t hs" "map rzc_t xs" "rzc_t c" me] i(1) set_mset_mono[OF sub] turn
    by (auto simp: rz_history_def)
  from rz_run_ok[OF i(2) this exact_part[OF i(1) sub] zs(1), of key]
  obtain e' s' where r: "rz_run tname key c (e, s) = Some (e', s')" "rz_applied n me (xs @ [c]) e'" "rze_ops e' = rze_ops e"
    "zset_becomes tname ((map_of zs)(key := rzq.entry_of e')) s s'"
    using zs(2) by (auto simp: rz_ran_def)
  moreover have "zset_becomes tname ((\<lambda>k. rzq.entry_of (rzt.slot s0 tname k))(key := rzq.entry_of e')) s0 s'"
    using r(4) zs(2,3) only_zset_trans by (auto simp: zset_becomes_def)
  ultimately show ?thesis using i(1) by (auto simp: rz_inv_def)
qed

text \<open>The state also keeps the waiting commands it was read with.\<close>

interpretation rzc: causal_process rzc_t "\<lambda>(e, s). rze_current e" "rz_run tname key" n me "mset hs"
  "\<lambda>xs (e, s). rz_inv tname key n me hs s0 xs (e, s) \<and> rze_ops e = ws" for tname key n me hs s0 ws
proof (unfold_locales, goal_cases)
  case (1 xs s)
  then show ?case by (auto simp: rz_inv_def rz_applied_def)
next
  case (2 xs es c)
  then show ?case using rz_inv_run[of tname key n me hs s0 xs "fst es" "snd es" c] by (cases es) auto
qed

lemma rz_run_ops: "rz_run tname key c (e, s) = Some (e', s') \<Longrightarrow> rze_ops e' = rze_ops e"
  by (auto simp: rz_run_def rz_addFunc_def rz_increaseFunc_def rz_removeFunc_def rz_add_sets_def rz_inc_sets_def
      rz_rem_sets_def Let_def split: rz_cmd_type.splits bind_splits)

lemma rz_deliver_receive:
  "rz_deliver tname key c e s = do {
     (ws, e, s) \<leftarrow> rzc.receive tname key c (rze_ops e, (e, s));
     put_rze tname key (e\<lparr>rze_ops := ws\<rparr>) s
   }"
proof (cases "vc_causally_ready (rze_current e) (rzc_t c)")
  case (Some b)
  show ?thesis
  proof (cases b)
    case True
    show ?thesis
    proof (cases "rz_run tname key c (e, s)")
      case (Some es)
      then have "rze_ops (fst es) = rze_ops e" using rz_run_ops[of tname key c e s "fst es" "snd es"] by simp
      then show ?thesis
        using \<open>vc_causally_ready (rze_current e) (rzc_t c) = Some b\<close> True Some
        by (cases "notify_loop rzc_t (\<lambda>(e, s). rze_current e) (rz_run tname key) (rze_ops e) es")
          (auto simp: rz_deliver_def rzc.receive_def rz_notifyLoop_def)
    qed (use Some True in \<open>simp add: rz_deliver_def rzc.receive_def\<close>)
  qed (use Some in \<open>simp add: rz_deliver_def rzc.receive_def\<close>)
qed (simp add: rz_deliver_def rzc.receive_def)

text \<open>An element between two effects.\<close>

definition rz_at :: "nat \<Rightarrow> int \<Rightarrow> rz_cmd list \<Rightarrow> rze \<Rightarrow> bool" where
  "rz_at n me xs e \<longleftrightarrow> rz_applied n me xs e \<and> in_turn (vc_new (int n) me) (map rzc_t xs) \<and>
     list_all (\<lambda>w. vc_causally_ready (rze_current e) (rzc_t w) = Some False) (rze_ops e)"

lemma rz_at_new: "rz_at n me [] (rzeNew (int n) me)"
  using rzs.shape_empty by (simp add: rz_at_def rz_applied_def rzeNew_def)

lemma rz_deliver_ok:
  assumes h: "rzq.holding tname key e s" and n: "p2p_count s = int n" and me: "p2p_id s = me"
    and e: "rz_at n me xs e" and hs: "rz_history n hs" and sub: "mset (xs @ rze_ops e @ [c]) \<subseteq># mset hs"
  shows "\<exists>ys e' s'. rz_deliver tname key c e s = Some s' \<and> rz_at n me (xs @ ys) e' \<and>
    mset (ys @ rze_ops e') = mset (rze_ops e @ [c]) \<and> rzq.sync tname s' \<and>
    rzt.slot s' tname = (rzt.slot s tname)(key := e') \<and> frame tname RW_RPQ_TABLE_SUFFIX s s'"
proof -
  have ok: "list_all (clock_ok n) (map rzc_t (xs @ rze_ops e @ [c]))"
    using hs causal_historyD(1)[of n "map rzc_t hs"] set_mset_mono[OF sub] by (auto simp: rz_history_def list_all_iff)
  obtain zs where "zcontent s tname zs" "map_of zs = (\<lambda>k. rzq.entry_of (rzt.slot s tname k))"
    using h by (auto simp: rzq.holding_def rzq.sync_def)
  then have "rz_inv tname key n me hs s xs (e, s)"
    using hs e rzq.holding_slot[OF h] by (auto simp: rz_inv_def rz_at_def zset_becomes_def fun_upd_idem)
  then have "rzc.settled n me tname key hs s (rze_ops e) xs (rze_ops e) (e, s)"
    using e by (simp add: rzc.settled_def rz_at_def)
  from rzc.receive_settles[OF this sub ok]
  obtain ys vs es where "rzc.receive tname key c (rze_ops e, (e, s)) = Some (vs, es)"
    "rzc.settled n me tname key hs s (rze_ops e) (xs @ ys) vs es" "mset (ys @ vs) = mset (rze_ops e @ [c])"
    by blast
  moreover obtain e1 s1 where "es = (e1, s1)" by fastforce
  ultimately have r: "rzc.receive tname key c (rze_ops e, (e, s)) = Some (vs, (e1, s1))"
    "rzc.settled n me tname key hs s (rze_ops e) (xs @ ys) vs (e1, s1)" "mset (ys @ vs) = mset (rze_ops e @ [c])"
    by simp_all
  let ?e = "e1\<lparr>rze_ops := vs\<rparr>"
  have st: "rz_inv tname key n me hs s (xs @ ys) (e1, s1)" "in_turn (vc_new (int n) me) (map rzc_t (xs @ ys))"
    "list_all (\<lambda>w. vc_causally_ready (rze_current e1) (rzc_t w) = Some False) vs"
    using r(2) unfolding rzc.settled_def by auto
  then have e1: "rz_at n me (xs @ ys) ?e" by (simp add: rz_at_def rz_inv_def rz_applied_def)
  have "rzq.entry_of ?e = rzq.entry_of e1" by (simp add: rzq.entry_of_def rz_LOOKUP_def rz_score_def rz_SCORE_def)
  then obtain zs where zs: "only_zset tname s s1" "zcontent s1 tname zs"
    "map_of zs = (\<lambda>k. rzq.entry_of (rzt.slot s tname k))(key := rzq.entry_of ?e)"
    using st(1) by (auto simp: rz_inv_def zset_becomes_def)
  have "rz_wf (p2p_count s) (p2p_id s) ?e" using e1 n me rz_applied_wf by (auto simp: rz_at_def)
  from rzq.zset_store[OF h only_zset_frame[OF zs(1)] this zs(2,3)]
  obtain s2 where "put_rze tname key ?e s1 = Some s2" "rzq.holding tname key ?e s2"
    "rzt.slot s2 tname = (rzt.slot s tname)(key := ?e)" "frame tname RW_RPQ_TABLE_SUFFIX s s2" by blast
  then show ?thesis
    using r(1,3) e1 by (intro exI[of _ ys] exI[of _ ?e] exI[of _ s2]) (simp add: rz_deliver_receive rzq.holding_def)
qed

section \<open>Receiving operations\<close>

text \<open>The arguments an operation is broadcast with.\<close>

fun rz_args :: "rz_cmd \<Rightarrow> sds list \<Rightarrow> bool" where
  "rz_args c args \<longleftrightarrow> (case rzc_type c of
       RZREM \<Rightarrow> 3 < length args \<and> sdsToVC (args ! 3) = Some (rzc_t c) \<and> rzc_value c = dzero
     | _ \<Rightarrow> 4 < length args \<and> string2d (args ! 3) = Some (rzc_value c) \<and> sdsToVC (args ! 4) = Some (rzc_t c))"

fun rz_effect :: "rz_cmd_type \<Rightarrow> effect" where
  "rz_effect RZADD = rzadd_effect"
| "rz_effect RZINCBY = rzincrby_effect"
| "rz_effect RZREM = rzrem_effect"

fun rz_receive :: "(rz_cmd \<times> client) list \<Rightarrow> server \<Rightarrow> server option" where
  "rz_receive [] s = Some s"
| "rz_receive ((p, c) # msgs) s = do {
     (c, s) \<leftarrow> rz_effect (rzc_type p) c s;
     rz_receive msgs s
   }"

definition rz_msg_args :: "rz_cmd \<times> client \<Rightarrow> sds list" where
  "rz_msg_args m = (case rargv (snd m) of Some args \<Rightarrow> args | None \<Rightarrow> [])"

definition rz_msg_ok :: "sds \<Rightarrow> rz_cmd \<times> client \<Rightarrow> bool" where
  "rz_msg_ok tname m \<longleftrightarrow> rargv (snd m) \<noteq> None \<and> rz_args (fst m) (rz_msg_args m) \<and> rz_msg_args m ! 1 = tname"

definition rz_msg_ops :: "sds \<Rightarrow> (rz_cmd \<times> client) list \<Rightarrow> rz_cmd list" where
  "rz_msg_ops key msgs = map fst (filter (\<lambda>m. rz_msg_args m ! 2 = key) msgs)"

lemma rz_receive_snoc:
  "rz_receive (msgs @ [(p, c)]) s =
     Option.bind (rz_receive msgs s) (\<lambda>s. map_option snd (rz_effect (rzc_type p) c s))"
proof (induction msgs arbitrary: s)
  case Nil
  show ?case by (cases "rz_effect (rzc_type p) c s") auto
next
  case (Cons m msgs)
  obtain q d where "m = (q, d)" by fastforce
  with Cons show ?case by (cases "rz_effect (rzc_type q) d s") auto
qed

lemma rz_effect_deliver:
  assumes "rargv c = Some args" "rz_args p args" "args ! 1 = tname" "args ! 2 = key"
    and "GET_RZE tname key True s = Some (Some e, s1)" "rz_deliver tname key p e s1 = Some s2"
  shows "rz_effect (rzc_type p) c s = Some (c, s2)"
proof -
  have "rz_cmdNew (rzc_type p) (rzc_value p) (rzc_t p) = p" by (cases p) (simp add: rz_cmdNew_def)
  then show ?thesis
    using assms
    by (cases "rzc_type p")
      (auto simp: rzadd_effect_def rzincrby_effect_def rzrem_effect_def getDoubleFromObject_def arg_def)
qed

text \<open>A replica that has received \<open>recv key\<close> on every key: of these, it has applied \<open>xs\<close> in turn.\<close>

definition rz_state :: "sds \<Rightarrow> nat \<Rightarrow> int \<Rightarrow> (sds \<Rightarrow> rz_cmd list) \<Rightarrow> server \<Rightarrow> bool" where
  "rz_state tname n me recv s \<longleftrightarrow> rzq.sync tname s \<and> p2p_count s = int n \<and> p2p_id s = me \<and>
     (\<forall>key. \<exists>xs. rz_at n me xs (rzt.slot s tname key) \<and> mset (xs @ rze_ops (rzt.slot s tname key)) = mset (recv key))"

lemma rz_effect_state:
  assumes s: "rz_state tname n me recv s" and hs: "rz_history n hs" "mset (recv key @ [p]) \<subseteq># mset hs"
    and c: "rargv c = Some args" "rz_args p args" "args ! 1 = tname" "args ! 2 = key"
  shows "\<exists>s'. rz_effect (rzc_type p) c s = Some (c, s') \<and> rz_state tname n me (recv(key := recv key @ [p])) s' \<and>
    frame tname RW_RPQ_TABLE_SUFFIX s s'"
proof -
  let ?e = "rzt.slot s tname key"
  have sy: "rzq.sync tname s" "p2p_count s = int n" "p2p_id s = me" using s by (simp_all add: rz_state_def)
  obtain xs where xs: "rz_at n me xs ?e" "mset (xs @ rze_ops ?e) = mset (recv key)" using s by (auto simp: rz_state_def)
  obtain s1 where s1: "GET_RZE tname key True s = Some (Some ?e, s1)" "rzq.holding tname key ?e s1"
    "rzt.slot s1 tname = rzt.slot s tname" "frame tname RW_RPQ_TABLE_SUFFIX s s1"
    using rzq.get_holding[OF sy(1)] by blast
  have p2p: "p2p_count s1 = int n" "p2p_id s1 = me" using s1(4) sy by (simp_all add: frame_def)
  have "mset (xs @ rze_ops ?e @ [p]) \<subseteq># mset hs" using hs(2) xs(2) by simp
  from rz_deliver_ok[OF s1(2) p2p xs(1) hs(1) this]
  obtain ys e' s2 where r: "rz_deliver tname key p ?e s1 = Some s2" "rz_at n me (xs @ ys) e'"
    "mset (ys @ rze_ops e') = mset (rze_ops ?e @ [p])" "rzq.sync tname s2"
    "rzt.slot s2 tname = (rzt.slot s1 tname)(key := e')" "frame tname RW_RPQ_TABLE_SUFFIX s1 s2" by blast
  have "\<exists>zs. rz_at n me zs e' \<and> mset (zs @ rze_ops e') = mset (recv key @ [p])"
    using r(2,3) xs(2) by (intro exI[of _ "xs @ ys"]) simp
  then have "\<exists>zs. rz_at n me zs (rzt.slot s2 tname k) \<and>
      mset (zs @ rze_ops (rzt.slot s2 tname k)) = mset ((recv(key := recv key @ [p])) k)" for k
    using s r(5) s1(3) by (cases "k = key") (simp_all add: rz_state_def)
  then have "rz_state tname n me (recv(key := recv key @ [p])) s2"
    using r(4,6) p2p by (simp add: rz_state_def frame_def)
  then show ?thesis using rz_effect_deliver[OF c s1(1) r(1)] frame_trans[OF s1(4) r(6)] by blast
qed

lemma rz_state_new:
  assumes "p2p_count s = int n" "db s tname = None" "db s (tname @ RW_RPQ_TABLE_SUFFIX) = None"
  shows "rz_state tname n (p2p_id s) (\<lambda>_. []) s"
proof -
  have "rzt.slot s tname = (\<lambda>key. rzeNew (int n) (p2p_id s))"
    using assms by (simp add: rzt.slot_def rzt.stored_def table_of_def hash_at_def fun_eq_iff)
  then show ?thesis
    using rzq.sync_empty[OF assms(2,3)] assms(1) rz_at_new[of n "p2p_id s"] by (auto simp: rz_state_def rzeNew_def)
qed

lemma rz_receive_state:
  assumes n: "p2p_count s = int n" and new: "db s tname = None" "db s (tname @ RW_RPQ_TABLE_SUFFIX) = None"
    and msgs: "list_all (rz_msg_ok tname) msgs"
    and hs: "\<And>key. rz_history n (hs key)" "\<And>key. mset (rz_msg_ops key msgs) \<subseteq># mset (hs key)"
  shows "\<exists>s'. rz_receive msgs s = Some s' \<and> rz_state tname n (p2p_id s) (\<lambda>key. rz_msg_ops key msgs) s' \<and>
    frame tname RW_RPQ_TABLE_SUFFIX s s'"
  using msgs hs(2)
proof (induction msgs rule: rev_induct)
  case Nil
  then show ?case using rz_state_new[OF n new] by (simp add: rz_msg_ops_def)
next
  case (snoc m msgs)
  obtain p c where m: "m = (p, c)" by fastforce
  let ?args = "rz_msg_args m" let ?key = "rz_msg_args m ! 2"
  have ops: "(\<lambda>key. rz_msg_ops key (msgs @ [m])) = (\<lambda>key. rz_msg_ops key msgs)(?key := rz_msg_ops ?key msgs @ [p])"
    by (auto simp: rz_msg_ops_def m fun_eq_iff)
  have "mset (rz_msg_ops key msgs) \<subseteq># mset (rz_msg_ops key (msgs @ [m]))" for key by (simp add: rz_msg_ops_def)
  then have "mset (rz_msg_ops key msgs) \<subseteq># mset (hs key)" for key
    using snoc.prems(2) by (rule subset_mset.order_trans)
  then obtain s1 where s1: "rz_receive msgs s = Some s1" "rz_state tname n (p2p_id s) (\<lambda>key. rz_msg_ops key msgs) s1"
    "frame tname RW_RPQ_TABLE_SUFFIX s s1"
    using snoc.IH snoc.prems(1) by auto
  have c: "rargv c = Some ?args" "rz_args p ?args" "?args ! 1 = tname"
    using snoc.prems(1) by (auto simp: rz_msg_ok_def m rz_msg_args_def simp del: rz_args.simps)
  have "mset (rz_msg_ops ?key msgs @ [p]) \<subseteq># mset (hs ?key)"
    using snoc.prems(2)[of ?key] by (simp add: fun_cong[OF ops])
  from rz_effect_state[OF s1(2) hs(1) this c refl]
  obtain s2 where "rz_effect (rzc_type p) c s1 = Some (c, s2)" "frame tname RW_RPQ_TABLE_SUFFIX s1 s2"
    "rz_state tname n (p2p_id s) (\<lambda>key. rz_msg_ops key (msgs @ [m])) s2"
    unfolding ops by blast
  then show ?case using s1 frame_trans[OF s1(3)] by (simp add: rz_receive_snoc m)
qed

text \<open>When the history is complete nothing waits.\<close>

lemma rz_at_complete:
  assumes "rz_at n me xs e" "mset (xs @ rze_ops e) = mset hs" "causal_history n (map rzc_t hs)"
  shows "rze_ops e = [] \<and> mset xs = mset hs"
proof -
  have "mset (map rzc_t (xs @ rze_ops e)) = mset (map rzc_t hs)" using assms(2) by (metis mset_map)
  then have "causal_history n (map rzc_t xs @ map rzc_t (rze_ops e))" using assms(3) causal_history_perm by fastforce
  moreover have "\<forall>w \<in> set (map rzc_t (rze_ops e)). vc_causally_ready (merged n me (map rzc_t xs)) w = Some False"
    using assms(1) by (auto simp: rz_at_def rz_applied_def list_all_iff)
  ultimately have "map rzc_t (rze_ops e) = []" using nothing_waits assms(1) unfolding rz_at_def by blast
  then show ?thesis using assms(2) by simp
qed

text \<open>The entry of an element depends on the operations applied, not on their order.\<close>

lemma rz_entry_perm:
  assumes e: "rz_applied n me xs e" "rz_applied n me' xs' e'" and same: "mset xs' = mset xs" and h: "rz_history n xs"
  shows "rzq.entry_of e' = rzq.entry_of e"
proof (cases "rz_LOOKUP e")
  case False
  then have "\<not> rz_LOOKUP e'"
    using rz_applied_LOOKUP[OF e(1)] rz_applied_LOOKUP[OF e(2)] rzs.view_perm(1,2)[OF same] by auto
  then show ?thesis using False by (simp add: rzq.entry_of_def)
next
  case True
  then have True': "rz_LOOKUP e'"
    using rz_applied_LOOKUP[OF e(1)] rz_applied_LOOKUP[OF e(2)] rzs.view_perm(1,2)[OF same] by auto
  obtain c where c: "rzs.winner xs c" "rz_SCORE e = Some (dadd (rzc_value c) (dsum dzero (map rzc_value (rzs.seen xs c))))"
    using rz_applied_score[OF e(1) True] .
  obtain c' where c': "rzs.winner xs' c'" "rz_SCORE e' = Some (dadd (rzc_value c') (dsum dzero (map rzc_value (rzs.seen xs' c'))))"
    using rz_applied_score[OF e(2) True'] .
  have "\<forall>c \<in> set xs. \<forall>d \<in> set xs. vc_id (rzc_t c) = vc_id (rzc_t d) \<longrightarrow> c = d \<or> rzs.before c d \<or> rzs.before d c"
    using history_same_replica[of n rzc_t xs] h by (auto simp: rz_history_def rzs.before_def)
  then have "c' = c" using rzs.winner_unique c(1) c'(1) rzs.view_perm(3)[OF same] by metis
  moreover have "dsum dzero (map rzc_value (rzs.seen xs' c)) = dsum dzero (map rzc_value (rzs.seen xs c))"
  proof -
    have "mset (map rzc_value (rzs.seen xs c)) \<subseteq># mset (map rzc_value xs)"
      by (simp add: rzs.seen_def image_mset_subseteq_mono)
    then have "exact_values (map rzc_value (rzs.seen xs c))"
      using h exact_values_sub unfolding rz_history_def by blast
    moreover have "mset (map rzc_value (rzs.seen xs' c)) = mset (map rzc_value (rzs.seen xs c))"
      using rzs.seen_perm[OF same, of c] by (metis mset_map)
    ultimately show ?thesis using exact_values_perm by blast
  qed
  ultimately show ?thesis using c(2) c'(2) rz_entry_of[OF c(2) True] rz_entry_of[OF c'(2) True'] by simp
qed

lemma rz_history_perm:
  assumes "mset xs = mset hs" "rz_history n hs"
  shows "rz_history n xs"
proof -
  have "mset (map rzc_t xs) = mset (map rzc_t hs)" using assms(1) by (metis mset_map)
  then have "causal_history n (map rzc_t xs)" using causal_history_perm assms(2) unfolding rz_history_def by blast
  then show ?thesis using exact_part[OF assms(2), of xs] assms(1) by (simp add: rz_history_def)
qed

section \<open>Properties\<close>

text \<open>C23: an effect phase of the causal priority queue always returns, and its loop over the
  waiting commands ends with none of them next. On a replica that has received some operations of a
  causal history on the element, in whatever order, applying one more leaves every operation received
  either applied, each in its causal turn, or waiting for a cause; the element is the one that
  those applied produce, and the sorted set holds exactly the present elements with their scores. The
  values of the history have to be whole numbers whose absolute values sum up to at most \<open>2\<close> to the
  power 53, so that no score depends on rounding.\<close>

theorem rz_effect_settles:
  assumes "rz_state tname n me recv s" and "rz_history n hs" and "mset (recv key @ [p]) \<subseteq># mset hs"
    and "rargv c = Some args" and "rz_args p args" and "args ! 1 = tname" and "args ! 2 = key"
  shows "\<exists>s' xs. rz_effect (rzc_type p) c s = Some (c, s') \<and> rzq.sync tname s' \<and>
    mset (xs @ rze_ops (rzt.slot s' tname key)) = mset (recv key @ [p]) \<and>
    in_turn (vc_new (int n) me) (map rzc_t xs) \<and> rz_applied n me xs (rzt.slot s' tname key) \<and>
    list_all (\<lambda>w. vc_causally_ready (rze_current (rzt.slot s' tname key)) (rzc_t w) = Some False)
      (rze_ops (rzt.slot s' tname key))"
proof -
  obtain s' where "rz_effect (rzc_type p) c s = Some (c, s')" "rz_state tname n me (recv(key := recv key @ [p])) s'"
    using rz_effect_state[OF assms] by blast
  then show ?thesis by (auto simp: rz_state_def rz_at_def dest!: spec[of _ key])
qed

text \<open>C22: causal delivery loses nothing and applies everything in turn. A replica that receives, in
  any order, the operations on every element of a queue, a complete causal history whose values are
  integers that a double adds exactly, applies all of them: no command is left waiting, every element
  is what its operations make of a new element when they are applied in an order in which each was
  causally next, and the sorted set holds exactly the present elements with their scores.\<close>

theorem rz_history_delivered:
  assumes "p2p_count s = int n" and "db s tname = None" and "db s (tname @ RW_RPQ_TABLE_SUFFIX) = None"
    and "list_all (rz_msg_ok tname) msgs" and hist: "\<And>key. rz_history n (rz_msg_ops key msgs)"
  shows "\<exists>s'. rz_receive msgs s = Some s' \<and> rzq.sync tname s' \<and> (\<forall>key. rze_ops (rzt.slot s' tname key) = [] \<and>
    (\<exists>xs. mset xs = mset (rz_msg_ops key msgs) \<and> in_turn (vc_new (int n) (p2p_id s)) (map rzc_t xs) \<and>
      rz_play xs (rzeNew (int n) (p2p_id s)) = Some (rzt.slot s' tname key)))"
proof -
  obtain s' where s': "rz_receive msgs s = Some s'" "rz_state tname n (p2p_id s) (\<lambda>key. rz_msg_ops key msgs) s'"
    using rz_receive_state[where hs = "\<lambda>key. rz_msg_ops key msgs", OF assms(1-4) hist] by auto
  have "rze_ops (rzt.slot s' tname key) = [] \<and> (\<exists>xs. mset xs = mset (rz_msg_ops key msgs) \<and>
      in_turn (vc_new (int n) (p2p_id s)) (map rzc_t xs) \<and>
      rz_play xs (rzeNew (int n) (p2p_id s)) = Some (rzt.slot s' tname key))" for key
  proof -
    obtain xs where xs: "rz_at n (p2p_id s) xs (rzt.slot s' tname key)"
      "mset (xs @ rze_ops (rzt.slot s' tname key)) = mset (rz_msg_ops key msgs)"
      using s'(2) by (auto simp: rz_state_def)
    moreover have "rze_ops (rzt.slot s' tname key) = []" "mset xs = mset (rz_msg_ops key msgs)"
      using rz_at_complete[OF xs] hist[of key] by (simp_all add: rz_history_def)
    moreover from this have "(rzt.slot s' tname key)\<lparr>rze_ops := []\<rparr> = rzt.slot s' tname key" by simp
    ultimately show ?thesis by (intro conjI exI[of _ xs]) (simp_all add: rz_at_def rz_applied_def)
  qed
  then show ?thesis using s' by (auto simp: rz_state_def)
qed

text \<open>C21: replicas of a causal priority queue converge. Two replicas that have received the same
  operations on the elements of a queue, each in its own order, hold the same entries and answer
  every score query and every max query alike. The operations on each element have to be a complete
  causal history, with all causes of every operation among them, and their values whole numbers
  whose absolute values sum up to at most \<open>2\<close> to the power 53.\<close>

theorem rz_replicas_converge:
  assumes n: "p2p_count s1 = int n" "p2p_count s2 = int n"
    and new: "db s1 tname = None" "db s1 (tname @ RW_RPQ_TABLE_SUFFIX) = None"
      "db s2 tname = None" "db s2 (tname @ RW_RPQ_TABLE_SUFFIX) = None"
    and ok: "list_all (rz_msg_ok tname) msgs1" "list_all (rz_msg_ok tname) msgs2"
    and same: "\<And>key. mset (rz_msg_ops key msgs1) = mset (rz_msg_ops key msgs2)"
    and hist: "\<And>key. rz_history n (rz_msg_ops key msgs1)"
  shows "\<exists>s1' s2' xs. rz_receive msgs1 s1 = Some s1' \<and> rz_receive msgs2 s2 = Some s2' \<and>
    zcontent s1' tname xs \<and> zcontent s2' tname xs \<and>
    (\<forall>q. 2 < length (argv q) \<and> argv q ! 1 = tname \<longrightarrow>
      rzscoreCommand q s1' = Some (addReply (score_answer xs (argv q ! 2)) q, s1') \<and>
      rzscoreCommand q s2' = Some (addReply (score_answer xs (argv q ! 2)) q, s2') \<and>
      rzmaxCommand q s1' = Some (fold addReply (max_answer xs) q, s1') \<and>
      rzmaxCommand q s2' = Some (fold addReply (max_answer xs) q, s2'))"
proof -
  obtain s1' where s1': "rz_receive msgs1 s1 = Some s1'" "rz_state tname n (p2p_id s1) (\<lambda>key. rz_msg_ops key msgs1) s1'"
    using rz_receive_state[where hs = "\<lambda>key. rz_msg_ops key msgs1", OF n(1) new(1,2) ok(1) hist] by auto
  obtain s2' where s2': "rz_receive msgs2 s2 = Some s2'" "rz_state tname n (p2p_id s2) (\<lambda>key. rz_msg_ops key msgs2) s2'"
    using rz_receive_state[where hs = "\<lambda>key. rz_msg_ops key msgs1", OF n(2) new(3,4) ok(2) hist] same by auto
  have "rzq.entry_of (rzt.slot s2' tname key) = rzq.entry_of (rzt.slot s1' tname key)" for key
  proof -
    let ?hs = "rz_msg_ops key msgs1"
    have h: "causal_history n (map rzc_t ?hs)" using hist by (simp add: rz_history_def)
    obtain xs where a: "rz_at n (p2p_id s1) xs (rzt.slot s1' tname key)" "mset (xs @ rze_ops (rzt.slot s1' tname key)) = mset ?hs"
      using s1'(2) unfolding rz_state_def by blast
    obtain ys where b: "rz_at n (p2p_id s2) ys (rzt.slot s2' tname key)" "mset (ys @ rze_ops (rzt.slot s2' tname key)) = mset ?hs"
      using s2'(2) unfolding rz_state_def same by blast
    have m: "mset xs = mset ?hs" "mset ys = mset ?hs" using rz_at_complete[OF a h] rz_at_complete[OF b h] by simp_all
    have "rz_applied n (p2p_id s1) xs (rzt.slot s1' tname key)" "rz_applied n (p2p_id s2) ys (rzt.slot s2' tname key)"
      using a(1) b(1) by (simp_all add: rz_at_def)
    then show ?thesis by (rule rz_entry_perm) (use m rz_history_perm[OF m(1) hist] in simp_all)
  qed
  moreover obtain xs ys where xs: "zcontent s1' tname xs" "map_of xs = (\<lambda>key. rzq.entry_of (rzt.slot s1' tname key))"
    "zcontent s2' tname ys" "map_of ys = (\<lambda>key. rzq.entry_of (rzt.slot s2' tname key))"
    using s1'(2) s2'(2) by (auto simp: rz_state_def rzq.sync_def)
  ultimately have "ys = xs" by (intro zsorted_unique) (simp_all add: zcontent_sorted)
  moreover have "rzscoreCommand q s = Some (addReply (score_answer xs (argv q ! 2)) q, s) \<and>
      rzmaxCommand q s = Some (fold addReply (max_answer xs) q, s)"
    if "zcontent s tname xs" "2 < length (argv q) \<and> argv q ! 1 = tname" for q s
    using score_reply_content[OF that(1), of q "argv q ! 2"] max_reply_content[OF that(1), of q] that(2)
    by (simp add: rzscoreCommand_def rzmaxCommand_def)
  ultimately show ?thesis using s1'(1) s2'(1) xs by blast
qed

section \<open>A history of two operations\<close>

text \<open>Replica 0 adds an element, replica 1 increments it.\<close>

definition rz_m1 :: "rz_cmd \<times> client" where
  "rz_m1 = (\<lparr>rzc_type = RZADD, rzc_value = Fin 5, rzc_t = \<lparr>vc_vector = [1, 0], vc_id = 0\<rparr>\<rparr>,
     createClient\<lparr>rargv := Some [''rzadd'', ''q'', ''k'', ''5'', ''1,0|0'']\<rparr>)"

definition rz_m2 :: "rz_cmd \<times> client" where
  "rz_m2 = (\<lparr>rzc_type = RZINCBY, rzc_value = Fin 2, rzc_t = \<lparr>vc_vector = [1, 1], vc_id = 1\<rparr>\<rparr>,
     createClient\<lparr>rargv := Some [''rzincrby'', ''q'', ''k'', ''2'', ''1,1|1'']\<rparr>)"

definition rz_replica :: "int \<Rightarrow> server" where
  "rz_replica me = (initServer [] [] (\<lambda>_. dzero) (\<lambda>_ _. 0))\<lparr>p2p_count := 2, p2p_id := me\<rparr>"

lemma rz_replica_new [simp]:
  "p2p_count (rz_replica me) = int 2" "p2p_id (rz_replica me) = me" "db (rz_replica me) name = None"
  by (simp_all add: rz_replica_def initServer_def)

lemma rz_m_ok: "rz_msg_ok ''q'' rz_m1" "rz_msg_ok ''q'' rz_m2"
proof -
  have "string2d ''5'' = Some (Fin 5)" "string2d ''2'' = Some (Fin 2)"
    using dround_of_int[of 5] dround_of_int[of 2] by (simp_all add: eval_double)
  moreover have "sdsToVC ''1,0|0'' = Some \<lparr>vc_vector = [1, 0], vc_id = 0\<rparr>"
    "sdsToVC ''1,1|1'' = Some \<lparr>vc_vector = [1, 1], vc_id = 1\<rparr>" by (simp_all add: eval_vc)
  ultimately show "rz_msg_ok ''q'' rz_m1" "rz_msg_ok ''q'' rz_m2"
    by (simp_all add: rz_msg_ok_def rz_msg_args_def rz_m1_def rz_m2_def)
qed

lemma rz_m_ops:
  "rz_msg_ops key [rz_m1, rz_m2] = (if key = ''k'' then [fst rz_m1, fst rz_m2] else [])"
  "rz_msg_ops key [rz_m2, rz_m1] = (if key = ''k'' then [fst rz_m2, fst rz_m1] else [])"
  by (auto simp: rz_msg_ops_def rz_msg_args_def rz_m1_def rz_m2_def)

lemma rz_m_history: "rz_history 2 [fst rz_m1, fst rz_m2]" "rz_history 2 [fst rz_m2, fst rz_m1]" "rz_history n []"
proof -
  let ?t = "\<lparr>vc_vector = [1, 0], vc_id = 0\<rparr>" let ?u = "\<lparr>vc_vector = [1, 1], vc_id = 1\<rparr>"
  have "{1..1::int} = {1}" by auto
  then have "causal_history 2 [?t, ?u]"
    by (simp add: causal_history_def clock_ok_def vc_seq_def vlt_def vle_def numeral_2_eq_2 All_less_Suc)
  moreover have "[Fin 5, Fin 2] = map (\<lambda>k. Fin (of_int k)) [5, 2]" by simp
  then have "exact_values [Fin 5, Fin 2]" unfolding exact_values_def by (intro exI[of _ "[5, 2]"]) simp
  ultimately show h: "rz_history 2 [fst rz_m1, fst rz_m2]" by (simp add: rz_history_def rz_m1_def rz_m2_def)
  show "rz_history 2 [fst rz_m2, fst rz_m1]" by (rule rz_history_perm[OF _ h]) simp
  show "rz_history n []" by (simp add: rz_history_def causal_history_def)
qed

theorem rz_history_delivered_witness:
  "\<exists>s. rz_receive [rz_m2, rz_m1] (rz_replica 0) = Some s \<and> rze_ops (rzt.slot s ''q'' ''k'') = []"
proof -
  have "\<exists>s. rz_receive [rz_m2, rz_m1] (rz_replica 0) = Some s \<and> rzq.sync ''q'' s \<and> (\<forall>key. rze_ops (rzt.slot s ''q'' key) = [] \<and>
    (\<exists>xs. mset xs = mset (rz_msg_ops key [rz_m2, rz_m1]) \<and> in_turn (vc_new (int 2) (p2p_id (rz_replica 0))) (map rzc_t xs) \<and>
      rz_play xs (rzeNew (int 2) (p2p_id (rz_replica 0))) = Some (rzt.slot s ''q'' key)))"
    by (rule rz_history_delivered) (simp_all add: rz_m_ok rz_m_ops rz_m_history)
  then show ?thesis by blast
qed

theorem rz_replicas_converge_witness:
  "\<exists>s1 s2 r. rz_receive [rz_m1, rz_m2] (rz_replica 0) = Some s1 \<and> rz_receive [rz_m2, rz_m1] (rz_replica 1) = Some s2 \<and>
     (let q = createClient\<lparr>argv := [''rzscore'', ''q'', ''k'']\<rparr> in
      rzscoreCommand q s1 = Some (addReply r q, s1) \<and> rzscoreCommand q s2 = Some (addReply r q, s2))"
proof -
  have "\<exists>s1 s2 xs. rz_receive [rz_m1, rz_m2] (rz_replica 0) = Some s1 \<and> rz_receive [rz_m2, rz_m1] (rz_replica 1) = Some s2 \<and>
    zcontent s1 ''q'' xs \<and> zcontent s2 ''q'' xs \<and>
    (\<forall>q. 2 < length (argv q) \<and> argv q ! 1 = ''q'' \<longrightarrow>
      rzscoreCommand q s1 = Some (addReply (score_answer xs (argv q ! 2)) q, s1) \<and>
      rzscoreCommand q s2 = Some (addReply (score_answer xs (argv q ! 2)) q, s2) \<and>
      rzmaxCommand q s1 = Some (fold addReply (max_answer xs) q, s1) \<and>
      rzmaxCommand q s2 = Some (fold addReply (max_answer xs) q, s2))"
    by (rule rz_replicas_converge[where n = 2]) (simp_all add: rz_m_ok rz_m_ops rz_m_history add.commute)
  then show ?thesis unfolding Let_def by force
qed

theorem rz_effect_settles_witness:
  "\<exists>s xs. rz_effect RZINCBY (snd rz_m2) (rz_replica 0) = Some (snd rz_m2, s) \<and>
     mset (xs @ rze_ops (rzt.slot s ''q'' ''k'')) = {#fst rz_m2#}"
proof -
  have st: "rz_state ''q'' 2 0 (\<lambda>_. []) (rz_replica 0)" using rz_state_new[of "rz_replica 0" 2 "''q''"] by simp
  have "rargv (snd rz_m2) = Some (rz_msg_args rz_m2)" "rz_args (fst rz_m2) (rz_msg_args rz_m2)"
    "rz_msg_args rz_m2 ! 1 = ''q''" "rz_msg_args rz_m2 ! 2 = ''k''"
    using rz_m_ok(2) by (simp_all add: rz_msg_ok_def rz_msg_args_def rz_m2_def)
  from rz_effect_settles[OF st rz_m_history(1) _ this]
  show ?thesis by (auto simp: rz_m2_def)
qed

end
