(* ===== verification/LinkedList.thy ===== *)
theory LinkedList
  imports RList
begin

text \<open>
  The linked lists of \<open>t_rwflist.c\<close> and \<open>t_rlist.c\<close>. The locale \<open>linked_list\<close> is what the two share:
  elements on the heap with a position and a \<open>next\<close> pointer, the walk to the place of a new
  element, and the linking. Inside it the walk is shown to return, and linking to keep the list in
  the order of positions. Both lists interpret it.
\<close>

definition first_of :: "'a list \<Rightarrow> 'a option" where
  "first_of xs = (case xs of [] \<Rightarrow> None | x # _ \<Rightarrow> Some x)"

lemma first_of_simps [simp]: "first_of [] = None" "first_of (x # xs) = Some x"
  by (simp_all add: first_of_def)

lemma first_of_append: "first_of (xs @ ys) = (if xs = [] then first_of ys else first_of xs)"
  by (cases xs) simp_all

section \<open>Fields of the table\<close>

definition field :: "server \<Rightarrow> sds \<Rightarrow> sds \<Rightarrow> hval option" where
  "field s ht k = Option.bind (hash_at s ht) (\<lambda>h. h k)"

lemma hashTypeSet_ok:
  assumes "hash_at s ht \<noteq> None"
  obtains s' where "hashTypeSet ht k v s = Some s'" "s\<lparr>db := db s'\<rparr> = s'" "hash_at s' ht \<noteq> None"
    "field s' ht = (field s ht)(k \<mapsto> v)" "\<And>name. name \<noteq> ht \<Longrightarrow> db s' name = db s name"
proof -
  obtain h where h: "hash_at s ht = Some h" using assms by auto
  let ?s = "db_put ht (OHash (h(k \<mapsto> v))) s"
  show ?thesis
    by (rule that[of ?s])
      (use h in \<open>auto simp: hashTypeSet_def field_def hash_at_def db_put_def fun_eq_iff split: option.splits robj.splits\<close>)
qed

lemma getHead_field:
  "hash_at s ht \<noteq> None \<Longrightarrow> getHead ht s = (case field s ht ''head'' of
     None \<Rightarrow> Some None | Some (HPtr a) \<Rightarrow> Some (Some a) | _ \<Rightarrow> None)"
  by (auto simp: getHead_def hashTypeGetValueObject_def field_def)

section \<open>Lists of elements\<close>

locale linked_list =
  fixes ele :: "server \<Rightarrow> addr \<Rightarrow> 'e option" and cell :: "'e \<Rightarrow> lobj"
    and epos :: "'e \<Rightarrow> leid option" and enext :: "'e \<Rightarrow> addr option" and with_next :: "addr option \<Rightarrow> 'e \<Rightarrow> 'e"
    and get :: "sds \<Rightarrow> sds \<Rightarrow> bool \<Rightarrow> server \<Rightarrow> (addr option \<times> server) option"
    and walk :: "server \<Rightarrow> leid \<Rightarrow> addr \<Rightarrow> addr option \<Rightarrow> (addr \<times> addr option) option"
    and link :: "sds \<Rightarrow> sds \<Rightarrow> sds \<Rightarrow> addr \<Rightarrow> server \<Rightarrow> server option"
  assumes ele_put [simp]: "ele (heap_put a (cell e) s) b = (if b = a then Some e else ele s b)"
    and ele_heap: "lheap s' = lheap s \<Longrightarrow> ele s' = ele s"
    and epos_next [simp]: "epos (with_next q e) = epos e"
    and enext_next [simp]: "enext (with_next q e) = q"
    and next_next [simp]: "with_next q (with_next r e) = with_next q e"
    and walk_unfold: "walk s x p q = (case q of
        None \<Rightarrow> Some (p, q)
      | Some q' \<Rightarrow> do {
          e \<leftarrow> ele s q';
          qpos \<leftarrow> epos e;
          if leid_cmp x qpos > 0 then walk s x q' (enext e) else Some (p, q)
        })"
    and link_unfold: "link tname ht prev a s = do {
        e \<leftarrow> ele s a;
        x \<leftarrow> epos e;
        hd' \<leftarrow> getHead ht s;
        (case hd' of
           None \<Rightarrow> setHead ht a s
         | Some h \<Rightarrow> do {
             he \<leftarrow> ele s h;
             hpos \<leftarrow> epos he;
             if leid_cmp x hpos < 0 then do {
               s \<leftarrow> setHead ht a s;
               map_option (\<lambda>e. heap_put a (cell (with_next (Some h) e)) s) (ele s a)
             }
             else do {
               (pre, s) \<leftarrow> get tname prev False s;
               p \<leftarrow> (case pre of
                   None \<Rightarrow> Some h
                 | Some b \<Rightarrow> map_option (\<lambda>pe. if epos pe \<noteq> None then b else h) (ele s b));
               pe \<leftarrow> ele s p;
               (p, q) \<leftarrow> walk s x p (enext pe);
               s \<leftarrow> map_option (\<lambda>e. heap_put p (cell (with_next (Some a) e)) s) (ele s p);
               map_option (\<lambda>e. heap_put a (cell (with_next q e)) s) (ele s a)
             }
           })
      }"
begin

text \<open>Following \<open>next\<close> from a pointer through given elements to another pointer.\<close>

fun path :: "server \<Rightarrow> addr option \<Rightarrow> addr list \<Rightarrow> addr option \<Rightarrow> bool" where
  "path s h [] q \<longleftrightarrow> h = q"
| "path s h (a # as) q \<longleftrightarrow> h = Some a \<and> (case ele s a of None \<Rightarrow> False | Some e \<Rightarrow> path s (enext e) as q)"

definition ep :: "server \<Rightarrow> addr \<Rightarrow> leid" where
  "ep s a = (case Option.bind (ele s a) epos of Some x \<Rightarrow> x | None \<Rightarrow> [])"

definition placed :: "server \<Rightarrow> addr \<Rightarrow> bool" where
  "placed s a \<longleftrightarrow> Option.bind (ele s a) epos \<noteq> None"

text \<open>The list that starts at the head of the table: all placed, in the order of positions.\<close>

definition in_order :: "server \<Rightarrow> addr list \<Rightarrow> bool" where
  "in_order s as \<longleftrightarrow> list_all (placed s) as \<and> sorted_wrt (\<lambda>a b. leid_lt (ep s a) (ep s b)) as"

definition listed :: "sds \<Rightarrow> server \<Rightarrow> addr list \<Rightarrow> bool" where
  "listed ht s as \<longleftrightarrow> hash_at s ht \<noteq> None \<and> getHead ht s = Some (first_of as) \<and> path s (first_of as) as None \<and> in_order s as"

text \<open>The place of a position.\<close>

definition ins :: "server \<Rightarrow> leid \<Rightarrow> addr \<Rightarrow> addr list \<Rightarrow> addr list" where
  "ins s x a as = takeWhile (\<lambda>b. leid_lt (ep s b) x) as @ a # dropWhile (\<lambda>b. leid_lt (ep s b) x) as"

lemma path_append: "path s h (as @ bs) q \<longleftrightarrow> (\<exists>r. path s h as r \<and> path s r bs q)"
  by (induction as arbitrary: h) (auto split: option.splits)

lemma path_cong: "(\<And>b. b \<in> set as \<Longrightarrow> ele s' b = ele s b) \<Longrightarrow> path s' h as q = path s h as q"
  by (induction as arbitrary: h) (auto split: option.splits)

lemma path_first: "path s h as q \<Longrightarrow> as \<noteq> [] \<Longrightarrow> h = first_of as"
  by (cases as) simp_all

lemma path_None_first: "path s h as None \<Longrightarrow> h = first_of as"
  by (cases as) simp_all

lemma placedE:
  assumes "placed s a"
  obtains e where "ele s a = Some e" "epos e = Some (ep s a)"
  using assms by (cases "ele s a") (auto simp: placed_def ep_def)

lemma in_order_distinct: "in_order s as \<Longrightarrow> distinct as"
  by (auto simp: in_order_def distinct_conv_nth sorted_wrt_iff_nth_less) (metis leid_lt_irrefl nat_neq_iff)

lemma leid_after: "leid_cmp x y > 0 \<longleftrightarrow> leid_lt y x"
  using leid_cmp_neg[of x y] by (auto simp: leid_lt_def)

text \<open>The walk returns, at the place of the position.\<close>

lemma walk_ok:
  assumes "path s q as None" "list_all (placed s) as"
  shows "walk s x p q = Some (last (p # takeWhile (\<lambda>b. leid_lt (ep s b) x) as),
    first_of (dropWhile (\<lambda>b. leid_lt (ep s b) x) as))"
  using assms
proof (induction as arbitrary: p q)
  case Nil
  then show ?case by (simp add: walk_unfold)
next
  case (Cons a as)
  obtain e where e: "ele s a = Some e" "epos e = Some (ep s a)" using Cons.prems(2) placedE by auto
  then have q: "q = Some a" "path s (enext e) as None" using Cons.prems(1) by simp_all
  show ?case
  proof (cases "leid_lt (ep s a) x")
    case True
    then show ?thesis
      using Cons.IH[OF q(2), of a] Cons.prems(2) e q(1) by (subst walk_unfold) (simp add: leid_after)
  next
    case False
    then show ?thesis using e q(1) by (subst walk_unfold) (simp add: leid_after)
  qed
qed

text \<open>What linking leaves of the elements: everything but the pointers.\<close>

definition same_elements :: "server \<Rightarrow> server \<Rightarrow> bool" where
  "same_elements s s' \<longleftrightarrow> (\<forall>b. map_option (with_next None) (ele s' b) = map_option (with_next None) (ele s b))"

lemma same_elements_pos: "same_elements s s' \<Longrightarrow> ep s' = ep s \<and> placed s' = placed s"
proof -
  assume s: "same_elements s s'"
  have "Option.bind (ele s' b) epos = Option.bind (ele s b) epos" for b
  proof -
    have "map_option (with_next None) (ele s' b) = map_option (with_next None) (ele s b)"
      using s by (simp add: same_elements_def)
    then show ?thesis
      by (cases "ele s b"; cases "ele s' b") (auto dest: arg_cong[where f = epos])
  qed
  then show ?thesis by (simp add: ep_def placed_def fun_eq_iff)
qed

lemma same_elements_put:
  "ele s b = Some e \<Longrightarrow> same_elements s (heap_put b (cell (with_next q e)) s)"
  by (simp add: same_elements_def)

lemma same_elements_trans: "same_elements s s' \<Longrightarrow> same_elements s' s'' \<Longrightarrow> same_elements s s''"
  by (simp add: same_elements_def)

lemma path_insert:
  assumes "path s h (us @ p # ws) None" "distinct (us @ p # ws)" "a \<notin> set (us @ p # ws)"
    and "ele s p = Some pe" "ele s a = Some e"
  defines "s' \<equiv> heap_put a (cell (with_next (first_of ws) e)) (heap_put p (cell (with_next (Some a) pe)) s)"
  shows "path s' h (us @ p # a # ws) None"
proof -
  have eq: "b \<noteq> a \<Longrightarrow> b \<noteq> p \<Longrightarrow> ele s' b = ele s b" for b by (simp add: s'_def)
  have "path s h us (Some p)" "path s (enext pe) ws None" using assms(1,4) by (auto simp: path_append)
  then have "path s' h us (Some p)" "path s' (first_of ws) ws None"
    using path_cong[of us s' s] path_cong[of ws s' s] assms(2,3) eq path_None_first by fastforce+
  moreover have "ele s' p = Some (with_next (Some a) pe)" "ele s' a = Some (with_next (first_of ws) e)"
    using assms(3) by (auto simp: s'_def)
  ultimately show ?thesis by (auto simp: path_append)
qed

text \<open>In an ordered list the elements before one that precedes a position precede it too.\<close>

lemma takeWhile_upto:
  assumes "in_order s (us @ p # vs)" "leid_lt (ep s p) x"
  shows "takeWhile (\<lambda>b. leid_lt (ep s b) x) (us @ p # vs) = us @ p # takeWhile (\<lambda>b. leid_lt (ep s b) x) vs"
    and "dropWhile (\<lambda>b. leid_lt (ep s b) x) (us @ p # vs) = dropWhile (\<lambda>b. leid_lt (ep s b) x) vs"
proof -
  have "leid_lt (ep s b) x" if "b \<in> set us" for b
  proof -
    have "leid_lt (ep s b) (ep s p)" using assms(1) that by (simp add: in_order_def sorted_wrt_append)
    then show ?thesis using assms(2) by (rule leid_lt_trans)
  qed
  then show "takeWhile (\<lambda>b. leid_lt (ep s b) x) (us @ p # vs) = us @ p # takeWhile (\<lambda>b. leid_lt (ep s b) x) vs"
    "dropWhile (\<lambda>b. leid_lt (ep s b) x) (us @ p # vs) = dropWhile (\<lambda>b. leid_lt (ep s b) x) vs"
    using assms(2) by (simp_all add: takeWhile_append2 dropWhile_append2)
qed

lemma in_order_ins:
  assumes "in_order s as" "placed s a" "ep s a = x" "\<forall>b \<in> set as. ep s b \<noteq> x"
  shows "in_order s (ins s x a as)"
proof -
  let ?P = "\<lambda>b. leid_lt (ep s b) x"
  let ?R = "\<lambda>a b. leid_lt (ep s a) (ep s b)"
  have sorted: "sorted_wrt ?R (takeWhile ?P as)" "sorted_wrt ?R (dropWhile ?P as)"
    "\<forall>a \<in> set (takeWhile ?P as). \<forall>b \<in> set (dropWhile ?P as). ?R a b"
    using assms(1) sorted_wrt_append[of ?R "takeWhile ?P as" "dropWhile ?P as"] by (simp_all add: in_order_def)
  have after: "leid_lt x (ep s b)" if b: "b \<in> set (dropWhile ?P as)" for b
  proof -
    obtain c cs where c: "dropWhile ?P as = c # cs" using b by (cases "dropWhile ?P as") auto
    then have "\<not> ?P c" by (metis hd_dropWhile list.sel(1) list.discI)
    moreover have "c \<in> set as" using c set_dropWhileD[of c ?P as] by simp
    ultimately have "leid_lt x (ep s c)" using assms(4) leid_lt_total by blast
    then show ?thesis using b c sorted(2) leid_lt_trans by auto
  qed
  have "list_all (placed s) (takeWhile ?P as)" "list_all (placed s) (dropWhile ?P as)"
    using assms(1) list_all_append[of "placed s" "takeWhile ?P as" "dropWhile ?P as"] by (simp_all add: in_order_def)
  then show ?thesis
    using sorted after assms(2,3) by (auto simp: in_order_def ins_def sorted_wrt_append dest: set_takeWhileD)
qed

text \<open>Linking an element that is not in the list: it returns, and the list has the element at the
  place of its position. The hint \<open>prev\<close> is no element, one without a position, or an element of the
  list with a smaller position.\<close>

definition hint_ok :: "sds \<Rightarrow> sds \<Rightarrow> server \<Rightarrow> leid \<Rightarrow> addr list \<Rightarrow> bool" where
  "hint_ok tname prev s x as \<longleftrightarrow> (\<exists>pre. get tname prev False s = Some (pre, s) \<and>
     (case pre of None \<Rightarrow> True | Some b \<Rightarrow> ele s b \<noteq> None \<and> (placed s b \<longrightarrow> b \<in> set as \<and> leid_lt (ep s b) x)))"

lemma link_after_head:
  assumes l: "listed ht s as" and a: "ele s a = Some e" "a \<notin> set as"
    and p: "p \<in> set as" "leid_lt (ep s p) x" "ele s p = Some pe"
  shows "\<exists>p' q s'. walk s x p (enext pe) = Some (p', q) \<and> p' \<noteq> a \<and> p' \<in> set as \<and> (\<exists>pe'. ele s p' = Some pe' \<and>
    s' = heap_put a (cell (with_next q e)) (heap_put p' (cell (with_next (Some a) pe')) s)) \<and>
    path s' (first_of (ins s x a as)) (ins s x a as) None \<and> first_of (ins s x a as) = first_of as"
proof -
  let ?P = "\<lambda>b. leid_lt (ep s b) x"
  obtain us vs where as: "as = us @ p # vs" using p(1) by (meson split_list)
  have ord: "in_order s (us @ p # vs)" "path s (first_of as) (us @ p # vs) None" using l as by (simp_all add: listed_def)
  have "path s (enext pe) vs None" "list_all (placed s) vs" using ord p(3) by (auto simp: path_append in_order_def)
  note w = walk_ok[OF this, of x p]
  let ?tw = "takeWhile ?P as" and ?dw = "dropWhile ?P as"
  have tw: "?tw = us @ p # takeWhile ?P vs" "?dw = dropWhile ?P vs" using takeWhile_upto[OF ord(1) p(2)] as by simp_all
  have walk: "walk s x p (enext pe) = Some (last ?tw, first_of ?dw)" using w tw by simp
  have split: "as = butlast ?tw @ last ?tw # ?dw" "ins s x a as = butlast ?tw @ last ?tw # a # ?dw"
    using tw(1) append_butlast_last_id[of ?tw] takeWhile_dropWhile_id[of ?P as]
    by (auto simp: ins_def) (metis append_Cons append_Nil append_assoc)+
  have mem: "last ?tw \<in> set as" using split(1) by (metis in_set_conv_decomp)
  then obtain pe' where pe': "ele s (last ?tw) = Some pe'" "last ?tw \<noteq> a"
    using l a(2) placedE by (metis in_order_def list_all_iff listed_def)
  let ?s = "heap_put a (cell (with_next (first_of ?dw) e)) (heap_put (last ?tw) (cell (with_next (Some a) pe')) s)"
  have "path ?s (first_of as) (butlast ?tw @ last ?tw # a # ?dw) None"
    using l a split(1) pe'(1) in_order_distinct[of s as] by (intro path_insert) (simp_all add: listed_def)
  moreover have "first_of (ins s x a as) = first_of as" using split by (metis first_of_append first_of_simps(2))
  ultimately show ?thesis using walk mem pe' split(2) by (intro exI[of _ "last ?tw"] exI[of _ "first_of ?dw"] exI[of _ ?s]) auto
qed

text \<open>The state after linking: only the head field and \<open>next\<close> pointers differ.\<close>

definition relinked :: "sds \<Rightarrow> server \<Rightarrow> server \<Rightarrow> bool" where
  "relinked ht s s' \<longleftrightarrow> s\<lparr>db := db s', lheap := lheap s'\<rparr> = s' \<and> same_elements s s' \<and>
     (\<forall>name. name \<noteq> ht \<longrightarrow> db s' name = db s name) \<and> (\<forall>k. k \<noteq> ''head'' \<longrightarrow> field s' ht k = field s ht k)"

lemma same_elements_refl:
  assumes "lheap s' = lheap s"
  shows "same_elements s s'"
  using ele_heap[OF assms] by (simp add: same_elements_def)

lemma lheap_put [simp]: "db (heap_put a v s) = db s" "hash_at (heap_put a v s) = hash_at s"
  "getHead ht (heap_put a v s) = getHead ht s" "field (heap_put a v s) = field s"
  by (simp_all add: heap_put_def hash_at_def fun_eq_iff field_def getHead_def hashTypeGetValueObject_def)

lemma head_set:
  assumes "hash_at s ht \<noteq> None"
  obtains s' where "setHead ht a s = Some s'" "lheap s' = lheap s" "hash_at s' ht \<noteq> None" "getHead ht s' = Some (Some a)"
    "relinked ht s s'"
proof -
  obtain s' where s': "hashTypeSet ht ''head'' (HPtr a) s = Some s'" "s\<lparr>db := db s'\<rparr> = s'" "hash_at s' ht \<noteq> None"
    "field s' ht = (field s ht)(''head'' \<mapsto> HPtr a)" "\<And>name. name \<noteq> ht \<Longrightarrow> db s' name = db s name"
    using hashTypeSet_ok[OF assms] by blast
  have h: "lheap s' = lheap s" using arg_cong[OF s'(2), of lheap] by simp
  have "s\<lparr>db := db s', lheap := lheap s\<rparr> = s\<lparr>db := db s'\<rparr>" by (cases s) simp
  then have "s\<lparr>db := db s', lheap := lheap s'\<rparr> = s'" using s'(2) h by simp
  then have "relinked ht s s'" using s'(4,5) same_elements_refl[OF h] by (simp add: relinked_def)
  then show ?thesis using that s'(1,3,4) h getHead_field[OF s'(3)] by (simp add: setHead_def)
qed

lemma relinked_put:
  assumes "relinked ht s s1" "ele s1 b = Some e"
  shows "relinked ht s (heap_put b (cell (with_next q e)) s1)"
proof -
  let ?s = "heap_put b (cell (with_next q e)) s1"
  have "s\<lparr>db := db s1, lheap := lheap s1\<rparr>\<lparr>lheap := lheap ?s\<rparr> = s1\<lparr>lheap := lheap ?s\<rparr>"
    using assms(1) by (simp only: relinked_def)
  then have "s\<lparr>db := db ?s, lheap := lheap ?s\<rparr> = ?s" by (simp add: heap_put_def)
  then show ?thesis
    using assms same_elements_trans[OF _ same_elements_put[OF assms(2)], of s q] by (simp add: relinked_def)
qed

lemma listed_after:
  assumes "relinked ht s s'" "in_order s bs" "hash_at s' ht \<noteq> None" "getHead ht s' = Some (first_of bs)" "path s' (first_of bs) bs None"
  shows "listed ht s' bs"
  using assms same_elements_pos[of s s'] by (auto simp: listed_def relinked_def in_order_def)

lemma link_ok:
  assumes l: "listed ht s as" and a: "ele s a = Some e" "epos e = Some x" "enext e = None" "a \<notin> set as"
    and new: "\<forall>b \<in> set as. ep s b \<noteq> x" and hint: "hint_ok tname prev s x as"
  shows "\<exists>s'. link tname ht prev a s = Some s' \<and> listed ht s' (ins s x a as) \<and> relinked ht s s' \<and>
    (\<forall>b. b \<notin> set (a # as) \<longrightarrow> ele s' b = ele s b)"
proof -
  have ht: "hash_at s ht \<noteq> None" "getHead ht s = Some (first_of as)" "path s (first_of as) as None" "in_order s as"
    using l by (simp_all add: listed_def)
  have pa: "placed s a" "ep s a = x" using a by (simp_all add: placed_def ep_def)
  note ord = in_order_ins[OF ht(4) pa new]
  show ?thesis
  proof (cases as)
    case Nil
    obtain s' where s': "setHead ht a s = Some s'" "lheap s' = lheap s" "hash_at s' ht \<noteq> None" "getHead ht s' = Some (Some a)"
      "relinked ht s s'" using head_set[OF ht(1)] by blast
    have "path s' (Some a) [a] None" using a ele_heap[OF s'(2)] by simp
    then have "listed ht s' (ins s x a as)"
      using listed_after[OF s'(5) ord] s'(3,4) Nil by (simp add: ins_def)
    then show ?thesis using s'(1,5) a ht(2) Nil ele_heap[OF s'(2)] by (auto simp: link_unfold)
  next
    case (Cons h rest)
    then obtain he where he: "ele s h = Some he" "epos he = Some (ep s h)" using ht(4) placedE by (auto simp: in_order_def)
    show ?thesis
    proof (cases "leid_cmp x (ep s h) < 0")
      case True
      then have nlt: "\<not> leid_lt (ep s h) x" using leid_lt_trans[of x "ep s h" x] by (auto simp: leid_lt_def)
      obtain s1 where s1: "setHead ht a s = Some s1" "lheap s1 = lheap s" "hash_at s1 ht \<noteq> None" "getHead ht s1 = Some (Some a)"
        "relinked ht s s1" using head_set[OF ht(1)] by blast
      let ?s = "heap_put a (cell (with_next (Some h) e)) s1"
      have el: "ele s1 = ele s" using ele_heap[OF s1(2)] .
      have r: "relinked ht s ?s" using relinked_put[OF s1(5)] a(1) el by simp
      have "ele ?s b = ele s b" if "b \<in> set as" for b using that a(4) el by auto
      then have "path ?s (Some h) as None" using path_cong[of as ?s s "Some h" None] ht(3) Cons by (simp only: first_of_simps)
      then have "path ?s (Some a) (a # as) None" by simp
      then have "listed ht ?s (ins s x a as)"
        using listed_after[OF r ord] s1(3,4) Cons nlt by (simp add: ins_def)
      then show ?thesis using r s1(1) a he ht(2) Cons True el by (auto simp: link_unfold)
    next
      case False
      then have lt: "leid_lt (ep s h) x" using leid_lt_total new Cons by (auto simp: leid_lt_def)
      obtain pre where pre: "get tname prev False s = Some (pre, s)"
        "case pre of None \<Rightarrow> True | Some b \<Rightarrow> ele s b \<noteq> None \<and> (placed s b \<longrightarrow> b \<in> set as \<and> leid_lt (ep s b) x)"
        using hint by (auto simp: hint_ok_def)
      obtain p pe where p: "(case pre of None \<Rightarrow> Some h | Some b \<Rightarrow> map_option (\<lambda>pe. if epos pe \<noteq> None then b else h) (ele s b)) = Some p"
        "p \<in> set as" "leid_lt (ep s p) x" "ele s p = Some pe"
      proof (cases pre)
        case None
        then show ?thesis using that[of h he] lt he(1) Cons by simp
      next
        case (Some b)
        then obtain be where be: "ele s b = Some be" "epos be \<noteq> None \<longrightarrow> b \<in> set as \<and> leid_lt (ep s b) x"
          using pre(2) by (auto simp: placed_def)
        then show ?thesis
          using that[of h he] that[of b be] Some lt he(1) Cons by (cases "epos be = None") simp_all
      qed
      obtain p' q s' pe' where w: "walk s x p (enext pe) = Some (p', q)" "p' \<noteq> a" "ele s p' = Some pe'"
        "s' = heap_put a (cell (with_next q e)) (heap_put p' (cell (with_next (Some a) pe')) s)"
        "path s' (first_of (ins s x a as)) (ins s x a as) None" "first_of (ins s x a as) = first_of as" "p' \<in> set as"
        using link_after_head[OF l a(1,4) p(2,3,4)] by blast
      have r0: "relinked ht s s" by (simp add: relinked_def same_elements_def)
      have r: "relinked ht s s'"
        unfolding w(4) using w(2,3) a(1) by (intro relinked_put[OF relinked_put[OF r0]]) simp_all
      have "listed ht s' (ins s x a as)"
        using listed_after[OF r ord _ _ w(5)] ht(1,2) w(6) by (simp add: w(4))
      then show ?thesis
        using r a he ht(2) Cons False pre(1) p(1,4) w(1-4,7) by (auto simp: link_unfold)
    qed
  qed
qed

end

section \<open>The two lists\<close>

lemma ele_by_cell:
  assumes "\<And>s a e. ele s a = Some e \<longleftrightarrow> lheap s a = Some (cell e)"
  shows "ele (heap_put a (cell e) s) b = (if b = a then Some e else ele s b)"
    and "lheap s' = lheap s \<Longrightarrow> ele s' = ele s"
proof -
  have eq: "ele s' b = ele s b" if same: "lheap s' b = lheap s b" for s s' b
  proof (rule option.expand)
    show "(ele s' b = None) = (ele s b = None)" using assms[of s' b] assms[of s b] same by (metis not_None_eq)
    show "the (ele s' b) = the (ele s b)" if some: "ele s' b \<noteq> None" "ele s b \<noteq> None"
      using assms[of s' b "the (ele s' b)"] assms[of s b "the (ele s' b)"] same some by auto
  qed
  show "ele (heap_put a (cell e) s) b = (if b = a then Some e else ele s b)"
  proof (cases "b = a")
    case True
    then show ?thesis using assms[of "heap_put a (cell e) s" a e] by (simp add: heap_put_def)
  next
    case False
    then show ?thesis using eq[of "heap_put a (cell e) s" b s] by (simp add: heap_put_def)
  qed
  assume "lheap s' = lheap s"
  then have "ele s' b = ele s b" for b by (intro eq) (rule fun_cong)
  then show "ele s' = ele s" by (rule ext)
qed

lemma rwfle_at_cell: "rwfle_at s a = Some e \<longleftrightarrow> lheap s a = Some (LRwfle e)"
  by (auto simp: rwfle_at_def split: option.splits lobj.splits)

lemma rle_at_cell: "rle_at s a = Some e \<longleftrightarrow> lheap s a = Some (LRle e)"
  by (auto simp: rle_at_def split: option.splits lobj.splits)

interpretation rwfll: linked_list rwfle_at LRwfle rwfle_pos_id rwfle_next "\<lambda>q e. e\<lparr>rwfle_next := q\<rparr>"
  GET_RWFLE rwfl_walk rwfl_link
proof
  show "rwfl_link tname ht prev a s = do {
        e \<leftarrow> rwfle_at s a;
        x \<leftarrow> rwfle_pos_id e;
        hd' \<leftarrow> getHead ht s;
        (case hd' of
           None \<Rightarrow> setHead ht a s
         | Some h \<Rightarrow> do {
             he \<leftarrow> rwfle_at s h;
             hpos \<leftarrow> rwfle_pos_id he;
             if leid_cmp x hpos < 0 then do {
               s \<leftarrow> setHead ht a s;
               map_option (\<lambda>e. heap_put a (LRwfle (e\<lparr>rwfle_next := Some h\<rparr>)) s) (rwfle_at s a)
             }
             else do {
               (pre, s) \<leftarrow> GET_RWFLE tname prev False s;
               p \<leftarrow> (case pre of
                   None \<Rightarrow> Some h
                 | Some b \<Rightarrow> map_option (\<lambda>pe. if rwfle_pos_id pe \<noteq> None then b else h) (rwfle_at s b));
               pe \<leftarrow> rwfle_at s p;
               (p, q) \<leftarrow> rwfl_walk s x p (rwfle_next pe);
               s \<leftarrow> map_option (\<lambda>e. heap_put p (LRwfle (e\<lparr>rwfle_next := Some a\<rparr>)) s) (rwfle_at s p);
               map_option (\<lambda>e. heap_put a (LRwfle (e\<lparr>rwfle_next := q\<rparr>)) s) (rwfle_at s a)
             }
           })
      }" for tname ht prev a s
    unfolding rwfl_link_def heap_upd_def[abs_def] by (rule refl)
  show "rwfl_walk s x p q = (case q of
        None \<Rightarrow> Some (p, q)
      | Some q' \<Rightarrow> do {
          e \<leftarrow> rwfle_at s q';
          qpos \<leftarrow> rwfle_pos_id e;
          if leid_cmp x qpos > 0 then rwfl_walk s x q' (rwfle_next e) else Some (p, q)
        })" for s x p q
    by (rule rwfl_walk.simps)
  show "lheap s' = lheap s \<Longrightarrow> rwfle_at s' = rwfle_at s" for s s' by (rule ele_by_cell(2)[OF rwfle_at_cell])
qed (simp_all add: ele_by_cell(1)[OF rwfle_at_cell])

interpretation rll: linked_list rle_at LRle rle_pos_id rle_next "\<lambda>q e. e\<lparr>rle_next := q\<rparr>" GET_RLE rl_walk rl_link
proof
  show "rl_link tname ht prev a s = do {
        e \<leftarrow> rle_at s a;
        x \<leftarrow> rle_pos_id e;
        hd' \<leftarrow> getHead ht s;
        (case hd' of
           None \<Rightarrow> setHead ht a s
         | Some h \<Rightarrow> do {
             he \<leftarrow> rle_at s h;
             hpos \<leftarrow> rle_pos_id he;
             if leid_cmp x hpos < 0 then do {
               s \<leftarrow> setHead ht a s;
               map_option (\<lambda>e. heap_put a (LRle (e\<lparr>rle_next := Some h\<rparr>)) s) (rle_at s a)
             }
             else do {
               (pre, s) \<leftarrow> GET_RLE tname prev False s;
               p \<leftarrow> (case pre of
                   None \<Rightarrow> Some h
                 | Some b \<Rightarrow> map_option (\<lambda>pe. if rle_pos_id pe \<noteq> None then b else h) (rle_at s b));
               pe \<leftarrow> rle_at s p;
               (p, q) \<leftarrow> rl_walk s x p (rle_next pe);
               s \<leftarrow> map_option (\<lambda>e. heap_put p (LRle (e\<lparr>rle_next := Some a\<rparr>)) s) (rle_at s p);
               map_option (\<lambda>e. heap_put a (LRle (e\<lparr>rle_next := q\<rparr>)) s) (rle_at s a)
             }
           })
      }" for tname ht prev a s
    unfolding rl_link_def rl_upd_def[abs_def] by (rule refl)
  show "rl_walk s x p q = (case q of
        None \<Rightarrow> Some (p, q)
      | Some q' \<Rightarrow> do {
          e \<leftarrow> rle_at s q';
          qpos \<leftarrow> rle_pos_id e;
          if leid_cmp x qpos > 0 then rl_walk s x q' (rle_next e) else Some (p, q)
        })" for s x p q
    by (rule rl_walk.simps)
  show "lheap s' = lheap s \<Longrightarrow> rle_at s' = rle_at s" for s s' by (rule ele_by_cell(2)[OF rle_at_cell])
qed (simp_all add: ele_by_cell(1)[OF rle_at_cell])

end
