(* ===== verification/ListTable.thy ===== *)
theory ListTable
  imports LinkedList
begin

text \<open>
  The table of a replicated list: its elements by identifier, and the fields \<open>head\<close>, \<open>current\<close>,
  \<open>length\<close> and \<open>ops\<close> that share the table with them. The locale \<open>list_table\<close> extends
  \<open>linked_list\<close> with the table; \<open>list_inv\<close> is the invariant that the effects of both lists keep: the
  list of the table consists of the elements that have a position, in the order of positions.
\<close>

fun ptr_of :: "hval \<Rightarrow> addr option" where
  "ptr_of (HPtr a) = Some a"
| "ptr_of _ = None"

lemma ptr_of_Some [simp]: "ptr_of v = Some a \<longleftrightarrow> v = HPtr a"
  by (cases v) auto

definition reserved :: "sds list" where
  "reserved = [''head'', ''current'', ''length'', ''ops'']"

text \<open>The element an identifier denotes.\<close>

definition where_is :: "server \<Rightarrow> sds \<Rightarrow> sds \<Rightarrow> addr option" where
  "where_is s tname k = (if k \<in> set reserved then None else Option.bind (field s tname k) ptr_of)"

text \<open>The types of the fields.\<close>

definition fields_ok :: "sds \<Rightarrow> server \<Rightarrow> bool" where
  "fields_ok tname s \<longleftrightarrow> (db s tname = None \<or> hash_at s tname \<noteq> None) \<and>
     (\<forall>k v. field s tname k = Some v \<longrightarrow>
        (if k = ''length'' then \<exists>i. v = HInt i else if k = ''current'' then \<exists>t. v = HVc t
         else if k = ''ops'' then \<exists>l. v = HOps l else \<exists>a. v = HPtr a))"

text \<open>What an operation on one list leaves alone.\<close>

definition beside :: "sds \<Rightarrow> server \<Rightarrow> server \<Rightarrow> bool" where
  "beside tname s s' \<longleftrightarrow> p2p_count s' = p2p_count s \<and> p2p_id s' = p2p_id s \<and> replicas s' = replicas s \<and>
     mem_int s' = mem_int s \<and> (\<forall>name. name \<noteq> tname \<longrightarrow> db s' name = db s name)"

lemma beside_refl [simp]: "beside tname s s"
  by (simp add: beside_def)

lemma beside_trans: "beside tname s s' \<Longrightarrow> beside tname s' s'' \<Longrightarrow> beside tname s s''"
  by (simp add: beside_def)

lemma beside_simps [simp]:
  "beside tname s (heap_put a v s') \<longleftrightarrow> beside tname s s'" "beside tname s (incr_dirty s') \<longleftrightarrow> beside tname s s'"
  by (simp_all add: beside_def heap_put_def incr_dirty_def)

lemma field_cong: "db s' = db s \<Longrightarrow> field s' = field s"
  by (simp add: field_def hash_at_def fun_eq_iff)

lemma dirty_simps [simp]:
  "field (incr_dirty s) = field s" "hash_at (incr_dirty s) = hash_at s" "lheap (incr_dirty s) = lheap s"
  "lfresh (incr_dirty s) = lfresh s" "getHead ht (incr_dirty s) = getHead ht s"
  by (simp_all add: incr_dirty_def field_def hash_at_def fun_eq_iff getHead_def hashTypeGetValueObject_def)

lemma where_is_field: "where_is s tname k = Some a \<longleftrightarrow> k \<notin> set reserved \<and> field s tname k = Some (HPtr a)"
  by (cases "field s tname k") (auto simp: where_is_def)

lemma hash_db: "hash_at s ht \<noteq> None \<Longrightarrow> db s ht \<noteq> None"
  by (auto simp: hash_at_def split: option.splits)

lemma fields_ptr: "fields_ok tname s \<Longrightarrow> k \<notin> set reserved \<Longrightarrow> field s tname k = Some v \<Longrightarrow> \<exists>a. v = HPtr a"
  unfolding fields_ok_def reserved_def by (metis list.set_intros)

lemma rehHTGet_table:
  shows "db s tname = None \<Longrightarrow> rehHTGet mk tname [] k False s = Some (None, s)"
    and "hash_at s tname = Some h \<Longrightarrow> h k = Some v \<Longrightarrow> rehHTGet mk tname [] k c s = Some (Some v, s)"
    and "hash_at s tname = Some h \<Longrightarrow> h k = None \<Longrightarrow> rehHTGet mk tname [] k False s = Some (None, s)"
    and "hash_at s tname = Some h \<Longrightarrow> h k = None \<Longrightarrow> mk s = (v, s1) \<Longrightarrow>
      rehHTGet mk tname [] k True s = map_option (\<lambda>s. (Some v, s)) (hashTypeSet tname k v s1)"
    and "db s tname = None \<Longrightarrow>
      rehHTGet mk tname [] k True s = rehHTGet mk tname [] k True (db_put tname (OHash Map.empty) s)"
  by (auto simp: rehHTGet_def getInnerHT_def lookupKeyRead_def lookupKey_def hashTypeGetValueObject_def hash_at_def
      dbAdd_def db_put_def split: option.splits robj.splits)

locale list_table = linked_list ele cell epos enext with_next get walk link
  for ele :: "server \<Rightarrow> addr \<Rightarrow> 'e option" and cell epos enext with_next get walk link +
  fixes eoid :: "'e \<Rightarrow> sds option" and fresh :: "server \<Rightarrow> 'e"
  assumes ele_cell: "ele s a = Some e \<longleftrightarrow> lheap s a = Some (cell e)"
    and fresh_blank [simp]: "epos (fresh s) = None" "enext (fresh s) = None" "eoid (fresh s) = None"
    and fresh_db [simp]: "fresh (s\<lparr>db := d\<rparr>) = fresh s"
    and eoid_next [simp]: "eoid (with_next q e) = eoid e"
    and get_table: "get tname key create s =
      Option.bind (rehHTGet (\<lambda>s. heap_new (cell (fresh s)) s) tname [] key create s)
        (\<lambda>(v, s). case v of
           None \<Rightarrow> Some (None, s)
         | Some h \<Rightarrow> map_option (\<lambda>a. (Some a, s)) (ptr_of h))"
begin

text \<open>An element is blank until an insertion gives it a position and its identifier.\<close>

definition element_ok :: "sds \<Rightarrow> 'e \<Rightarrow> bool" where
  "element_ok k e \<longleftrightarrow> (if epos e = None then eoid e = None \<and> enext e = None else eoid e = Some k)"

definition list_inv :: "sds \<Rightarrow> server \<Rightarrow> addr list \<Rightarrow> bool" where
  "list_inv tname s as \<longleftrightarrow> fields_ok tname s \<and>
     (\<forall>k a. where_is s tname k = Some a \<longrightarrow> a < lfresh s \<and> (\<exists>e. ele s a = Some e \<and> element_ok k e)) \<and>
     (\<forall>k k' a. where_is s tname k = Some a \<longrightarrow> where_is s tname k' = Some a \<longrightarrow> k = k') \<and>
     (if db s tname = None then as = [] else listed tname s as) \<and>
     set as = {a. placed s a \<and> (\<exists>k. where_is s tname k = Some a)}"

lemma list_invD:
  assumes "list_inv tname s as"
  shows "fields_ok tname s" "where_is s tname k = Some a \<Longrightarrow> a < lfresh s"
    "where_is s tname k = Some a \<Longrightarrow> \<exists>e. ele s a = Some e \<and> element_ok k e"
    "where_is s tname k = Some a \<Longrightarrow> where_is s tname k' = Some a \<Longrightarrow> k = k'"
    "hash_at s tname \<noteq> None \<Longrightarrow> listed tname s as"
    "set as = {a. placed s a \<and> (\<exists>k. where_is s tname k = Some a)}"
  using assms by (auto simp: list_inv_def hash_at_def split: option.splits if_splits)

lemma list_inv_new: "db s tname = None \<Longrightarrow> list_inv tname s []"
  by (auto simp: list_inv_def fields_ok_def field_def hash_at_def where_is_def)

lemma get_existing:
  assumes f: "fields_ok tname s" and "k \<notin> set reserved"
  shows "get tname k False s = Some (where_is s tname k, s)"
proof (cases "db s tname")
  case None
  then show ?thesis using rehHTGet_table(1) by (simp add: get_table where_is_def field_def hash_at_def)
next
  case (Some v)
  obtain h where h: "hash_at s tname = Some h" using f Some by (auto simp: fields_ok_def)
  show ?thesis
  proof (cases "h k")
    case None
    then show ?thesis using rehHTGet_table(3)[OF h None] h by (simp add: get_table where_is_def field_def)
  next
    case (Some w)
    then obtain a where "w = HPtr a" using fields_ptr[OF f assms(2)] h by (auto simp: field_def)
    then show ?thesis using rehHTGet_table(2)[OF h Some] Some h assms(2) by (simp add: get_table where_is_def field_def)
  qed
qed

text \<open>The invariant depends on the table, and on the elements it points to.\<close>

lemma listed_cong:
  assumes "\<And>a. a \<in> set as \<Longrightarrow> ele s' a = ele s a" "hash_at s' tname \<noteq> None" "getHead tname s' = getHead tname s"
    and "listed tname s as"
  shows "listed tname s' as"
proof -
  have "ep s' a = ep s a \<and> placed s' a = placed s a" if "a \<in> set as" for a
    using assms(1)[OF that] by (simp add: ep_def placed_def)
  then have "in_order s' as"
    using assms(4) sorted_wrt_mono_rel[of as "\<lambda>a b. leid_lt (ep s a) (ep s b)" "\<lambda>a b. leid_lt (ep s' a) (ep s' b)"]
    by (simp add: listed_def in_order_def list_all_iff)
  then show ?thesis using assms path_cong[of as s' s] by (simp add: listed_def)
qed

lemma placed_cong: "ele s' a = ele s a \<Longrightarrow> placed s' a = placed s a"
  by (simp add: placed_def)

text \<open>Reading an element creates the table and a blank element when they are missing.\<close>

lemma hashed:
  assumes "list_inv tname s as" "db s tname = None"
  defines "s1 \<equiv> db_put tname (OHash Map.empty) s"
  shows "list_inv tname s1 [] \<and> as = [] \<and> hash_at s1 tname = Some Map.empty \<and> beside tname s s1 \<and>
    where_is s tname = Map.empty \<and> where_is s1 tname = Map.empty \<and> ele s1 = ele s \<and> fresh s1 = fresh s"
proof -
  have h: "hash_at s1 tname = Some Map.empty" by (simp add: s1_def hash_at_def db_put_def)
  have "getHead tname s1 = Some None" using h by (simp add: getHead_def hashTypeGetValueObject_def)
  then have "listed tname s1 []" using h by (simp add: listed_def in_order_def)
  then have "list_inv tname s1 []" using h by (simp add: list_inv_def fields_ok_def field_def where_is_def s1_def db_put_def)
  moreover have "ele s1 = ele s" by (rule ele_heap) (simp add: s1_def db_put_def)
  moreover have "fresh s1 = fresh s" by (simp add: s1_def db_put_def)
  ultimately show ?thesis using assms(1,2) h
    by (simp add: list_inv_def where_is_def field_def fun_eq_iff beside_def s1_def hash_at_def db_put_def)
qed

lemma get_create_hashed:
  assumes inv: "list_inv tname s as" and h: "hash_at s tname = Some h" and k: "k \<notin> set reserved"
  shows "\<exists>a s'. get tname k True s = Some (Some a, s') \<and> list_inv tname s' as \<and> hash_at s' tname \<noteq> None \<and>
    where_is s' tname = (where_is s tname)(k \<mapsto> a) \<and> beside tname s s' \<and>
    ele s' = (if where_is s tname k = None then (ele s)(a \<mapsto> fresh s) else ele s) \<and>
    (\<forall>k \<in> set reserved. field s' tname k = field s tname k) \<and> (\<forall>k'. where_is s tname k' = Some a \<longrightarrow> k' = k) \<and>
    where_is s tname k \<in> {None, Some a}"
proof (cases "h k")
  case (Some v)
  then obtain a where a: "v = HPtr a" using fields_ptr[OF list_invD(1)[OF inv] k] h by (auto simp: field_def)
  then have w: "where_is s tname k = Some a" using Some h k by (simp add: where_is_def field_def)
  have get: "get tname k True s = Some (Some a, s)" using rehHTGet_table(2)[OF h Some] a by (simp add: get_table)
  have inj: "\<forall>k'. where_is s tname k' = Some a \<longrightarrow> k' = k" using list_invD(4)[OF inv _ w] by blast
  have "(where_is s tname)(k \<mapsto> a) = where_is s tname" using w by (rule fun_upd_idem)
  then show ?thesis using inv h w get by (intro exI[of _ a] exI[of _ s] conjI inj) simp_all
next
  case None
  let ?a = "lfresh s"
  let ?s1 = "s\<lparr>lheap := (lheap s)(?a \<mapsto> cell (fresh s)), lfresh := Suc ?a\<rparr>"
  have w: "where_is s tname k = None" using None h by (simp add: where_is_def field_def)
  have h1: "hash_at ?s1 tname = Some h" using h by (simp add: hash_at_def)
  obtain s' where s': "hashTypeSet tname k (HPtr ?a) ?s1 = Some s'" "?s1\<lparr>db := db s'\<rparr> = s'" "hash_at s' tname \<noteq> None"
    "field s' tname = (field ?s1 tname)(k \<mapsto> HPtr ?a)" "\<And>name. name \<noteq> tname \<Longrightarrow> db s' name = db ?s1 name"
    using hashTypeSet_ok[of ?s1 tname k "HPtr ?a"] h1 by auto
  have f: "field ?s1 = field s" by (rule field_cong) simp
  have heap: "lheap s' = (lheap s)(?a \<mapsto> cell (fresh s))" "lfresh s' = Suc ?a"
    using arg_cong[OF s'(2), of lheap] arg_cong[OF s'(2), of lfresh] by simp_all
  have get: "get tname k True s = Some (Some ?a, s')"
    using rehHTGet_table(4)[OF h None, of "\<lambda>s. heap_new (cell (fresh s)) s"] s'(1) by (simp add: get_table heap_new_def)
  have wi: "where_is s' tname = (where_is s tname)(k \<mapsto> ?a)"
    using k by (auto simp: where_is_def s'(4) f fun_eq_iff)
  have el: "ele s' = (ele s)(?a \<mapsto> fresh s)"
  proof
    fix b
    have "ele s' b = ele (heap_put ?a (cell (fresh s)) s) b"
      by (rule fun_cong[OF ele_heap]) (simp add: heap heap_put_def)
    then show "ele s' b = ((ele s)(?a \<mapsto> fresh s)) b" by simp
  qed
  have old: "a \<noteq> ?a" if "where_is s tname k' = Some a" for k' a using list_invD(2)[OF inv that] by simp
  have res: "\<forall>k' \<in> set reserved. field s' tname k' = field s tname k'" using k by (auto simp: s'(4) f)
  have head: "getHead tname s' = getHead tname s"
    using h s'(3) res by (simp add: getHead_field reserved_def)
  have l: "listed tname s as" using list_invD(5)[OF inv] h by simp
  have set: "set as = {a. placed s a \<and> (\<exists>k. where_is s tname k = Some a)}" using list_invD(6)[OF inv] .
  have "listed tname s' as"
    by (rule listed_cong[OF _ s'(3) head l]) (use set old el in auto)
  moreover have "fields_ok tname s'"
    using list_invD(1)[OF inv] s'(3) k by (auto simp: fields_ok_def s'(4) f reserved_def)
  moreover have "set as = {a. placed s' a \<and> (\<exists>k. where_is s' tname k = Some a)}"
  proof -
    have "(\<exists>k'. where_is s' tname k' = Some b) \<longleftrightarrow> b = ?a \<or> (\<exists>k'. where_is s tname k' = Some b)" for b
      unfolding wi using w by (metis fun_upd_apply option.inject option.distinct(1))
    moreover have "placed s' b \<longleftrightarrow> b \<noteq> ?a \<and> placed s b" for b by (simp add: placed_def el)
    ultimately show ?thesis unfolding set using old by auto
  qed
  moreover have "\<forall>k' a. where_is s' tname k' = Some a \<longrightarrow> a < lfresh s' \<and> (\<exists>e. ele s' a = Some e \<and> element_ok k' e)"
    using list_invD(2,3)[OF inv] old by (auto simp: wi el heap(2) element_ok_def less_Suc_eq split: if_splits)
  moreover have "\<forall>k1 k2 a. where_is s' tname k1 = Some a \<longrightarrow> where_is s' tname k2 = Some a \<longrightarrow> k1 = k2"
    using list_invD(4)[OF inv] old unfolding wi by (metis fun_upd_apply option.inject)
  moreover have "db s' tname \<noteq> None" using s'(3) by (rule hash_db)
  ultimately have inv': "list_inv tname s' as" by (auto simp: list_inv_def)
  have "beside tname s s'"
    using s'(5) arg_cong[OF s'(2), of p2p_count] arg_cong[OF s'(2), of p2p_id] arg_cong[OF s'(2), of replicas]
      arg_cong[OF s'(2), of mem_int] by (simp add: beside_def)
  moreover have "\<forall>k'. where_is s tname k' = Some ?a \<longrightarrow> k' = k" using old by blast
  ultimately show ?thesis using get inv' s'(3) wi el w res by (intro exI[of _ ?a] exI[of _ s'] conjI) simp_all
qed

lemma get_create:
  assumes inv: "list_inv tname s as" and k: "k \<notin> set reserved"
  obtains a s' where "get tname k True s = Some (Some a, s')" "list_inv tname s' as" "hash_at s' tname \<noteq> None"
    "where_is s' tname = (where_is s tname)(k \<mapsto> a)" "beside tname s s'"
    "ele s' = (if where_is s tname k = None then (ele s)(a \<mapsto> fresh s) else ele s)"
    "\<And>k. k \<in> set reserved \<Longrightarrow> field s' tname k = field s tname k" "\<And>k'. where_is s tname k' = Some a \<Longrightarrow> k' = k"
    "where_is s tname k \<in> {None, Some a}"
proof (cases "db s tname")
  case None
  let ?s = "db_put tname (OHash Map.empty) s"
  note h = hashed[OF inv None]
  have "get tname k True s = get tname k True ?s" using rehHTGet_table(5)[OF None] by (simp add: get_table)
  moreover have "field ?s tname k = field s tname k" for k using None h by (simp add: field_def hash_at_def)
  ultimately show ?thesis
    using get_create_hashed[of tname ?s as Map.empty k] h k that beside_trans[of tname s ?s] by auto
next
  case (Some v)
  then obtain h where "hash_at s tname = Some h" using list_invD(1)[OF inv] by (auto simp: fields_ok_def)
  from get_create_hashed[OF inv this k] show ?thesis using that by blast
qed

text \<open>Changing the data of an element.\<close>

lemma put_element:
  assumes inv: "list_inv tname s as" and a: "where_is s tname k = Some a" "ele s a = Some e"
    and e': "epos e' = epos e" "enext e' = enext e" "eoid e' = eoid e"
  shows "list_inv tname (heap_put a (cell e') s) as"
proof -
  let ?s = "heap_put a (cell e') s"
  have w: "where_is ?s = where_is s" by (simp add: where_is_def fun_eq_iff)
  have p: "placed ?s = placed s" using a(2) e'(1) by (auto simp: placed_def fun_eq_iff)
  have q: "ep ?s = ep s" using a(2) e'(1) by (auto simp: ep_def fun_eq_iff)
  have path: "path ?s h bs q = path s h bs q" for h bs q
    using a(2) e'(2) by (induction bs arbitrary: h) (auto split: option.splits)
  have "listed tname ?s as = listed tname s as" by (simp add: listed_def in_order_def path p q)
  moreover have "lfresh ?s = lfresh s" "db ?s = db s" by (simp_all add: heap_put_def)
  moreover have "fields_ok tname ?s = fields_ok tname s" by (simp add: fields_ok_def)
  moreover have "\<exists>d. ele ?s b = Some d \<and> element_ok k' d" if "where_is s tname k' = Some b" for k' b
    using list_invD(3)[OF inv that] a(2) e' by (auto simp: element_ok_def)
  ultimately show ?thesis using inv unfolding list_inv_def w p by auto
qed

text \<open>Setting a field that is not the head.\<close>

lemma set_field:
  assumes inv: "list_inv tname s as" and h: "hash_at s tname \<noteq> None"
    and v: "f = ''length'' \<and> (\<exists>i. v = HInt i) \<or> f = ''current'' \<and> (\<exists>t. v = HVc t) \<or> f = ''ops'' \<and> (\<exists>l. v = HOps l)"
  obtains s' where "hashTypeSet tname f v s = Some s'" "list_inv tname s' as" "hash_at s' tname \<noteq> None"
    "where_is s' tname = where_is s tname" "beside tname s s'" "ele s' = ele s" "field s' tname = (field s tname)(f \<mapsto> v)"
proof -
  obtain s' where s': "hashTypeSet tname f v s = Some s'" "s\<lparr>db := db s'\<rparr> = s'" "hash_at s' tname \<noteq> None"
    "field s' tname = (field s tname)(f \<mapsto> v)" "\<And>name. name \<noteq> tname \<Longrightarrow> db s' name = db s name"
    using hashTypeSet_ok[OF h] by blast
  have el: "ele s' = ele s" by (rule ele_heap) (use arg_cong[OF s'(2), of lheap] in simp)
  have fr: "lfresh s' = lfresh s" using arg_cong[OF s'(2), of lfresh] by simp
  have f: "f \<in> set reserved" "f \<noteq> ''head''" using v by (auto simp: reserved_def)
  have w: "where_is s' tname = where_is s tname" using f by (auto simp: where_is_def s'(4) fun_eq_iff)
  have "getHead tname s' = getHead tname s" using h s'(3) f(2) by (simp add: getHead_field s'(4))
  then have l: "listed tname s' as" using listed_cong[of as s' s] el s'(3) list_invD(5)[OF inv h] by simp
  have "fields_ok tname s'" using list_invD(1)[OF inv] s'(3) v by (auto simp: fields_ok_def s'(4))
  moreover have "placed s' = placed s" by (simp add: placed_def el fun_eq_iff)
  moreover have "db s' tname \<noteq> None" "db s tname \<noteq> None" using s'(3) h hash_db by auto
  ultimately have "list_inv tname s' as"
    using list_invD(2-4,6)[OF inv] l unfolding list_inv_def w el fr by auto
  moreover have "beside tname s s'"
    using s'(5) arg_cong[OF s'(2), of p2p_count] arg_cong[OF s'(2), of p2p_id] arg_cong[OF s'(2), of replicas]
      arg_cong[OF s'(2), of mem_int] by (simp add: beside_def)
  ultimately show ?thesis using that s'(1,3,4) w el by blast
qed

text \<open>An insertion gives a blank element its identifier and position, and links it at the place of that
  position, when the position is new and the hint comes before it.\<close>

lemma ins_set: "set (ins s x a as) = insert a (set as)"
proof -
  let ?P = "\<lambda>b. leid_lt (ep s b) x"
  have "set as = set (takeWhile ?P as) \<union> set (dropWhile ?P as)"
    by (metis set_append takeWhile_dropWhile_id)
  then show ?thesis by (auto simp: ins_def)
qed

lemma placed_element:
  assumes "list_inv tname s as" "where_is s tname k = Some b" "placed s b"
  shows "b \<in> set as"
  using assms list_invD(6)[OF assms(1)] by blast

lemma head_ok:
  assumes "fields_ok tname s" "listed tname s' bs" "\<And>k. k \<noteq> ''head'' \<Longrightarrow> field s' tname k = field s tname k"
  shows "fields_ok tname s'"
proof -
  have hd: "\<exists>a. v = HPtr a" if "field s' tname ''head'' = Some v" for v
    using that assms(2) getHead_field[of s' tname] by (cases v) (auto simp: listed_def)
  have "if k = ''length'' then \<exists>i. v = HInt i else if k = ''current'' then \<exists>t. v = HVc t
         else if k = ''ops'' then \<exists>l. v = HOps l else \<exists>a. v = HPtr a" if "field s' tname k = Some v" for k v
    using that hd[of v] assms(1) assms(3)[of k] by (cases "k = ''head''") (simp_all add: fields_ok_def)
  then show ?thesis using assms(2) by (simp add: fields_ok_def listed_def)
qed

lemma same_elements_ok:
  assumes "same_elements s s'" "ele s b = Some d" "epos d \<noteq> None" "eoid d = Some k"
  shows "\<exists>d'. ele s' b = Some d' \<and> element_ok k d'"
proof -
  obtain d' where d': "ele s' b = Some d'" "with_next None d' = with_next None d"
    using assms(1,2) by (fastforce simp: same_elements_def map_option_case split: option.splits)
  have "epos d' = epos d" "eoid d' = eoid d" using arg_cong[OF d'(2), of epos] arg_cong[OF d'(2), of eoid] by simp_all
  then show ?thesis using d'(1) assms(3,4) by (auto simp: element_ok_def)
qed

lemma place:
  assumes inv: "list_inv tname s as" and h: "hash_at s tname \<noteq> None"
    and a: "where_is s tname k = Some a" "ele s a = Some e" "epos e = None"
    and e': "epos e' = Some x" "enext e' = None" "eoid e' = Some k"
    and new: "\<And>b. b \<in> set as \<Longrightarrow> ep s b \<noteq> x"
    and prev: "prev \<notin> set reserved" "prev \<noteq> k"
      "\<And>b. where_is s tname prev = Some b \<Longrightarrow> placed s b \<Longrightarrow> leid_lt (ep s b) x"
  defines "s1 \<equiv> heap_put a (cell e') s"
  obtains s' where "link tname tname prev a s1 = Some s'" "list_inv tname s' (ins s1 x a as)" "hash_at s' tname \<noteq> None"
    "where_is s' tname = where_is s tname" "beside tname s s'" "same_elements s1 s'"
    "\<And>f. f \<noteq> ''head'' \<Longrightarrow> field s' tname f = field s tname f"
proof -
  have f: "fields_ok tname s" using list_invD(1)[OF inv] .
  have w1: "where_is s1 = where_is s" by (simp add: s1_def where_is_def fun_eq_iff)
  have f1: "fields_ok tname s1" using f by (simp add: fields_ok_def s1_def)
  have na: "a \<notin> set as" using list_invD(6)[OF inv] a by (auto simp: placed_def)
  have el: "ele s1 b = (if b = a then Some e' else ele s b)" for b by (simp add: s1_def)
  have ep1: "ep s1 b = ep s b" "placed s1 b = placed s b" if "b \<noteq> a" for b
    using that by (simp_all add: ep_def placed_def el)
  have l1: "listed tname s1 as"
    by (rule listed_cong[OF _ _ _ list_invD(5)[OF inv h]]) (use na h in \<open>auto simp: s1_def\<close>)
  have "hint_ok tname prev s1 x as"
  proof -
    have "b \<noteq> a \<and> ele s b \<noteq> None" if "where_is s tname prev = Some b" for b
      using that list_invD(3)[OF inv that] list_invD(4)[OF inv _ a(1), of prev] prev(2) by auto
    then show ?thesis
      unfolding hint_ok_def get_existing[OF f1 prev(1)] w1
      using prev(3) placed_element[OF inv] by (auto simp: ep1 el split: option.splits)
  qed
  moreover have "\<forall>b \<in> set as. ep s1 b \<noteq> x" using new na ep1 by metis
  ultimately obtain s' where s': "link tname tname prev a s1 = Some s'" "listed tname s' (ins s1 x a as)"
    "relinked tname s1 s'" "\<And>b. b \<notin> set (a # as) \<Longrightarrow> ele s' b = ele s1 b"
    using link_ok[OF l1 _ e'(1,2) na, of tname prev] el[of a] unfolding if_P[OF refl] by blast
  have fld: "field s' tname f = field s tname f" if "f \<noteq> ''head''" for f
    using s'(3) that by (simp add: relinked_def s1_def)
  have w: "where_is s' tname = where_is s tname"
    using fld by (auto simp: where_is_def fun_eq_iff reserved_def)
  have same: "same_elements s1 s'" and fr: "s1\<lparr>db := db s', lheap := lheap s'\<rparr> = s'"
    using s'(3) by (simp_all add: relinked_def)
  have lf: "lfresh s' = lfresh s" using arg_cong[OF fr, of lfresh] by (simp add: s1_def heap_put_def)
  have pl: "placed s' b \<longleftrightarrow> b = a \<or> placed s b" for b
    using same_elements_pos[OF same] ep1(2)[of b] e'(1) el by (cases "b = a") (auto simp: placed_def)
  show ?thesis
  proof (rule that[OF s'(1) _ _ w _ same fld])
    show "hash_at s' tname \<noteq> None" using s'(2) by (simp add: listed_def)
    have "\<forall>name. name \<noteq> tname \<longrightarrow> db s' name = db s name" using s'(3) by (simp add: relinked_def s1_def)
    then show "beside tname s s'"
      using arg_cong[OF fr, of p2p_count] arg_cong[OF fr, of p2p_id] arg_cong[OF fr, of replicas]
        arg_cong[OF fr, of mem_int] by (simp add: beside_def s1_def heap_put_def)
    have "\<exists>e. ele s' b = Some e \<and> element_ok k' e" if b: "where_is s tname k' = Some b" for k' b
    proof (cases "b \<in> set (a # as)")
      case True
      have "k' = k" if "b = a" using list_invD(4)[OF inv b] a(1) that by simp
      then obtain d where d: "ele s1 b = Some d" "epos d \<noteq> None" "eoid d = Some k'"
        using list_invD(3)[OF inv b] list_invD(6)[OF inv] b True e'
        by (cases "b = a") (auto simp: el placed_def element_ok_def split: if_splits)
      then show ?thesis using same_elements_ok[OF same d] by blast
    next
      case False
      then show ?thesis using s'(4)[OF False] el list_invD(3)[OF inv b] by auto
    qed
    moreover have "set (ins s1 x a as) = {b. placed s' b \<and> (\<exists>k. where_is s tname k = Some b)}"
      using list_invD(6)[OF inv] a(1) by (auto simp: ins_set pl)
    moreover have "db s' tname \<noteq> None" using s'(2) hash_db by (auto simp: listed_def)
    ultimately show "list_inv tname s' (ins s1 x a as)"
      using s'(2) head_ok[OF f s'(2) fld] list_invD(2,4)[OF inv] unfolding list_inv_def w lf by auto
  qed
qed

end

section \<open>The two lists\<close>

interpretation rwflt: list_table rwfle_at LRwfle rwfle_pos_id rwfle_next "\<lambda>q e. e\<lparr>rwfle_next := q\<rparr>" GET_RWFLE rwfl_walk
  rwfl_link rwfle_oid "\<lambda>s. rwfleNew (mem_int s (lfresh s)) (p2p_count s) (p2p_id s)"
  by unfold_locales (auto simp: rwfle_at_cell rwfleNew_def GET_RWFLE_def intro!: Option.bind_cong split: option.splits hval.splits)

interpretation rlt: list_table rle_at LRle rle_pos_id rle_next "\<lambda>q e. e\<lparr>rle_next := q\<rparr>" GET_RLE rl_walk
  rl_link rle_oid "\<lambda>s. rleNew"
  by unfold_locales (auto simp: rle_at_cell rleNew_def GET_RLE_def intro!: Option.bind_cong split: option.splits hval.splits)

end
