(* ===== verification/ListSlots.thy ===== *)
theory ListSlots
  imports ListTable
begin

text \<open>
  A replicated list seen as a map from identifiers to elements. Reading, changing and placing an
  element each update one entry of the map, and the query that walks the list replies the elements
  of the map that have a position, in the order of positions.
\<close>

section \<open>The length field\<close>

definition list_len :: "server \<Rightarrow> sds \<Rightarrow> int" where
  "list_len s tname = (case field s tname ''length'' of Some (HInt i) \<Rightarrow> i | _ \<Rightarrow> 0)"

lemma getLen_list_len:
  assumes "fields_ok tname s" "hash_at s tname \<noteq> None"
  shows "getLen tname s = Some (list_len s tname)"
proof -
  obtain h where h: "hash_at s tname = Some h" using assms(2) by auto
  have "\<exists>i. v = HInt i" if "h ''length'' = Some v" for v
    using assms(1) that h by (simp add: fields_ok_def field_def)
  then show ?thesis
    using h by (auto simp: getLen_def hashTypeGetValueObject_def list_len_def field_def split: option.splits)
qed

lemma GET_LIST_HT_hash: "hash_at s tname \<noteq> None \<Longrightarrow> GET_LIST_HT tname c s = Some (Some tname, s)"
  by (auto simp: GET_LIST_HT_def getInnerHT_def lookupKeyRead_def lookupKey_def hash_at_def split: option.splits robj.splits)

lemma list_len_dirty [simp]: "list_len (incr_dirty s) = list_len s" "list_len (heap_put a v s) = list_len s"
  by (simp_all add: list_len_def fun_eq_iff)

lemma sorted_wrt_unique:
  assumes "\<And>x. \<not> R x x" "\<And>x y z. R x y \<Longrightarrow> R y z \<Longrightarrow> R x z" "sorted_wrt R xs" "sorted_wrt R ys" "set xs = set ys"
  shows "xs = ys"
  using assms(3-5)
proof (induction xs arbitrary: ys)
  case (Cons x xs)
  then obtain y zs where ys: "ys = y # zs" by (cases ys) auto
  have "x = y" using Cons.prems ys assms(1,2) by (metis list.set_intros(1) set_ConsD sorted_wrt.simps(2))
  moreover have "x \<notin> set xs" "y \<notin> set zs" using Cons.prems ys assms(1) by auto
  ultimately have "set xs = set zs" using Cons.prems(3) ys by auto
  then show ?case using Cons ys \<open>x = y\<close> by auto
qed simp

lemma card_change:
  assumes "finite A" "finite B" "A - {x} = B - {x}"
  shows "int (card B) = int (card A) + (of_bool (x \<in> B) - of_bool (x \<in> A))"
proof -
  have c: "int (card A) = int (card (A - {x})) + of_bool (x \<in> A)" if "finite A" for A :: "'a set"
    using card.remove[OF that, of x] by (cases "x \<in> A") auto
  show ?thesis using c[OF assms(1)] c[OF assms(2)] assms(3) by simp
qed

section \<open>Elements by identifier\<close>

context list_table
begin

definition slot :: "server \<Rightarrow> sds \<Rightarrow> sds \<Rightarrow> 'e option" where
  "slot s tname k = Option.bind (where_is s tname k) (\<lambda>a. map_option (with_next None) (ele s a))"

definition holds :: "sds \<Rightarrow> addr list \<Rightarrow> sds \<Rightarrow> addr \<Rightarrow> 'e \<Rightarrow> server \<Rightarrow> bool" where
  "holds tname as k a e s \<longleftrightarrow> list_inv tname s as \<and> hash_at s tname \<noteq> None \<and> where_is s tname k = Some a \<and> ele s a = Some e"

lemma holds_slot: "holds tname as k a e s \<Longrightarrow> slot s tname k = Some (with_next None e)"
  by (simp add: holds_def slot_def)

lemma slot_cong: "where_is s' tname = where_is s tname \<Longrightarrow> ele s' = ele s \<Longrightarrow> slot s' tname = slot s tname"
  by (simp add: slot_def fun_eq_iff)

lemma slot_upd:
  assumes "where_is s' tname = (where_is s tname)(k \<mapsto> a)" "\<And>k'. where_is s tname k' = Some a \<Longrightarrow> k' = k"
    and "\<And>b. b \<noteq> a \<Longrightarrow> map_option (with_next None) (ele s' b) = map_option (with_next None) (ele s b)" "ele s' a = Some e"
  shows "slot s' tname = (slot s tname)(k \<mapsto> with_next None e)"
proof
  fix k'
  show "slot s' tname k' = ((slot s tname)(k \<mapsto> with_next None e)) k'"
    using assms(1,3,4) assms(2)[of k'] by (cases "where_is s tname k'") (auto simp: slot_def)
qed

lemma get_slot:
  assumes "list_inv tname s as" "k \<notin> set reserved"
  obtains a s' e where "get tname k True s = Some (Some a, s')" "holds tname as k a e s'" "beside tname s s'"
    "slot s tname k = Some (with_next None e) \<or> slot s tname k = None \<and> e = fresh s"
    "slot s' tname = (slot s tname)(k \<mapsto> with_next None e)" "list_len s' tname = list_len s tname"
    "\<forall>f \<in> set reserved. field s' tname f = field s tname f"
proof -
  obtain a s' where s': "get tname k True s = Some (Some a, s')" "list_inv tname s' as" "hash_at s' tname \<noteq> None"
    "where_is s' tname = (where_is s tname)(k \<mapsto> a)" "beside tname s s'"
    "ele s' = (if where_is s tname k = None then (ele s)(a \<mapsto> fresh s) else ele s)"
    "\<And>k. k \<in> set reserved \<Longrightarrow> field s' tname k = field s tname k" "\<And>k'. where_is s tname k' = Some a \<Longrightarrow> k' = k"
    "where_is s tname k \<in> {None, Some a}"
    using get_create[OF assms] by blast
  obtain e where e: "ele s' a = Some e" using list_invD(3)[OF s'(2), of k a] s'(4) by auto
  have h: "holds tname as k a e s'" using s'(2,3,4) e by (simp add: holds_def)
  have len: "list_len s' tname = list_len s tname" using s'(7) by (simp add: list_len_def reserved_def)
  have sl: "slot s' tname = (slot s tname)(k \<mapsto> with_next None e)"
    by (rule slot_upd[OF s'(4,8) _ e]) (simp_all add: s'(6))
  have "slot s tname k = Some (with_next None e) \<or> slot s tname k = None \<and> e = fresh s"
  proof (cases "where_is s tname k")
    case None
    then show ?thesis using e s'(6) by (simp add: slot_def)
  next
    case (Some b)
    then have "b = a" using s'(9) by simp
    then show ?thesis using Some e s'(6) by (simp add: slot_def)
  qed
  then show ?thesis using that s'(1,5,7) h sl len by blast
qed

lemma put_slot:
  assumes h: "holds tname as k a e s" and e': "epos e' = epos e" "enext e' = enext e" "eoid e' = eoid e"
  shows "holds tname as k a e' (heap_put a (cell e') s)"
    "slot (heap_put a (cell e') s) tname = (slot s tname)(k \<mapsto> with_next None e')"
proof -
  have w: "where_is (heap_put a (cell e') s) = where_is s" by (simp add: where_is_def fun_eq_iff)
  show "holds tname as k a e' (heap_put a (cell e') s)"
    using h put_element[OF _ _ _ e', of tname s as k a] by (simp add: holds_def w)
  have "k' = k" if "where_is s tname k' = Some a" for k'
    using h list_invD(4)[of tname s as k' a k] that by (simp add: holds_def)
  moreover have "(where_is s tname)(k \<mapsto> a) = where_is s tname" using h by (auto simp: holds_def)
  ultimately show "slot (heap_put a (cell e') s) tname = (slot s tname)(k \<mapsto> with_next None e')"
    using slot_upd[of "heap_put a (cell e') s" tname s k a e'] by (simp add: w)
qed

lemma dirty_slot [simp]:
  "holds tname as k a e (incr_dirty s) = holds tname as k a e s" "slot (incr_dirty s) = slot s"
  "list_inv tname (incr_dirty s) as = list_inv tname s as"
proof -
  have el: "ele (incr_dirty s) = ele s" by (rule ele_heap) simp
  have p: "path (incr_dirty s) h as q = path s h as q" for h q by (rule path_cong) (simp add: el)
  have w: "where_is (incr_dirty s) = where_is s" by (simp add: where_is_def fun_eq_iff)
  have d: "db (incr_dirty s) = db s" by (simp add: incr_dirty_def)
  have e: "placed (incr_dirty s) = placed s" "ep (incr_dirty s) = ep s" by (simp_all add: placed_def ep_def el fun_eq_iff)
  have "fields_ok tname (incr_dirty s) = fields_ok tname s" by (simp add: fields_ok_def d)
  then show inv: "list_inv tname (incr_dirty s) as = list_inv tname s as"
    by (simp add: list_inv_def listed_def in_order_def p e el w d)
  show "slot (incr_dirty s) = slot s" by (simp add: slot_def fun_eq_iff el w)
  show "holds tname as k a e (incr_dirty s) = holds tname as k a e s" by (simp add: holds_def inv el w)
qed

lemma field_slot:
  assumes h: "holds tname as k a e s"
    and v: "f = ''length'' \<and> (\<exists>i. v = HInt i) \<or> f = ''current'' \<and> (\<exists>t. v = HVc t) \<or> f = ''ops'' \<and> (\<exists>l. v = HOps l)"
  obtains s' where "hashTypeSet tname f v s = Some s'" "holds tname as k a e s'" "beside tname s s'"
    "slot s' tname = slot s tname" "field s' tname = (field s tname)(f \<mapsto> v)" "ele s' = ele s"
proof -
  obtain s' where s': "hashTypeSet tname f v s = Some s'" "list_inv tname s' as" "hash_at s' tname \<noteq> None"
    "where_is s' tname = where_is s tname" "beside tname s s'" "ele s' = ele s" "field s' tname = (field s tname)(f \<mapsto> v)"
    using set_field[OF _ _ v, of tname s as] h by (auto simp: holds_def)
  then show ?thesis using that h slot_cong[OF s'(4,6)] by (simp add: holds_def)
qed

lemma incrLen_slot:
  assumes h: "holds tname as k a e s" and i: "i \<noteq> 0"
  obtains s' where "incrLen tname i s = Some s'" "holds tname as k a e s'" "beside tname s s'"
    "slot s' tname = slot s tname" "list_len s' tname = list_len s tname + i" "ele s' = ele s"
    "\<forall>f. f \<noteq> ''length'' \<longrightarrow> field s' tname f = field s tname f"
proof -
  obtain s' where s': "hashTypeSet tname ''length'' (HInt (list_len s tname + i)) s = Some s'" "holds tname as k a e s'"
    "beside tname s s'" "slot s' tname = slot s tname"
    "field s' tname = (field s tname)(''length'' \<mapsto> HInt (list_len s tname + i))" "ele s' = ele s"
    using field_slot[OF h, of "''length''" "HInt (list_len s tname + i)"] by blast
  have len: "getLen tname s = Some (list_len s tname)"
    by (rule getLen_list_len) (use h list_invD(1)[of tname s as] in \<open>simp_all add: holds_def\<close>)
  have "list_len s' tname = list_len s tname + i" unfolding list_len_def[of s'] s'(5) by simp
  moreover have "incrLen tname i s = Some s'" using i len s'(1) by (simp add: incrLen_def)
  moreover have "\<forall>f. f \<noteq> ''length'' \<longrightarrow> field s' tname f = field s tname f" by (simp add: s'(5))
  ultimately show ?thesis using that s'(2-4,6) by blast
qed

lemma placed_slot:
  assumes "where_is s tname k = Some b" "placed s b"
  shows "\<exists>d. slot s tname k = Some d \<and> epos d = Some (ep s b)"
proof -
  obtain d where "ele s b = Some d" "epos d = Some (ep s b)" using placedE[OF assms(2)] by blast
  then show ?thesis using assms(1) by (simp add: slot_def)
qed

lemma place_slot:
  assumes h: "holds tname as k a e s" and e: "epos e = None"
    and e': "epos e' = Some x" "enext e' = None" "eoid e' = Some k"
    and new: "\<And>k' d. slot s tname k' = Some d \<Longrightarrow> epos d \<noteq> Some x"
    and prev: "prev \<notin> set reserved" "prev \<noteq> k" "\<And>d y. slot s tname prev = Some d \<Longrightarrow> epos d = Some y \<Longrightarrow> leid_lt y x"
  obtains s' as' e'' where "link tname tname prev a (heap_put a (cell e') s) = Some s'" "holds tname as' k a e'' s'"
    "with_next None e'' = with_next None e'" "slot s' tname = (slot s tname)(k \<mapsto> with_next None e')"
    "beside tname s s'" "list_len s' tname = list_len s tname" "\<forall>f. f \<noteq> ''head'' \<longrightarrow> field s' tname f = field s tname f"
proof -
  have h': "list_inv tname s as" "hash_at s tname \<noteq> None" "where_is s tname k = Some a" "ele s a = Some e"
    using h by (simp_all add: holds_def)
  let ?s1 = "heap_put a (cell e') s"
  have new': "ep s b \<noteq> x" if b: "b \<in> set as" for b
  proof -
    obtain k' where k': "placed s b" "where_is s tname k' = Some b" using b unfolding list_invD(6)[OF h'(1)] by blast
    obtain d where d: "slot s tname k' = Some d" "epos d = Some (ep s b)" using placed_slot[OF k'(2,1)] by blast
    show ?thesis using new[OF d(1)] d(2) by simp
  qed
  have prev': "leid_lt (ep s b) x" if "where_is s tname prev = Some b" "placed s b" for b
    using placed_slot[OF that] prev(3) by blast
  obtain s' where s': "link tname tname prev a ?s1 = Some s'" "list_inv tname s' (ins ?s1 x a as)" "hash_at s' tname \<noteq> None"
    "where_is s' tname = where_is s tname" "beside tname s s'" "same_elements ?s1 s'"
    "\<And>f. f \<noteq> ''head'' \<Longrightarrow> field s' tname f = field s tname f"
    using place[OF h' e e' new' prev(1,2) prev'] by blast
  have el: "map_option (with_next None) (ele s' b) = map_option (with_next None) (if b = a then Some e' else ele s b)" for b
    using s'(6) by (simp add: same_elements_def)
  obtain e'' where e'': "ele s' a = Some e''" "with_next None e'' = with_next None e'" using el[of a] by auto
  have "k' = k" if "where_is s tname k' = Some a" for k' using list_invD(4)[OF h'(1) that h'(3)] .
  moreover have "where_is s' tname = (where_is s tname)(k \<mapsto> a)" using s'(4) h'(3) by auto
  ultimately have "slot s' tname = (slot s tname)(k \<mapsto> with_next None e'')"
    using slot_upd[of s' tname s k a e''] el e''(1) by simp
  moreover have "list_len s' tname = list_len s tname" using s'(7) by (simp add: list_len_def)
  ultimately show ?thesis using that[OF s'(1), of "ins ?s1 x a as" e''] s'(2-5,7) h'(3) e'' by (simp add: holds_def)
qed

end

section \<open>The walk of a query\<close>

locale list_query = list_table ele cell epos enext with_next get walk link eoid fresh
  for ele :: "server \<Rightarrow> addr \<Rightarrow> 'e option" and cell epos enext with_next get walk link eoid fresh +
  fixes loop :: "server \<Rightarrow> addr option \<Rightarrow> client \<Rightarrow> client option" and shown :: "'e \<Rightarrow> rep list option"
  assumes loop_unfold: "loop s q c = (case q of
        None \<Rightarrow> Some c
      | Some a \<Rightarrow> do {
          e \<leftarrow> ele s a;
          rs \<leftarrow> shown e;
          loop s (enext e) (fold addReply rs c)
        })"
    and shown_next [simp]: "shown (with_next q e) = shown e"
begin

text \<open>The reply for a list of identifiers.\<close>

definition reply_for :: "(sds \<Rightarrow> 'e option) \<Rightarrow> sds list \<Rightarrow> rep list" where
  "reply_for m ks = concat (map (\<lambda>k. the (Option.bind (m k) shown)) ks)"

definition pos_at :: "(sds \<Rightarrow> 'e option) \<Rightarrow> sds \<Rightarrow> leid" where
  "pos_at m k = the (Option.bind (m k) epos)"

text \<open>The identifiers that have a position, in the order of positions.\<close>

definition ordered_keys :: "(sds \<Rightarrow> 'e option) \<Rightarrow> sds list \<Rightarrow> bool" where
  "ordered_keys m ks \<longleftrightarrow> set ks = {k. Option.bind (m k) epos \<noteq> None} \<and> sorted_wrt (\<lambda>k k'. leid_lt (pos_at m k) (pos_at m k')) ks"

lemma ordered_keys_unique:
  assumes "ordered_keys m ks" "ordered_keys m' ks'" "\<And>k. Option.bind (m' k) epos = Option.bind (m k) epos"
  shows "ks' = ks"
proof -
  have p: "pos_at m' = pos_at m" by (simp add: pos_at_def assms(3) fun_eq_iff)
  show ?thesis
    by (rule sorted_wrt_unique[of "\<lambda>k k'. leid_lt (pos_at m k) (pos_at m k')"])
      (use assms leid_lt_trans in \<open>auto simp: ordered_keys_def p\<close>)
qed

lemma loop_ok:
  assumes "path s h as None" "\<And>a. a \<in> set as \<Longrightarrow> Option.bind (ele s a) shown = Some (f a)"
  shows "loop s h c = Some (fold addReply (concat (map f as)) c)"
  using assms
proof (induction as arbitrary: h c)
  case Nil
  then show ?case by (simp add: loop_unfold)
next
  case (Cons a as)
  then obtain e where e: "h = Some a" "ele s a = Some e" "path s (enext e) as None" by (auto split: option.splits)
  moreover have "shown e = Some (f a)" using Cons.prems(2)[of a] e(2) by simp
  moreover have "loop s (enext e) c = Some (fold addReply (concat (map f as)) c)" for c
    by (rule Cons.IH[OF e(3)]) (use Cons.prems(2) in simp)
  ultimately show ?case by (subst loop_unfold) simp
qed

lemma query_ok:
  assumes inv: "list_inv tname s as" and h: "hash_at s tname \<noteq> None"
    and sh: "\<And>k d. slot s tname k = Some d \<Longrightarrow> epos d \<noteq> None \<Longrightarrow> shown d \<noteq> None"
  obtains hd' ks where "getHead tname s = Some hd'" "ordered_keys (slot s tname) ks"
    "\<And>c. loop s hd' c = Some (fold addReply (reply_for (slot s tname) ks) c)"
proof -
  define key where "key = (\<lambda>a. the (Option.bind (ele s a) eoid))"
  have l: "listed tname s as" using list_invD(5)[OF inv h] .
  have key: "where_is s tname (key a) = Some a \<and> (\<exists>e. ele s a = Some e \<and> epos e = Some (ep s a) \<and> slot s tname (key a) = Some (with_next None e))"
    if a: "a \<in> set as" for a
  proof -
    obtain k where k: "placed s a" "where_is s tname k = Some a" using a unfolding list_invD(6)[OF inv] by blast
    obtain e where e: "ele s a = Some e" "epos e = Some (ep s a)" using placedE[OF k(1)] by blast
    then have "key a = k" using list_invD(3)[OF inv k(2)] by (auto simp: key_def element_ok_def)
    then show ?thesis using k(2) e by (simp add: slot_def)
  qed
  have pos: "pos_at (slot s tname) (key a) = ep s a" if "a \<in> set as" for a using key[OF that] by (auto simp: pos_at_def)
  have "set (map key as) = {k. Option.bind (slot s tname k) epos \<noteq> None}"
  proof (intro equalityI subsetI)
    fix k assume "k \<in> set (map key as)"
    then show "k \<in> {k. Option.bind (slot s tname k) epos \<noteq> None}" using key by fastforce
  next
    fix k assume "k \<in> {k. Option.bind (slot s tname k) epos \<noteq> None}"
    then obtain a where a: "where_is s tname k = Some a" "placed s a"
      by (auto simp: slot_def placed_def split: bind_splits)
    then have m: "a \<in> set as" by (rule placed_element[OF inv])
    have "key a = k" using list_invD(4)[OF inv a(1)] key[OF m] by metis
    then show "k \<in> set (map key as)" using m by auto
  qed
  moreover have "sorted_wrt (\<lambda>k k'. leid_lt (pos_at (slot s tname) k) (pos_at (slot s tname) k')) (map key as)"
    unfolding sorted_wrt_map
    by (rule sorted_wrt_mono_rel[of as "\<lambda>a b. leid_lt (ep s a) (ep s b)"])
      (use l pos in \<open>auto simp: listed_def in_order_def\<close>)
  ultimately have ok: "ordered_keys (slot s tname) (map key as)" by (simp add: ordered_keys_def)
  have "loop s (first_of as) c = Some (fold addReply (reply_for (slot s tname) (map key as)) c)" for c
  proof -
    have "Option.bind (ele s a) shown = Some (the (Option.bind (slot s tname (key a)) shown))" if a: "a \<in> set as" for a
      using key[OF a] sh by fastforce
    then show ?thesis
      using loop_ok[of s "first_of as" as "\<lambda>a. the (Option.bind (slot s tname (key a)) shown)"] l
      by (simp add: reply_for_def listed_def comp_def)
  qed
  then show ?thesis using that l ok by (simp add: listed_def)
qed

end

interpretation rwflq: list_query rwfle_at LRwfle rwfle_pos_id rwfle_next "\<lambda>q e. e\<lparr>rwfle_next := q\<rparr>" GET_RWFLE rwfl_walk
  rwfl_link rwfle_oid "\<lambda>s. rwfleNew (mem_int s (lfresh s)) (p2p_count s) (p2p_id s)" rwfl_list_loop
  "\<lambda>e. if EXISTS (rwfle_header e) then rwfl_show e else Some []"
  by unfold_locales (subst rwfl_list_loop.simps, simp_all add: rwfl_show_def)

interpretation rlq: list_query rle_at LRle rle_pos_id rle_next "\<lambda>q e. e\<lparr>rle_next := q\<rparr>" GET_RLE rl_walk
  rl_link rle_oid "\<lambda>s. rleNew" rl_list_loop "\<lambda>e. if rl_LOOKUP e then rl_show e else Some []"
  by unfold_locales (subst rl_list_loop.simps, simp_all add: rl_show_def rl_LOOKUP_def)

end
