(* ===== verification/RwflElem.thy ===== *)
theory RwflElem
  imports ListElems LamportClock
begin

text \<open>
  The element of the remove-win list as an instance of the framework: its bodies keep the header,
  so the state of an element is determined by the insertions and updates that carry the join of
  all clocks received. Every property is a register: the update with the largest Lamport clock
  decides it, and without an update the insertion of the largest replica identifier does.
\<close>

section \<open>Bits\<close>

fun prop_bit :: "bprop \<Rightarrow> nat" where
  "prop_bit bold = 0"
| "prop_bit italic = 1"
| "prop_bit underline = 2"

definition has_bit :: "bprop \<Rightarrow> int \<Rightarrow> bool" where
  "has_bit b p \<longleftrightarrow> p AND prop_mask b \<noteq> 0"

lemma has_bit_bit: "has_bit b p \<longleftrightarrow> bit p (prop_bit b)"
proof -
  have "prop_mask b = 2 ^ prop_bit b" by (cases b) simp_all
  then show ?thesis by (simp add: has_bit_def and_exp_eq_0_iff_not_bit)
qed

lemma has_bit_set: "has_bit b (set_bit_prop b' on p) \<longleftrightarrow> (if b = b' then on else has_bit b p)"
proof -
  have "prop_mask b' = 2 ^ prop_bit b'" by (cases b') simp_all
  moreover have "prop_bit b = prop_bit b' \<longleftrightarrow> b = b'" by (cases b; cases b') simp_all
  ultimately show ?thesis
    by (auto simp: has_bit_bit set_bit_prop_def bit_or_iff bit_and_iff bit_not_iff bit_exp_iff possible_bit_def)
qed

text \<open>The property field holds three bits and nothing else.\<close>

definition bits_value :: "(bprop \<Rightarrow> bool) \<Rightarrow> int" where
  "bits_value f = (if f bold then 1 else 0) + (if f italic then 2 else 0) + (if f underline then 4 else 0)"

lemma set_bit_bits: "set_bit_prop b on (bits_value f) = bits_value (f(b := on))"
  by (cases b; cases "f bold"; cases "f italic"; cases "f underline"; cases on)
    (simp_all add: set_bit_prop_def bits_value_def)

lemma has_bit_value: "has_bit b (bits_value f) = f b"
  by (cases b; cases "f bold"; cases "f italic"; cases "f underline") (simp_all add: has_bit_def bits_value_def)

lemma bits_value_eqI:
  assumes "\<And>b. has_bit b (bits_value f) = has_bit b (bits_value g)"
  shows "bits_value f = bits_value g"
proof -
  have "f = g" using assms by (simp add: has_bit_value fun_eq_iff)
  then show ?thesis by simp
qed

lemma bits_value_none: "bits_value (\<lambda>_. False) = 0"
  by (simp add: bits_value_def)

section \<open>Last writer wins\<close>

definition later :: "lc \<times> 'v \<Rightarrow> (lc \<times> 'v) option \<Rightarrow> (lc \<times> 'v) option" where
  "later p q = (case q of None \<Rightarrow> Some p | Some r \<Rightarrow> if lc_cmp (fst r) (fst p) \<le> 0 then Some p else q)"

definition last_write :: "(lc \<times> 'v) list \<Rightarrow> (lc \<times> 'v) option" where
  "last_write ps = fold later ps None"

lemma last_write_simps [simp]:
  "last_write [] = None" "last_write [p] = Some p" "last_write (ps @ [p]) = later p (last_write ps)"
  by (simp_all add: last_write_def later_def)

lemma last_write_None [simp]: "last_write ps = None \<longleftrightarrow> ps = []"
  by (induction ps rule: rev_induct) (auto simp: later_def split: option.splits)

lemma lc_cmp_le_trans: "lc_cmp a b \<le> 0 \<Longrightarrow> lc_cmp b c \<le> 0 \<Longrightarrow> lc_cmp a c \<le> 0"
  by (auto simp: lc_cmp_def split: if_splits)

lemma lc_cmp_le_antisym: "lc_cmp a b \<le> 0 \<Longrightarrow> lc_cmp b a \<le> 0 \<Longrightarrow> a = b"
  by (auto simp: lc_cmp_def split: if_splits)

lemma lc_cmp_le_total: "lc_cmp a b \<le> 0 \<or> lc_cmp b a \<le> 0"
  by (auto simp: lc_cmp_def)

lemma last_write_in: "last_write ps = Some q \<Longrightarrow> q \<in> set ps \<and> (\<forall>p \<in> set ps. lc_cmp (fst p) (fst q) \<le> 0)"
proof (induction ps arbitrary: q rule: rev_induct)
  case (snoc p ps)
  show ?case
  proof (cases "last_write ps")
    case None
    then show ?thesis using snoc.prems by (auto simp: later_def lc_cmp_def)
  next
    case (Some r)
    note r = snoc.IH[OF Some]
    show ?thesis
    proof (cases "lc_cmp (fst r) (fst p) \<le> 0")
      case True
      then have "q = p" using snoc.prems Some by (simp add: later_def)
      then show ?thesis using r True lc_cmp_le_trans by (auto simp: lc_cmp_def[of "fst p" "fst p"])
    next
      case False
      then have "q = r" using snoc.prems Some by (simp add: later_def)
      then show ?thesis using r False lc_cmp_le_total[of "fst r" "fst p"] by auto
    qed
  qed
qed simp

lemma last_write_mset:
  assumes m: "mset ps = mset qs" and inj: "inj_on fst (set ps)"
  shows "last_write ps = last_write qs"
proof -
  have set: "set ps = set qs" using m by (rule set_eq_of_mset_eq)
  have "p = q" if "last_write ps = Some p" "last_write qs = Some q" for p q
    using last_write_in[OF that(1)] last_write_in[OF that(2)] lc_cmp_le_antisym[of "fst p" "fst q"] inj_onD[OF inj, of p q] set
    by auto
  moreover have "ps = [] \<longleftrightarrow> qs = []" using m by auto
  ultimately show ?thesis
    by (cases "last_write ps"; cases "last_write qs") auto
qed

section \<open>The element\<close>

type_synonym rwfl_add = "(nprop \<Rightarrow> int) \<times> int"
type_synonym rwfl_upd = "sds \<times> lc \<times> int"
type_synonym rwfl_op = "(rwfl_add, rwfl_upd) rwf_op"

definition rwfl_put :: "reh \<Rightarrow> rwfle \<Rightarrow> rwfle" where
  "rwfl_put h e = e\<lparr>rwfle_header := h\<rparr>"

definition rwfl_innate :: "rwfl_add \<Rightarrow> rwfle \<Rightarrow> rwfle" where
  "rwfl_innate a e = innate_update (fst a) (snd a) e"

definition rwfl_acquire :: "rwfl_upd \<Rightarrow> rwfle \<Rightarrow> rwfle" where
  "rwfl_acquire u e = (case u of (ty, t, v) \<Rightarrow> acquired_update e ty t v)"

lemma acquired_other [simp]:
  "rwfle_header (acquired_update e ty t v) = rwfle_header e" "rwfle_oid (acquired_update e ty t v) = rwfle_oid e"
  "rwfle_pos_id (acquired_update e ty t v) = rwfle_pos_id e" "rwfle_content (acquired_update e ty t v) = rwfle_content e"
  "rwfle_next (acquired_update e ty t v) = rwfle_next e"
  by (auto simp: acquired_update_def Let_def split: option.splits lprop.splits)

lemma innate_other [simp]:
  "rwfle_header (innate_update vals p e) = rwfle_header e" "rwfle_oid (innate_update vals p e) = rwfle_oid e"
  "rwfle_pos_id (innate_update vals p e) = rwfle_pos_id e" "rwfle_content (innate_update vals p e) = rwfle_content e"
  "rwfle_next (innate_update vals p e) = rwfle_next e" "rwfle_ts (innate_update vals p e) = rwfle_ts e"
  by (simp_all add: innate_update_def innate_bit_def innate_normal_def)

lemma reset_other [simp]:
  "rwfle_header (rwfle_reset e) = rwfle_header e" "rwfle_oid (rwfle_reset e) = rwfle_oid e"
  "rwfle_pos_id (rwfle_reset e) = rwfle_pos_id e" "rwfle_content (rwfle_reset e) = rwfle_content e"
  "rwfle_next (rwfle_reset e) = rwfle_next e"
  by (simp_all add: rwfle_reset_def)

interpretation rwfe: rwf_element rwfle_header rwfl_put rwfle_reset rwfl_innate rwfl_acquire
  by unfold_locales (simp_all add: rwfl_put_def rwfl_innate_def rwfl_acquire_def split: prod.splits)

section \<open>The registers\<close>

definition writes_to :: "lprop \<Rightarrow> rwfl_upd list \<Rightarrow> (lc \<times> int) list" where
  "writes_to p us = map snd (filter (\<lambda>u. prop_of_name (cstr (sdstolower (fst u))) = Some p) us)"

definition writes :: "lprop \<Rightarrow> rwfl_op list \<Rightarrow> (lc \<times> int) option" where
  "writes p ops = last_write (writes_to p (upds_of ops))"

fun innate_prop :: "lprop \<Rightarrow> rwfl_add \<Rightarrow> int" where
  "innate_prop (NP n) a = to_int (fst a n)"
| "innate_prop (BP b) a = snd a AND prop_mask b"

text \<open>The value of a property: the last write, else that of the insertion.\<close>

definition prop_view :: "rwfl_op list \<Rightarrow> lprop \<Rightarrow> int option" where
  "prop_view ops p = (case writes p ops of
       Some w \<Rightarrow> Some (snd w)
     | None \<Rightarrow> map_option (\<lambda>a. innate_prop p (snd a)) (top_add (adds_of ops)))"

definition rwfl_shape :: "rwfl_op list \<Rightarrow> rwfle \<Rightarrow> bool" where
  "rwfl_shape ops e \<longleftrightarrow> list_all op_ids_ok ops \<and> (\<forall>p \<in> set ops. \<not> is_RRmv p) \<and>
     reh_pid (rwfle_header e) = pid_view ops \<and> rwfle_ts e = (\<lambda>p. map_option fst (writes p ops)) \<and>
     (\<forall>n v. prop_view ops (NP n) = Some v \<longrightarrow> rwfle_normal e n = v) \<and>
     (\<forall>b v. prop_view ops (BP b) = Some v \<longrightarrow> has_bit b (rwfle_property e) = (v \<noteq> 0))"

lemma innate_bit_effect:
  "rwfle_ts (innate_bit pr b' e) = rwfle_ts e" "rwfle_normal (innate_bit pr b' e) = rwfle_normal e"
  "has_bit b (rwfle_property (innate_bit pr b' e)) =
    (if b = b' \<and> rwfle_ts e (BP b') = None then pr AND prop_mask b \<noteq> 0 else has_bit b (rwfle_property e))"
  by (simp_all add: innate_bit_def has_bit_set)

lemma innate_normal_effect:
  "rwfle_ts (innate_normal vals e) = rwfle_ts e" "rwfle_property (innate_normal vals e) = rwfle_property e"
  by (simp_all add: innate_normal_def)

lemma innate_effect:
  "rwfle_normal (innate_update vals pr e) n = (if rwfle_ts e (NP n) = None then to_int (vals n) else rwfle_normal e n)"
  "has_bit b (rwfle_property (innate_update vals pr e)) =
    (if rwfle_ts e (BP b) = None then pr AND prop_mask b \<noteq> 0 else has_bit b (rwfle_property e))"
proof -
  show "rwfle_normal (innate_update vals pr e) n = (if rwfle_ts e (NP n) = None then to_int (vals n) else rwfle_normal e n)"
    by (simp add: innate_update_def innate_bit_effect innate_normal_def)
  show "has_bit b (rwfle_property (innate_update vals pr e)) =
    (if rwfle_ts e (BP b) = None then pr AND prop_mask b \<noteq> 0 else has_bit b (rwfle_property e))"
    unfolding innate_update_def innate_bit_effect innate_normal_effect by (cases b) simp_all
qed

lemma acquired_effect:
  assumes p: "prop_of_name (cstr (sdstolower ty)) = Some p"
  shows "rwfle_ts (acquired_update e ty t v) = (if ts_allows e p t then (rwfle_ts e)(p \<mapsto> t) else rwfle_ts e)"
    "rwfle_normal (acquired_update e ty t v) n = (if ts_allows e p t \<and> p = NP n then v else rwfle_normal e n)"
    "has_bit b (rwfle_property (acquired_update e ty t v)) =
      (if ts_allows e p t \<and> p = BP b then v \<noteq> 0 else has_bit b (rwfle_property e))"
  using p by (auto simp: acquired_update_def clock_simps Let_def has_bit_set split: lprop.splits)

lemma writes_upd:
  "writes p (ops @ [RUpd t (ty, u, v)]) =
    (if prop_of_name (cstr (sdstolower ty)) = Some p then later (u, v) (writes p ops) else writes p ops)"
  "writes p (ops @ [RAdd t a]) = writes p ops"
  by (simp_all add: writes_def writes_to_def)

lemma top_add_add:
  assumes "0 \<le> vc_id t"
  shows "top_add (adds_of (ops @ [RAdd t a])) = (if pid_view ops < vc_id t then Some (vc_id t, a) else top_add (adds_of ops))"
  using assms by (auto simp: pid_view_def top_add_snoc split: option.splits if_splits)

lemma register_add_shape:
  assumes t: "0 \<le> vc_id t" and s: "rwfl_shape ops e"
  shows "rwfl_shape (ops @ [RAdd t a]) (rwfe.register (RAdd t a) e)"
proof (cases "pid_view ops < vc_id t")
  case True
  have "prop_view (ops @ [RAdd t a]) p = (case writes p ops of Some w \<Rightarrow> Some (snd w) | None \<Rightarrow> Some (innate_prop p a))" for p
    unfolding prop_view_def writes_upd top_add_add[OF t] using True by (simp split: option.splits)
  then show ?thesis
    using s True t by (auto simp: rwfl_shape_def rwfl_innate_def rwfl_put_def innate_effect pid_view_add writes_upd
        prop_view_def split: option.splits)
next
  case False
  have "prop_view (ops @ [RAdd t a]) = prop_view ops"
    unfolding fun_eq_iff prop_view_def writes_upd top_add_add[OF t] using False by simp
  then show ?thesis using s False t by (simp add: rwfl_shape_def pid_view_add writes_upd)
qed

lemma ts_allows_later:
  assumes "rwfle_ts e = (\<lambda>p. map_option fst (writes p ops))"
  shows "later (t, v) (writes p ops) = (if ts_allows e p t then Some (t, v) else writes p ops)"
  using assms by (simp add: ts_allows_def later_def split: option.splits)

lemma register_upd_shape:
  assumes s: "rwfl_shape ops e"
  shows "rwfl_shape (ops @ [RUpd t u]) (rwfe.register (RUpd t u) e)"
proof -
  obtain ty lt v where u: "u = (ty, lt, v)" by (cases u)
  define e' where "e' = rwfl_put (if EXISTS (rwfle_header e) then rwfle_header e else (rwfle_header e)\<lparr>reh_pid := PID_WAIT_INNATE\<rparr>) e"
  have e': "rwfle_ts e' = rwfle_ts e" "rwfle_normal e' = rwfle_normal e" "rwfle_property e' = rwfle_property e"
    by (simp_all add: e'_def rwfl_put_def)
  have ok: "list_all op_ids_ok ops" "\<forall>p \<in> set ops. \<not> is_RRmv p" and pid: "reh_pid (rwfle_header e) = pid_view ops"
    and ts: "rwfle_ts e' = (\<lambda>p. map_option fst (writes p ops))" using s by (simp_all add: rwfl_shape_def e')
  have pid': "reh_pid (rwfle_header e') = pid_view (ops @ [RUpd t u])"
    using pid pid_view_upd[OF ok, of t u] by (simp add: e'_def rwfl_put_def EXISTS_def)
  have reg: "rwfe.register (RUpd t u) e = acquired_update e' ty lt v" by (simp add: e'_def rwfl_acquire_def u)
  show ?thesis
  proof (cases "prop_of_name (cstr (sdstolower ty))")
    case None
    then have "writes p (ops @ [RUpd t u]) = writes p ops" for p by (simp add: u writes_upd)
    moreover from this have "prop_view (ops @ [RUpd t u]) = prop_view ops"
      by (simp add: prop_view_def fun_eq_iff split: option.splits)
    ultimately show ?thesis
      using s None pid' unfolding reg by (simp add: rwfl_shape_def acquired_update_def e')
  next
    case (Some q)
    have w: "writes p (ops @ [RUpd t u]) = (if p = q \<and> ts_allows e' q lt then Some (lt, v) else writes p ops)" for p
      using ts_allows_later[OF ts, of lt v p] by (simp add: u writes_upd Some)
    have pv: "prop_view (ops @ [RUpd t u]) p = (if p = q \<and> ts_allows e' q lt then Some v else prop_view ops p)" for p
      unfolding prop_view_def w by (simp split: option.splits)
    show ?thesis
      unfolding reg rwfl_shape_def pv w acquired_effect[OF Some] ts
      using s pid' e' by (auto simp: rwfl_shape_def fun_eq_iff)
  qed
qed

definition rwfl_history :: "nat \<Rightarrow> rwfl_op list \<Rightarrow> bool" where
  "rwfl_history n hs \<longleftrightarrow> rwf_history n hs \<and> list_all op_ids_ok hs"

lemma rwfl_run_shape:
  assumes "rwfl_history n hs"
  shows "rwfl_shape (current_ops n hs) (rwfe.run hs (rwfleNew junk (int n) me))"
proof (rule rwfe.run_induct)
  fix ops p e
  assume "\<not> is_RRmv p" "p \<in> set hs" "rwfl_shape ops e"
  moreover from this have "op_ids_ok p" using assms by (simp add: rwfl_history_def list_all_iff)
  ultimately show "rwfl_shape (ops @ [p]) (rwfe.register p e)"
    using register_add_shape register_upd_shape by (cases p) (simp_all del: rwfe.register.simps)
qed (use assms in \<open>auto simp: rwfl_history_def rwfl_shape_def rwfleNew_def REH_INIT_def pid_view_def writes_def
    writes_to_def prop_view_def rwfle_reset_def rwfl_put_def\<close>)

text \<open>The property field of every reachable element holds three bits.\<close>

definition is_bits :: "int \<Rightarrow> bool" where
  "is_bits p \<longleftrightarrow> (\<exists>f. p = bits_value f)"

lemma is_bits_set: "is_bits p \<Longrightarrow> is_bits (set_bit_prop b on p)"
  by (auto simp: is_bits_def set_bit_bits)

lemma is_bits_eqI: "is_bits p \<Longrightarrow> is_bits q \<Longrightarrow> (\<And>b. has_bit b p = has_bit b q) \<Longrightarrow> p = q"
  using bits_value_eqI by (auto simp: is_bits_def)

lemma innate_bits: "is_bits (rwfle_property e) \<Longrightarrow> is_bits (rwfle_property (innate_update vals pr e))"
  by (simp add: innate_update_def innate_bit_def innate_normal_def is_bits_set)

lemma acquired_bits: "is_bits (rwfle_property e) \<Longrightarrow> is_bits (rwfle_property (acquired_update e ty t v))"
  by (simp add: acquired_update_def Let_def is_bits_set split: option.split lprop.split)

lemma step_bits:
  assumes "is_bits (rwfle_property e)"
  shows "is_bits (rwfle_property (rwfe.step p e))"
proof -
  have rm: "is_bits (rwfle_property (rwfe.removing t e))" for t
    using assms by (simp add: rwfe.removing_def rwfle_reset_def rwfl_put_def)
  have put: "rwfle_property (rwfl_put h e) = rwfle_property e" for h e by (simp add: rwfl_put_def)
  show ?thesis
  proof (cases p)
    case (RAdd t a)
    obtain b h where "addCheck (rwfle_header (rwfe.removing t e)) t = (b, h)" by fastforce
    then show ?thesis using RAdd rm[of t] by (cases b) (simp_all add: Let_def put rwfl_innate_def innate_bits)
  next
    case (RUpd t u)
    obtain b h where "updateCheck (rwfle_header (rwfe.removing t e)) t = (b, h)" by fastforce
    then show ?thesis
      using RUpd rm[of t] by (cases b; cases u) (simp_all add: Let_def put rwfl_acquire_def acquired_bits)
  next
    case (RRmv t)
    then show ?thesis using rm by simp
  qed
qed

lemma run_bits: "is_bits (rwfle_property (rwfe.run hs (rwfleNew junk n me)))"
proof (induction hs rule: rev_induct)
  case Nil
  show ?case using bits_value_none by (auto simp: is_bits_def rwfleNew_def)
qed (simp add: step_bits del: rwfe.step.simps)

section \<open>Order does not matter\<close>

text \<open>One replica gives each of its updates to an element a new Lamport clock.\<close>

definition writes_unique :: "rwfl_op list \<Rightarrow> bool" where
  "writes_unique ops \<longleftrightarrow> (\<forall>p. inj_on fst (set (writes_to p (upds_of ops))))"

lemma prop_view_perm:
  assumes m: "mset ops = mset ops'" and "adds_unique ops" "writes_unique ops"
  shows "prop_view ops p = prop_view ops' p"
proof -
  have "mset (writes_to p (upds_of ops)) = mset (writes_to p (upds_of ops'))"
    using upds_of_mset[OF m] by (simp add: writes_to_def)
  then have "writes p ops = writes p ops'" using assms(3) last_write_mset by (auto simp: writes_def writes_unique_def)
  then show ?thesis using top_add_perm[OF m assms(2)] by (simp add: prop_view_def split: option.split)
qed

text \<open>What a query shows of an element: nothing of one that does not exist, and of one that exists
  the values of all its properties. An element is complete when an insertion has arrived with the
  current clock.\<close>

definition complete :: "nat \<Rightarrow> rwfl_op list \<Rightarrow> bool" where
  "complete n hs \<longleftrightarrow> adds_of (current_ops n hs) \<noteq> [] \<or> current_ops n hs = []"

lemma rwfl_run_perm:
  assumes hs: "rwfl_history n hs" "rwfl_history n hs'" and m: "mset hs = mset hs'"
    and u: "adds_unique (current_ops n hs)" "writes_unique (current_ops n hs)" and c: "complete n hs"
    and e: "e = rwfe.run hs (rwfleNew junk (int n) me)" "e' = rwfe.run hs' (rwfleNew junk' (int n) me')"
  shows "EXISTS (rwfle_header e) = EXISTS (rwfle_header e')"
    "EXISTS (rwfle_header e) \<Longrightarrow> rwfle_normal e = rwfle_normal e' \<and> rwfle_property e = rwfle_property e'"
proof -
  let ?ops = "current_ops n hs" and ?ops' = "current_ops n hs'"
  have mo: "mset ?ops = mset ?ops'" using m by (rule current_ops_mset)
  have s: "rwfl_shape ?ops e" "rwfl_shape ?ops' e'" unfolding e using rwfl_run_shape hs by blast+
  show ex: "EXISTS (rwfle_header e) = EXISTS (rwfle_header e')"
    using s pid_view_perm[OF mo u(1)] by (simp add: EXISTS_def rwfl_shape_def)
  assume "EXISTS (rwfle_header e)"
  then have "?ops \<noteq> []" using s(1) by (auto simp: EXISTS_def rwfl_shape_def pid_view_def)
  then obtain q where "top_add (adds_of ?ops) = Some q" using c by (cases "top_add (adds_of ?ops)") (auto simp: complete_def)
  then have v: "\<exists>v. prop_view ?ops p = Some v \<and> prop_view ?ops' p = Some v" for p
    unfolding prop_view_perm[OF mo u, symmetric] by (auto simp: prop_view_def split: option.splits)
  have "rwfle_normal e x = rwfle_normal e' x" for x using v[of "NP x"] s by (auto simp: rwfl_shape_def)
  moreover have "has_bit b (rwfle_property e) = has_bit b (rwfle_property e')" for b
    using v[of "BP b"] s unfolding rwfl_shape_def by metis
  ultimately show "rwfle_normal e = rwfle_normal e' \<and> rwfle_property e = rwfle_property e'"
    using is_bits_eqI[OF run_bits run_bits] by (simp add: e fun_eq_iff)
qed

end
