(* ===== verification/RwflReplica.thy ===== *)
theory RwflReplica
  imports ListSlots RwflElem
begin

text \<open>
  A replica of the remove-win list. An effect phase never fails and changes one element, as the
  framework prescribes; the list stays in the order of positions, with every element that some
  insertion has placed. Two replicas that received the same operations, each in its own order,
  list the same elements with the same properties.
\<close>

section \<open>Bodies and links\<close>

definition dress :: "sds option \<Rightarrow> leid option \<Rightarrow> sds option \<Rightarrow> addr option \<Rightarrow> rwfle \<Rightarrow> rwfle" where
  "dress i x c q e = e\<lparr>rwfle_oid := i, rwfle_pos_id := x, rwfle_content := c, rwfle_next := q\<rparr>"

abbreviation naked :: "rwfle \<Rightarrow> rwfle" where
  "naked e \<equiv> e\<lparr>rwfle_next := None\<rparr>"

lemma dress_simps [simp]:
  "rwfle_header (dress i x c q e) = rwfle_header e" "rwfle_oid (dress i x c q e) = i" "rwfle_pos_id (dress i x c q e) = x"
  "rwfle_content (dress i x c q e) = c" "rwfle_next (dress i x c q e) = q" "rwfle_ts (dress i x c q e) = rwfle_ts e"
  "rwfle_normal (dress i x c q e) = rwfle_normal e" "rwfle_property (dress i x c q e) = rwfle_property e"
  "dress i x c q (dress i' x' c' q' e) = dress i x c q e"
  by (simp_all add: dress_def)

lemma naked_dress: "naked e = dress (rwfle_oid e) (rwfle_pos_id e) (rwfle_content e) None e"
  by (simp add: dress_def)

lemma dress_put: "rwfl_put h (dress i x c q e) = dress i x c q (rwfl_put h e)"
  by (simp add: rwfl_put_def dress_def)

lemma dress_reset: "rwfle_reset (dress i x c q e) = dress i x c q (rwfle_reset e)"
  by (simp add: rwfle_reset_def dress_def)

lemma dress_innate_bit: "innate_bit pr b (dress i x c q e) = dress i x c q (innate_bit pr b e)"
  by (simp add: innate_bit_def dress_def)

lemma dress_innate: "rwfl_innate a (dress i x c q e) = dress i x c q (rwfl_innate a e)"
proof -
  have "innate_normal vals (dress i x c q e) = dress i x c q (innate_normal vals e)" for vals
    by (simp add: innate_normal_def dress_def cong: if_cong)
  then show ?thesis by (simp add: rwfl_innate_def innate_update_def dress_innate_bit)
qed

lemma dress_acquire: "rwfl_acquire u (dress i x c q e) = dress i x c q (rwfl_acquire u e)"
proof -
  have "ts_allows (dress i x c q e) = ts_allows e" by (simp add: ts_allows_def fun_eq_iff)
  then show ?thesis
    by (cases u) (simp add: rwfl_acquire_def acquired_update_def dress_def Let_def split: option.split lprop.split)
qed

lemma dress_removing: "rwfe.removing t (dress i x c q e) = dress i x c q (rwfe.removing t e)"
  by (simp add: rwfe.removing_def dress_put dress_reset)

lemma dress_step: "rwfe.step p (dress i x c q e) = dress i x c q (rwfe.step p e)"
proof (cases p)
  case (RAdd t a)
  obtain b h where "addCheck (rwfle_header (rwfe.removing t e)) t = (b, h)" by fastforce
  then show ?thesis using RAdd by (cases b) (simp_all add: Let_def dress_removing dress_put dress_innate)
next
  case (RUpd t u)
  obtain b h where "updateCheck (rwfle_header (rwfe.removing t e)) t = (b, h)" by fastforce
  then show ?thesis using RUpd by (cases b) (simp_all add: Let_def dress_removing dress_put dress_acquire)
next
  case (RRmv t)
  then show ?thesis by (simp add: dress_removing)
qed

lemma removing_other [simp]:
  "rwfle_oid (rwfe.removing t e) = rwfle_oid e" "rwfle_pos_id (rwfe.removing t e) = rwfle_pos_id e"
  "rwfle_content (rwfe.removing t e) = rwfle_content e" "rwfle_next (rwfe.removing t e) = rwfle_next e"
  by (simp_all add: rwfe.removing_def rwfl_put_def)

lemma innate_put_other:
  "rwfle_oid (rwfl_innate v (rwfl_put h e)) = rwfle_oid e" "rwfle_pos_id (rwfl_innate v (rwfl_put h e)) = rwfle_pos_id e"
  "rwfle_content (rwfl_innate v (rwfl_put h e)) = rwfle_content e"
  by (simp_all add: rwfl_innate_def rwfl_put_def)

lemma naked_removing: "naked (rwfe.removing t e) = rwfe.removing t (naked e)"
  by (simp add: naked_dress dress_removing)

section \<open>Removal\<close>

text \<open>What a removal and a whole operation do to the recorded length.\<close>

definition len_removed :: "vc \<Rightarrow> rwfle \<Rightarrow> int" where
  "len_removed t e =
     (if EXISTS (rwfle_header e) \<and> \<not> vle (vc_vector t) (vc_vector (reh_current (rwfle_header e))) then 1 else 0)"

fun len_change :: "rwfl_op \<Rightarrow> rwfle \<Rightarrow> int" where
  "len_change (RAdd t a) e =
     (let h = rwfle_header (rwfe.removing t e) in if fst (addCheck h t) \<and> \<not> EXISTS h then 1 else 0) - len_removed t e"
| "len_change (RUpd t u) e = - len_removed t e"
| "len_change (RRmv t) e = - len_removed t e"

lemma removeFunc_slot:
  assumes h: "rwflt.holds tname as k a e s" and t: "vc_size t = vc_size (reh_current (rwfle_header e))"
  obtains s' where "rwfl_removeFunc tname a t s = Some s'" "rwflt.holds tname as k a (rwfe.removing t e) s'" "beside tname s s'"
    "rwflt.slot s' tname = (rwflt.slot s tname)(k \<mapsto> naked (rwfe.removing t e))"
    "list_len s' tname = list_len s tname - len_removed t e"
proof (cases "vle (vc_vector t) (vc_vector (reh_current (rwfle_header e)))")
  case True
  have e: "rwfle_at s a = Some e" using h by (simp add: rwflt.holds_def)
  have "(rwflt.slot s tname)(k \<mapsto> naked e) = rwflt.slot s tname" using rwflt.holds_slot[OF h] by (rule fun_upd_idem)
  then show ?thesis
    using that[of s] h e True t by (simp add: rwfl_removeFunc_def rwf_simps rwfe.removing_def len_removed_def)
next
  case False
  let ?e = "rwfe.removing t e"
  let ?s1 = "heap_put a (LRwfle ?e) s"
  have e: "rwfle_at s a = Some e" "?e = rwfle_reset (e\<lparr>rwfle_header := REH_RMV_FUNC (rwfle_header e) t\<rparr>)"
    using h False by (simp_all add: rwflt.holds_def rwfe.removing_def rwfl_put_def)
  have s1: "rwflt.holds tname as k a ?e ?s1" "rwflt.slot ?s1 tname = (rwflt.slot s tname)(k \<mapsto> naked ?e)"
    using rwflt.put_slot[OF h, of ?e] by simp_all
  have ht: "GET_LIST_HT tname False ?s1 = Some (Some tname, ?s1)"
    using s1(1) by (intro GET_LIST_HT_hash) (simp add: rwflt.holds_def)
  have run: "rwfl_removeFunc tname a t s =
    map_option incr_dirty (if EXISTS (rwfle_header e) then incrLen tname (-1) ?s1 else Some ?s1)"
    using e ht False t by (cases "EXISTS (rwfle_header e)"; cases "incrLen tname (-1) ?s1")
      (simp_all add: rwfl_removeFunc_def rwf_simps Let_def)
  show ?thesis
  proof (cases "EXISTS (rwfle_header e)")
    case True
    obtain s' where s': "incrLen tname (-1) ?s1 = Some s'" "rwflt.holds tname as k a ?e s'" "beside tname ?s1 s'"
      "rwflt.slot s' tname = rwflt.slot ?s1 tname" "list_len s' tname = list_len ?s1 tname + -1"
      using rwflt.incrLen_slot[OF s1(1) neg_one_neq_zero] by blast
    have "beside tname s s'" using s'(3) by (simp add: beside_def heap_put_def)
    then show ?thesis
      using that[of "incr_dirty s'"] run s' s1(2) True False by (simp add: len_removed_def)
  next
    case False
    then show ?thesis using that[of "incr_dirty ?s1"] run s1 by (simp add: len_removed_def)
  qed
qed

text \<open>The start of the three effects: the element is read or created, and the removal that the
  operation carries is applied.\<close>

definition element_before :: "server \<Rightarrow> sds \<Rightarrow> sds \<Rightarrow> rwfle \<Rightarrow> bool" where
  "element_before s tname k e \<longleftrightarrow> rwflt.slot s tname k = Some e \<or>
     rwflt.slot s tname k = None \<and> (\<exists>junk. e = rwfleNew junk (p2p_count s) (p2p_id s))"

definition clocks_ok :: "nat \<Rightarrow> sds \<Rightarrow> server \<Rightarrow> bool" where
  "clocks_ok n tname s \<longleftrightarrow> p2p_count s = int n \<and>
     (\<forall>k e. rwflt.slot s tname k = Some e \<longrightarrow> vc_size (reh_current (rwfle_header e)) = n)"

definition started :: "sds \<Rightarrow> sds \<Rightarrow> vc \<Rightarrow> addr list \<Rightarrow> addr \<Rightarrow> rwfle \<Rightarrow> rwfle \<Rightarrow> server \<Rightarrow> server \<Rightarrow> bool" where
  "started tname k t as a e e0 s s2 \<longleftrightarrow> element_before s tname k e0 \<and> rwflt.holds tname as k a e s2 \<and>
     naked e = rwfe.removing t e0 \<and> rwflt.slot s2 tname = (rwflt.slot s tname)(k \<mapsto> rwfe.removing t e0) \<and>
     beside tname s s2 \<and> list_len s2 tname = list_len s tname - len_removed t e0"

lemma effect_start:
  assumes inv: "rwflt.list_inv tname s as" and k: "k \<notin> set reserved" and n: "clocks_ok n tname s" "vc_size t = n"
  obtains a s1 s2 e e0 where "GET_RWFLE tname k True s = Some (Some a, s1)" "rwfl_removeFunc tname a t s1 = Some s2"
    "started tname k t as a e e0 s s2"
proof -
  obtain a s1 e where s1: "GET_RWFLE tname k True s = Some (Some a, s1)" "rwflt.holds tname as k a e s1" "beside tname s s1"
    "rwflt.slot s tname k = Some (naked e) \<or> rwflt.slot s tname k = None \<and> e = rwfleNew (mem_int s (lfresh s)) (p2p_count s) (p2p_id s)"
    "rwflt.slot s1 tname = (rwflt.slot s tname)(k \<mapsto> naked e)" "list_len s1 tname = list_len s tname"
    "\<forall>f \<in> set reserved. field s1 tname f = field s tname f"
    using rwflt.get_slot[OF inv k] .
  have b: "element_before s tname k (naked e)"
    using s1(4) by (auto simp: element_before_def rwfleNew_def)
  have "vc_size (reh_current (rwfle_header (naked e))) = n" if "rwflt.slot s tname k = Some (naked e)"
    using that n(1) unfolding clocks_ok_def by blast
  then have "vc_size (reh_current (rwfle_header e)) = n"
    using s1(4) n(1) by (auto simp: clocks_ok_def rwfleNew_def REH_INIT_def vc_new_def)
  then obtain s2 where s2: "rwfl_removeFunc tname a t s1 = Some s2" "rwflt.holds tname as k a (rwfe.removing t e) s2" "beside tname s1 s2"
    "rwflt.slot s2 tname = (rwflt.slot s1 tname)(k \<mapsto> naked (rwfe.removing t e))"
    "list_len s2 tname = list_len s1 tname - len_removed t e"
    using removeFunc_slot[OF s1(2), of t] n(2) by auto
  have "len_removed t (naked e) = len_removed t e" by (simp add: len_removed_def)
  then have "started tname k t as a (rwfe.removing t e) (naked e) s s2"
    unfolding started_def naked_removing[symmetric] s2(4) s2(5) s1(5) s1(6)
    using b s2(2) beside_trans[OF s1(3) s2(3)] by simp
  then show ?thesis using that s1(1) s2(1) by blast
qed

section \<open>Effects\<close>

definition rwfl_done :: "sds \<Rightarrow> sds \<Rightarrow> rwfle \<Rightarrow> int \<Rightarrow> server \<Rightarrow> client \<Rightarrow> (client \<times> server) option \<Rightarrow> bool" where
  "rwfl_done tname k e d s c r \<longleftrightarrow> (\<exists>s' as. r = Some (c, s') \<and> rwflt.list_inv tname s' as \<and> hash_at s' tname \<noteq> None \<and>
     rwflt.slot s' tname = (rwflt.slot s tname)(k \<mapsto> e) \<and> beside tname s s' \<and> list_len s' tname = list_len s tname + d)"

lemma rwfl_doneI:
  assumes "r = Some (c, s')" "rwflt.holds tname as k a e' s'" "beside tname s s'"
    "rwflt.slot s' tname = (rwflt.slot s tname)(k \<mapsto> e)" "list_len s' tname = list_len s tname + d"
  shows "rwfl_done tname k e d s c r"
  using assms by (auto simp: rwfl_done_def rwflt.holds_def)

lemma startedD:
  assumes "started tname k t as a e e0 s s2"
  shows "element_before s tname k e0" "rwflt.holds tname as k a e s2" "naked e = rwfe.removing t e0"
    "rwflt.slot s2 tname = (rwflt.slot s tname)(k \<mapsto> rwfe.removing t e0)" "beside tname s s2"
    "list_len s2 tname = list_len s tname - len_removed t e0" "rwfle_at s2 a = Some e"
    "rwfle_header (rwfe.removing t e0) = rwfle_header e"
    "rwfl_done tname k (rwfe.removing t e0) (- len_removed t e0) s c (Some (c, s2))"
proof -
  show s: "element_before s tname k e0" "rwflt.holds tname as k a e s2" "naked e = rwfe.removing t e0"
    "rwflt.slot s2 tname = (rwflt.slot s tname)(k \<mapsto> rwfe.removing t e0)" "beside tname s s2"
    "list_len s2 tname = list_len s tname - len_removed t e0" using assms by (simp_all add: started_def)
  show "rwfle_at s2 a = Some e" using s(2) by (simp add: rwflt.holds_def)
  show "rwfle_header (rwfe.removing t e0) = rwfle_header e" using arg_cong[OF s(3), of rwfle_header] by simp
  show "rwfl_done tname k (rwfe.removing t e0) (- len_removed t e0) s c (Some (c, s2))"
    using rwfl_doneI[OF refl s(2,5,4)] s(6) by simp
qed

text \<open>The first insertion of an identifier to arrive fixes its content and position.\<close>

definition placed_as :: "sds \<Rightarrow> leid \<Rightarrow> sds \<Rightarrow> rwfle \<Rightarrow> rwfle" where
  "placed_as k x content e =
     (if rwfle_oid e = None then e\<lparr>rwfle_oid := Some k, rwfle_content := Some content, rwfle_pos_id := Some x\<rparr> else e)"

lemma placed_as_dress:
  "placed_as k x content e = (if rwfle_oid e = None then dress (Some k) (Some x) (Some content) (rwfle_next e) e else e)"
  by (simp add: placed_as_def dress_def)

lemma step_other [simp]:
  "rwfle_oid (rwfe.step p e) = rwfle_oid e" "rwfle_pos_id (rwfe.step p e) = rwfle_pos_id e"
  "rwfle_content (rwfe.step p e) = rwfle_content e" "rwfle_next (rwfe.step p e) = rwfle_next e"
proof -
  have eq: "dress (rwfle_oid e) (rwfle_pos_id e) (rwfle_content e) (rwfle_next e) (rwfe.step p e) = rwfe.step p e"
    unfolding dress_step[symmetric] by (simp add: dress_def)
  show "rwfle_oid (rwfe.step p e) = rwfle_oid e" "rwfle_pos_id (rwfe.step p e) = rwfle_pos_id e"
    "rwfle_content (rwfe.step p e) = rwfle_content e" "rwfle_next (rwfe.step p e) = rwfle_next e"
    using arg_cong[OF eq, of rwfle_oid] arg_cong[OF eq, of rwfle_pos_id] arg_cong[OF eq, of rwfle_content]
      arg_cong[OF eq, of rwfle_next] by simp_all
qed

lemma step_placed_as: "rwfe.step p (placed_as k x content (naked e)) = placed_as k x content (naked (rwfe.step p e))"
  by (auto simp: placed_as_dress dress_step naked_dress simp del: rwfe.step.simps)

lemma insert_place:
  assumes h: "rwflt.holds tname as k a e s"
    and new: "\<And>k' d. k' \<noteq> k \<Longrightarrow> rwflt.slot s tname k' = Some d \<Longrightarrow> rwfle_pos_id d \<noteq> Some x"
    and prev: "prev \<notin> set reserved" "prev \<noteq> k"
      "\<And>d y. rwflt.slot s tname prev = Some d \<Longrightarrow> rwfle_pos_id d = Some y \<Longrightarrow> leid_lt y x"
  obtains s' as' e' where
    "(if rwfle_oid e = None then rwfl_link tname tname prev a (heap_put a (LRwfle (placed_as k x content e)) s) else Some s) = Some s'"
    "rwflt.holds tname as' k a e' s'" "naked e' = placed_as k x content (naked e)" "beside tname s s'"
    "rwflt.slot s' tname = (rwflt.slot s tname)(k \<mapsto> placed_as k x content (naked e))" "list_len s' tname = list_len s tname"
proof (cases "rwfle_oid e = None")
  case True
  have ok: "rwflt.element_ok k e" using rwflt.list_invD(3)[of tname s as k a] h by (auto simp: rwflt.holds_def)
  then have e: "rwfle_pos_id e = None" "rwfle_next e = None"
    using True by (auto simp: rwflt.element_ok_def split: if_splits)
  let ?e = "placed_as k x content e"
  have new': "rwfle_pos_id d \<noteq> Some x" if "rwflt.slot s tname k' = Some d" for k' d
    using new[of k' d] that rwflt.holds_slot[OF h] e(1) by (cases "k' = k") auto
  have pe: "rwfle_pos_id ?e = Some x" "rwfle_next ?e = None" "rwfle_oid ?e = Some k" using True e by (simp_all add: placed_as_def)
  obtain s' as' e' where s':
    "rwfl_link tname tname prev a (heap_put a (LRwfle ?e) s) = Some s'" "rwflt.holds tname as' k a e' s'"
    "naked e' = naked ?e" "rwflt.slot s' tname = (rwflt.slot s tname)(k \<mapsto> naked ?e)" "beside tname s s'"
    "list_len s' tname = list_len s tname"
    by (rule rwflt.place_slot[where prev = prev, OF h e(1) pe]) (use new' prev in blast)+
  moreover have "naked ?e = placed_as k x content (naked e)" by (simp add: placed_as_def)
  ultimately show ?thesis using that True by simp
next
  case False
  then show ?thesis
    using that[of s as e] h rwflt.holds_slot[OF h] by (auto simp: placed_as_def fun_upd_idem)
qed

lemma insert_finish:
  assumes h: "rwflt.holds tname as k a e s" and chk: "addCheck (rwfle_header e) t = (b, h')" and v: "insert_values args 5 = Some v"
  obtains s' where "(if b then do {
       s \<leftarrow> (if \<not> EXISTS (rwfle_header e) then incrLen tname 1 s else Some s);
       (vals, property) \<leftarrow> insert_values args 5;
       let e = innate_update vals property (e\<lparr>rwfle_header := h'\<rparr>);
       Some (c, incr_dirty (heap_put a (LRwfle e) s))
     }
     else Some (c, s)) = Some (c, s')" "rwflt.holds tname as k a (if b then rwfl_innate v (rwfl_put h' e) else e) s'"
    "beside tname s s'" "rwflt.slot s' tname = (rwflt.slot s tname)(k \<mapsto> naked (if b then rwfl_innate v (rwfl_put h' e) else e))"
    "list_len s' tname = list_len s tname + (if b \<and> \<not> EXISTS (rwfle_header e) then 1 else 0)"
proof (cases b)
  case True
  let ?e = "rwfl_innate v (rwfl_put h' e)"
  have e: "rwfle_pos_id ?e = rwfle_pos_id e" "rwfle_next ?e = rwfle_next e" "rwfle_oid ?e = rwfle_oid e"
    by (simp_all add: rwfl_innate_def rwfl_put_def)
  obtain vals pr where vp: "v = (vals, pr)" by fastforce
  obtain s1 where s1: "(if \<not> EXISTS (rwfle_header e) then incrLen tname 1 s else Some s) = Some s1"
    "rwflt.holds tname as k a e s1" "beside tname s s1" "rwflt.slot s1 tname = rwflt.slot s tname"
    "list_len s1 tname = list_len s tname + (if \<not> EXISTS (rwfle_header e) then 1 else 0)"
  proof (cases "EXISTS (rwfle_header e)")
    case False
    obtain s1 where "incrLen tname 1 s = Some s1" "rwflt.holds tname as k a e s1" "beside tname s s1"
      "rwflt.slot s1 tname = rwflt.slot s tname" "list_len s1 tname = list_len s tname + 1"
      using rwflt.incrLen_slot[OF h one_neq_zero] by blast
    then show ?thesis using that False by simp
  qed (use that[of s] h in simp)
  show ?thesis
    using that[of "incr_dirty (heap_put a (LRwfle ?e) s1)"] s1 rwflt.put_slot[OF s1(2) e] True v vp
    by (simp add: rwfl_innate_def rwfl_put_def)
next
  case False
  then show ?thesis using that[of s] h rwflt.holds_slot[OF h] by (simp add: fun_upd_idem)
qed

text \<open>What the arguments of a broadcast operation denote.\<close>

fun rwfl_args :: "rwfl_op \<Rightarrow> sds list \<Rightarrow> bool" where
  "rwfl_args (RAdd t v) args \<longleftrightarrow> 9 < length args \<and> insert_values args 5 = Some v \<and> sdsToVC (last args) = Some t"
| "rwfl_args (RUpd t u) args \<longleftrightarrow> 5 < length args \<and> args ! 3 = fst u \<and> sdsToLc (args ! 5) = Some (fst (snd u)) \<and>
     map_option to_int (getLongLongFromObject (args ! 4)) = Some (snd (snd u)) \<and> sdsToVC (last args) = Some t"
| "rwfl_args (RRmv t) args \<longleftrightarrow> 2 < length args \<and> sdsToVC (last args) = Some t"

fun rwfl_effect :: "rwfl_op \<Rightarrow> effect" where
  "rwfl_effect (RAdd t v) = rwflinsert_effect"
| "rwfl_effect (RUpd t u) = rwflupdate_effect"
| "rwfl_effect (RRmv t) = rwflrem_effect"

fun is_insert :: "rwfl_op \<Rightarrow> bool" where
  "is_insert (RAdd t v) = True"
| "is_insert _ = False"

definition rwfl_key :: "rwfl_op \<Rightarrow> sds list \<Rightarrow> sds" where
  "rwfl_key p args = (if is_insert p then args ! 3 else args ! 2)"

text \<open>An element after an operation. \<open>x\<close> is the position an insertion carries.\<close>

definition rwfl_after :: "rwfl_op \<Rightarrow> sds \<Rightarrow> leid \<Rightarrow> sds \<Rightarrow> rwfle \<Rightarrow> rwfle" where
  "rwfl_after p k x content e = rwfe.step p (if is_insert p then placed_as k x content e else e)"

text \<open>What an insertion needs of the list: a position that no other element has, and a hint that is
  not after it.\<close>

definition fits :: "server \<Rightarrow> sds \<Rightarrow> sds \<Rightarrow> sds \<Rightarrow> leid \<Rightarrow> bool" where
  "fits s tname prev k x \<longleftrightarrow> prev \<notin> set reserved \<and> prev \<noteq> k \<and>
     (\<forall>k' d. k' \<noteq> k \<longrightarrow> rwflt.slot s tname k' = Some d \<longrightarrow> rwfle_pos_id d \<noteq> Some x) \<and>
     (\<forall>d y. rwflt.slot s tname prev = Some d \<longrightarrow> rwfle_pos_id d = Some y \<longrightarrow> leid_lt y x)"

lemma rwfl_rem_done:
  assumes "rwflt.list_inv tname s as" "k \<notin> set reserved" "clocks_ok n tname s" "vc_size t = n"
    and args: "rargv c = Some args" "rwfl_args (RRmv t) args" "args ! 1 = tname" "args ! 2 = k"
  shows "\<exists>e. element_before s tname k e \<and>
    rwfl_done tname k (rwfe.step (RRmv t) e) (len_change (RRmv t) e) s c (rwflrem_effect c s)"
proof -
  obtain a s1 s2 e e0 where h: "GET_RWFLE tname k True s = Some (Some a, s1)" "rwfl_removeFunc tname a t s1 = Some s2"
    "started tname k t as a e e0 s s2" using effect_start[OF assms(1-4)] .
  note st = startedD[OF h(3)]
  have "rwflrem_effect c s = Some (c, s2)" using h(1,2) args by (auto simp: rwflrem_effect_def CR_GET_LAST_def arg_def)
  then show ?thesis using st(1,9) by auto
qed

lemma rwfl_update_done:
  assumes "rwflt.list_inv tname s as" "k \<notin> set reserved" "clocks_ok n tname s" "vc_size t = n"
    and args: "rargv c = Some args" "rwfl_args (RUpd t u) args" "args ! 1 = tname" "args ! 2 = k"
  shows "\<exists>e c'. element_before s tname k e \<and>
    rwfl_done tname k (rwfe.step (RUpd t u) e) (len_change (RUpd t u) e) s c' (rwflupdate_effect c s)"
proof -
  obtain a s1 s2 e e0 where h: "GET_RWFLE tname k True s = Some (Some a, s1)" "rwfl_removeFunc tname a t s1 = Some s2"
    "started tname k t as a e e0 s s2" using effect_start[OF assms(1-4)] .
  note st = startedD[OF h(3)]
  obtain ty lt v where u: "u = (ty, lt, v)" by (cases u)
  obtain b h' where chk: "updateCheck (rwfle_header e) t = (b, h')" by fastforce
  let ?e = "rwfl_acquire u (rwfl_put h' e)"
  show ?thesis
  proof (cases b)
    case True
    have "naked ?e = rwfe.step (RUpd t u) e0"
      using chk st(8) True st(3)[symmetric] by (simp add: Let_def naked_dress dress_put dress_acquire)
        (simp add: dress_def rwfl_acquire_def u rwfl_put_def)
    moreover have "rwfle_pos_id ?e = rwfle_pos_id e" "rwfle_next ?e = rwfle_next e" "rwfle_oid ?e = rwfle_oid e"
      by (simp_all add: u rwfl_acquire_def rwfl_put_def)
    ultimately have "rwfl_done tname k (rwfe.step (RUpd t u) e0) (len_change (RUpd t u) e0) s c'
        (Some (c', incr_dirty (heap_put a (LRwfle ?e) s2)))" for c'
      using rwfl_doneI[OF refl, of tname as k a ?e "incr_dirty (heap_put a (LRwfle ?e) s2)" s "rwfe.step (RUpd t u) e0" "len_change (RUpd t u) e0" c']
        rwflt.put_slot[OF st(2), of ?e] st(4-6) by (simp del: rwfe.step.simps)
    moreover have "\<exists>c'. rwflupdate_effect c s = Some (c', incr_dirty (heap_put a (LRwfle ?e) s2))"
      using h(1,2) args st(7) chk True
      by (auto simp: rwflupdate_effect_def CR_GET_LAST_def arg_def u rwfl_acquire_def rwfl_put_def Let_def)
    ultimately show ?thesis using st(1) by force
  next
    case False
    then have "rwfe.step (RUpd t u) e0 = rwfe.removing t e0"
      using chk st(8) by (auto simp: updateCheck_def Let_def split: if_splits)
    moreover have "rwflupdate_effect c s = Some (c, s2)"
      using h(1,2) args st(7) chk False by (auto simp: rwflupdate_effect_def CR_GET_LAST_def arg_def u Let_def)
    ultimately show ?thesis using st(1,9) by (intro exI[of _ e0] exI[of _ c]) (simp del: rwfe.step.simps)
  qed
qed

lemma rwfl_insert_done:
  assumes "rwflt.list_inv tname s as" "k \<notin> set reserved" "clocks_ok n tname s" "vc_size t = n"
    and args: "rargv c = Some args" "rwfl_args (RAdd t v) args" "args ! 1 = tname" "args ! 3 = k"
    and x: "sdsToLeid (args ! 9) = Some x" "fits s tname (args ! 2) k x"
  shows "\<exists>e. element_before s tname k e \<and>
    rwfl_done tname k (rwfe.step (RAdd t v) (placed_as k x (args ! 4) e)) (len_change (RAdd t v) e) s c (rwflinsert_effect c s)"
proof -
  obtain a s1 s2 e e0 where h: "GET_RWFLE tname k True s = Some (Some a, s1)" "rwfl_removeFunc tname a t s1 = Some s2"
    "started tname k t as a e e0 s s2" using effect_start[OF assms(1-4)] .
  note st = startedD[OF h(3)]
  let ?prev = "args ! 2" and ?f = "placed_as k x (args ! 4) e0"
  have prev: "?prev \<notin> set reserved" "?prev \<noteq> k" using x(2) by (simp_all add: fits_def)
  have fit: "rwfle_pos_id d \<noteq> Some x" if "k' \<noteq> k" "rwflt.slot s2 tname k' = Some d" for k' d
    using that x(2) unfolding fits_def st(4) by auto
  have hint: "leid_lt y x" if "rwflt.slot s2 tname ?prev = Some d" "rwfle_pos_id d = Some y" for d y
    using that x(2) unfolding fits_def st(4) by (metis fun_upd_apply)
  obtain s3 as3 e3 where s3:
    "(if rwfle_oid e = None then rwfl_link tname tname ?prev a (heap_put a (LRwfle (placed_as k x (args ! 4) e)) s2) else Some s2) = Some s3"
    "rwflt.holds tname as3 k a e3 s3" "naked e3 = placed_as k x (args ! 4) (naked e)" "beside tname s2 s3"
    "rwflt.slot s3 tname = (rwflt.slot s2 tname)(k \<mapsto> placed_as k x (args ! 4) (naked e))" "list_len s3 tname = list_len s2 tname"
    by (rule insert_place[OF st(2), of x ?prev "args ! 4"]) (use fit hint prev in blast)+
  have hd: "rwfle_header e3 = rwfle_header e" using arg_cong[OF s3(3), of rwfle_header] by (simp add: placed_as_def split: if_splits)
  obtain b h' where chk: "addCheck (rwfle_header e3) t = (b, h')" by fastforce
  have v: "insert_values args 5 = Some v" using args(2) by simp
  let ?e = "if b then rwfl_innate v (rwfl_put h' e3) else e3"
  obtain s4 where s4: "(if b then do {
       s \<leftarrow> (if \<not> EXISTS (rwfle_header e3) then incrLen tname 1 s3 else Some s3);
       (vals, property) \<leftarrow> insert_values args 5;
       let e = innate_update vals property (e3\<lparr>rwfle_header := h'\<rparr>);
       Some (c, incr_dirty (heap_put a (LRwfle e) s))
     }
     else Some (c, s3)) = Some (c, s4)" "rwflt.holds tname as3 k a ?e s4" "beside tname s3 s4"
    "rwflt.slot s4 tname = (rwflt.slot s3 tname)(k \<mapsto> naked ?e)"
    "list_len s4 tname = list_len s3 tname + (if b \<and> \<not> EXISTS (rwfle_header e3) then 1 else 0)"
    using insert_finish[OF s3(2) chk v, of c] by blast
  have ht: "GET_LIST_HT tname True s2 = Some (Some tname, s2)" "rwfle_at s3 a = Some e3"
    using st(2) s3(2) by (simp_all add: GET_LIST_HT_hash rwflt.holds_def)
  have eff: "rwflinsert_effect c s = Some (c, s4)"
  proof (cases "rwfle_oid e = None")
    case True
    then have "rwfl_link tname tname ?prev a (heap_put a (LRwfle
        (e\<lparr>rwfle_oid := Some k, rwfle_content := Some (args ! 4), rwfle_pos_id := Some x\<rparr>)) s2) = Some s3"
      using s3(1) by (simp add: placed_as_def)
    then show ?thesis
      using True h(1,2) args ht st(7) chk s4(1) x(1) by (auto simp: rwflinsert_effect_def CR_GET_LAST_def arg_def)
  next
    case False
    then have "s3 = s2" using s3(1) by auto
    then show ?thesis
      using False h(1,2) args ht st(7) chk s4(1) by (auto simp: rwflinsert_effect_def CR_GET_LAST_def arg_def)
  qed
  have e3: "naked e3 = rwfe.removing t ?f"
    unfolding s3(3) st(3) by (simp add: placed_as_dress dress_removing)
  have hd3: "rwfle_header (rwfe.removing t ?f) = rwfle_header e3" using arg_cong[OF e3, of rwfle_header] by simp
  have "naked ?e = rwfe.step (RAdd t v) ?f"
    using chk hd3 e3[symmetric] by (cases b) (simp_all add: Let_def naked_dress dress_put dress_innate addCheck_def innate_put_other split: if_splits)
  moreover have "list_len s4 tname = list_len s tname + len_change (RAdd t v) e0"
    using s4(5) s3(6) st(6) chk by (simp add: hd st(8) Let_def)
  ultimately have "rwfl_done tname k (rwfe.step (RAdd t v) ?f) (len_change (RAdd t v) e0) s c (rwflinsert_effect c s)"
    using rwfl_doneI[OF eff s4(2), of s "rwfe.step (RAdd t v) ?f" "len_change (RAdd t v) e0"]
      beside_trans[OF beside_trans[OF st(5) s3(4)] s4(3)] s4(4) s3(5) st(4) by (simp del: rwfe.step.simps len_change.simps)
  then show ?thesis using st(1) by blast
qed

section \<open>Receiving operations in any order\<close>

fun rwfl_receive :: "(rwfl_op \<times> client) list \<Rightarrow> server \<Rightarrow> server option" where
  "rwfl_receive [] s = Some s"
| "rwfl_receive ((p, c) # msgs) s = do {
     (c, s) \<leftarrow> rwfl_effect p c s;
     rwfl_receive msgs s
   }"

definition lmsg_args :: "rwfl_op \<times> client \<Rightarrow> sds list" where
  "lmsg_args m = (case rargv (snd m) of Some args \<Rightarrow> args | None \<Rightarrow> [])"

definition lmsg_key :: "rwfl_op \<times> client \<Rightarrow> sds" where
  "lmsg_key m = rwfl_key (fst m) (lmsg_args m)"

definition lmsg_ops :: "sds \<Rightarrow> (rwfl_op \<times> client) list \<Rightarrow> rwfl_op list" where
  "lmsg_ops k msgs = map fst (filter (\<lambda>m. lmsg_key m = k) msgs)"

definition inserted :: "(rwfl_op \<times> client) list \<Rightarrow> sds set" where
  "inserted msgs = lmsg_key ` {m \<in> set msgs. is_insert (fst m)}"

text \<open>Well-formed operations on the list \<open>tname\<close> of \<open>n\<close> replicas. Each identifier has one position;
  different identifiers have different positions; the element an insertion names as its
  predecessor comes before the new one. The content of an identifier is that of the first of its
  insertions.\<close>

definition lmsg_ok :: "sds \<Rightarrow> nat \<Rightarrow> (sds \<Rightarrow> leid) \<Rightarrow> rwfl_op \<times> client \<Rightarrow> bool" where
  "lmsg_ok tname n pos m \<longleftrightarrow> rargv (snd m) \<noteq> None \<and> rwfl_args (fst m) (lmsg_args m) \<and> lmsg_args m ! 1 = tname \<and>
     vc_size (op_clock (fst m)) = n \<and> op_ids_ok (fst m) \<and> lmsg_key m \<notin> set reserved \<and>
     (is_insert (fst m) \<longrightarrow> sdsToLeid (lmsg_args m ! 9) = Some (pos (lmsg_key m)) \<and>
        lmsg_args m ! 2 \<notin> set reserved \<and> lmsg_args m ! 2 \<noteq> lmsg_key m)"

definition contents_first :: "(sds \<Rightarrow> sds) \<Rightarrow> (rwfl_op \<times> client) list \<Rightarrow> bool" where
  "contents_first cont msgs \<longleftrightarrow> (\<forall>i < length msgs.
     is_insert (fst (msgs ! i)) \<and> lmsg_key (msgs ! i) \<notin> inserted (take i msgs) \<longrightarrow>
     lmsg_args (msgs ! i) ! 4 = cont (lmsg_key (msgs ! i)))"

definition lmsgs_ok :: "sds \<Rightarrow> nat \<Rightarrow> (sds \<Rightarrow> leid) \<Rightarrow> (sds \<Rightarrow> sds) \<Rightarrow> (rwfl_op \<times> client) list \<Rightarrow> bool" where
  "lmsgs_ok tname n pos cont msgs \<longleftrightarrow> list_all (lmsg_ok tname n pos) msgs \<and> contents_first cont msgs \<and> inj_on pos (inserted msgs) \<and>
     (\<forall>m \<in> set msgs. is_insert (fst m) \<and> lmsg_args m ! 2 \<in> inserted msgs \<longrightarrow> leid_lt (pos (lmsg_args m ! 2)) (pos (lmsg_key m)))"

lemma inserted_snoc: "inserted (msgs @ [m]) = (if is_insert (fst m) then insert (lmsg_key m) (inserted msgs) else inserted msgs)"
  by (auto simp: inserted_def)

lemma contents_first_snoc:
  "contents_first cont (msgs @ [m]) \<longleftrightarrow> contents_first cont msgs \<and>
     (is_insert (fst m) \<and> lmsg_key m \<notin> inserted msgs \<longrightarrow> lmsg_args m ! 4 = cont (lmsg_key m))"
  by (auto simp: contents_first_def nth_append less_Suc_eq)

lemma lmsgs_ok_snoc: "lmsgs_ok tname n pos cont (msgs @ [m]) \<Longrightarrow> lmsgs_ok tname n pos cont msgs"
  by (auto simp: lmsgs_ok_def contents_first_snoc inserted_snoc inj_on_insert split: if_splits)

lemma lmsg_ops_snoc: "lmsg_ops k (msgs @ [m]) = lmsg_ops k msgs @ (if lmsg_key m = k then [fst m] else [])"
  by (simp add: lmsg_ops_def)

lemma lmsg_ops_history: "lmsgs_ok tname n pos cont msgs \<Longrightarrow> rwfl_history n (lmsg_ops k msgs)"
  by (auto simp: lmsgs_ok_def lmsg_ops_def rwfl_history_def rwf_history_def lmsg_ok_def list_all_iff)

lemma lmsg_ops_none: "lmsg_ops k msgs = [] \<Longrightarrow> k \<notin> inserted msgs"
  by (auto simp: lmsg_ops_def inserted_def filter_empty_conv)

text \<open>The element of an identifier after the messages.\<close>

definition labelled :: "(sds \<Rightarrow> leid) \<Rightarrow> (sds \<Rightarrow> sds) \<Rightarrow> sds set \<Rightarrow> sds \<Rightarrow> rwfle \<Rightarrow> rwfle" where
  "labelled pos cont ks k e = (if k \<in> ks then dress (Some k) (Some (pos k)) (Some (cont k)) None e else e)"

definition ldescribed :: "nat \<Rightarrow> int \<Rightarrow> (sds \<Rightarrow> leid) \<Rightarrow> (sds \<Rightarrow> sds) \<Rightarrow> (rwfl_op \<times> client) list \<Rightarrow> sds \<Rightarrow> rwfle \<Rightarrow> bool" where
  "ldescribed n me pos cont msgs k e \<longleftrightarrow>
     (\<exists>junk. e = labelled pos cont (inserted msgs) k (rwfe.run (lmsg_ops k msgs) (rwfleNew junk (int n) me)))"

lemma run_new:
  "rwfle_oid (rwfe.run hs (rwfleNew junk n me)) = None" "rwfle_pos_id (rwfe.run hs (rwfleNew junk n me)) = None"
  "rwfle_next (rwfe.run hs (rwfleNew junk n me)) = None"
  by (induction hs rule: rev_induct) (simp_all add: rwfleNew_def del: rwfe.step.simps)

lemma ldescribed_step:
  assumes e: "ldescribed n me pos cont msgs k e" and k: "lmsg_key m = k"
  shows "ldescribed n me pos cont (msgs @ [m]) k
    (rwfe.step (fst m) (if is_insert (fst m) then placed_as k (pos k) (cont k) e else e))"
proof -
  obtain junk where j: "e = labelled pos cont (inserted msgs) k (rwfe.run (lmsg_ops k msgs) (rwfleNew junk (int n) me))"
    using e by (auto simp: ldescribed_def)
  have "(if is_insert (fst m) then placed_as k (pos k) (cont k) e else e) =
    labelled pos cont (inserted (msgs @ [m])) k (rwfe.run (lmsg_ops k msgs) (rwfleNew junk (int n) me))"
    using k by (simp add: j labelled_def inserted_snoc placed_as_dress run_new)
  then show ?thesis
    unfolding ldescribed_def using k
    by (intro exI[of _ junk]) (simp add: labelled_def lmsg_ops_snoc dress_step del: rwfe.step.simps)
qed

lemma ldescribed_other:
  "ldescribed n me pos cont msgs k e \<Longrightarrow> lmsg_key m \<noteq> k \<Longrightarrow> ldescribed n me pos cont (msgs @ [m]) k e"
  by (simp add: ldescribed_def labelled_def inserted_snoc lmsg_ops_snoc)

lemma ldescribed_facts:
  assumes e: "ldescribed n me pos cont msgs k e" and ok: "lmsgs_ok tname n pos cont msgs"
  shows "vc_size (reh_current (rwfle_header e)) = n" "rwfle_pos_id e = (if k \<in> inserted msgs then Some (pos k) else None)"
proof -
  obtain junk where j: "e = labelled pos cont (inserted msgs) k (rwfe.run (lmsg_ops k msgs) (rwfleNew junk (int n) me))"
    using e by (auto simp: ldescribed_def)
  have h: "rwf_history n (lmsg_ops k msgs)" using lmsg_ops_history[OF ok] by (simp add: rwfl_history_def)
  show "vc_size (reh_current (rwfle_header e)) = n"
    using rwfe.current_run[OF h, of "rwfleNew junk (int n) me" me] length_latest[OF h]
    by (simp add: j labelled_def rwfleNew_def REH_INIT_def)
  show "rwfle_pos_id e = (if k \<in> inserted msgs then Some (pos k) else None)"
    by (simp add: j labelled_def run_new)
qed

definition rwfl_state :: "sds \<Rightarrow> nat \<Rightarrow> int \<Rightarrow> (sds \<Rightarrow> leid) \<Rightarrow> (sds \<Rightarrow> sds) \<Rightarrow> (rwfl_op \<times> client) list \<Rightarrow> server \<Rightarrow> bool" where
  "rwfl_state tname n me pos cont msgs s \<longleftrightarrow> (\<exists>as. rwflt.list_inv tname s as) \<and> p2p_count s = int n \<and> p2p_id s = me \<and>
     (msgs \<noteq> [] \<longrightarrow> hash_at s tname \<noteq> None) \<and>
     (\<forall>k. case rwflt.slot s tname k of
        None \<Rightarrow> lmsg_ops k msgs = []
      | Some e \<Rightarrow> ldescribed n me pos cont msgs k e)"

lemma rwfl_effect_done:
  assumes inv: "rwflt.list_inv tname s as" and n: "clocks_ok n tname s" and m: "lmsg_ok tname n pos m"
    and fit: "is_insert (fst m) \<Longrightarrow> fits s tname (lmsg_args m ! 2) (lmsg_key m) (pos (lmsg_key m))"
    and cont: "\<And>e. is_insert (fst m) \<Longrightarrow> lmsg_args m ! 4 \<noteq> cont (lmsg_key m) \<Longrightarrow> element_before s tname (lmsg_key m) e \<Longrightarrow> rwfle_oid e \<noteq> None"
  shows "\<exists>e c. element_before s tname (lmsg_key m) e \<and> rwfl_done tname (lmsg_key m)
    (rwfe.step (fst m) (if is_insert (fst m) then placed_as (lmsg_key m) (pos (lmsg_key m)) (cont (lmsg_key m)) e else e))
    (len_change (fst m) e) s c (rwfl_effect (fst m) (snd m) s)"
proof -
  obtain args where args: "rargv (snd m) = Some args" using m by (auto simp: lmsg_ok_def)
  then have a: "lmsg_args m = args" by (simp add: lmsg_args_def)
  have ok: "rwfl_args (fst m) args" "args ! 1 = tname" "vc_size (op_clock (fst m)) = n" "lmsg_key m \<notin> set reserved"
    using m a by (simp_all add: lmsg_ok_def)
  show ?thesis
  proof (cases "fst m")
    case (RAdd t v)
    then have k: "args ! 3 = lmsg_key m" by (simp add: lmsg_key_def rwfl_key_def a)
    have x: "sdsToLeid (args ! 9) = Some (pos (lmsg_key m))" using m RAdd a by (simp add: lmsg_ok_def)
    have "vc_size t = n" "rwfl_args (RAdd t v) args" "fits s tname (args ! 2) (lmsg_key m) (pos (lmsg_key m))"
      using ok RAdd fit a by simp_all
    from rwfl_insert_done[OF inv ok(4) n this(1) args this(2) ok(2) k x this(3)] obtain e
      where e: "element_before s tname (lmsg_key m) e" "rwfl_done tname (lmsg_key m)
        (rwfe.step (RAdd t v) (placed_as (lmsg_key m) (pos (lmsg_key m)) (args ! 4) e)) (len_change (RAdd t v) e) s (snd m)
        (rwflinsert_effect (snd m) s)" by blast
    have "placed_as (lmsg_key m) (pos (lmsg_key m)) (args ! 4) e = placed_as (lmsg_key m) (pos (lmsg_key m)) (cont (lmsg_key m)) e"
      using cont[OF _ _ e(1)] RAdd a by (cases "args ! 4 = cont (lmsg_key m)") (auto simp: placed_as_def)
    then show ?thesis using e unfolding RAdd is_insert.simps rwfl_effect.simps if_True by metis
  next
    case (RUpd t u)
    then have "args ! 2 = lmsg_key m" by (simp add: lmsg_key_def rwfl_key_def a)
    then show ?thesis
      using rwfl_update_done[OF inv ok(4) n _ args _ ok(2)] ok RUpd by (auto simp del: rwfe.step.simps len_change.simps)
  next
    case (RRmv t)
    then have "args ! 2 = lmsg_key m" "vc_size t = n" "rwfl_args (RRmv t) args"
      using ok by (simp_all add: lmsg_key_def rwfl_key_def a)
    from rwfl_rem_done[OF inv ok(4) n this(2) args this(3) ok(2) this(1)] show ?thesis
      unfolding RRmv is_insert.simps rwfl_effect.simps if_False by blast
  qed
qed

lemma rwfl_state_slot:
  assumes "rwfl_state tname n me pos cont msgs s"
  shows "case rwflt.slot s tname k of None \<Rightarrow> lmsg_ops k msgs = [] | Some e \<Rightarrow> ldescribed n me pos cont msgs k e"
  using assms unfolding rwfl_state_def by blast

lemma rwfl_state_element:
  assumes "rwfl_state tname n me pos cont msgs s" "element_before s tname k e"
  shows "ldescribed n me pos cont msgs k e"
proof (cases "rwflt.slot s tname k")
  case None
  then have o: "lmsg_ops k msgs = []" using rwfl_state_slot[OF assms(1), of k] by simp
  obtain junk where "e = rwfleNew junk (int n) me" using assms None by (auto simp: element_before_def rwfl_state_def)
  then show ?thesis using o lmsg_ops_none[OF o] by (auto simp: ldescribed_def labelled_def)
next
  case (Some d)
  then show ?thesis using assms unfolding rwfl_state_def element_before_def by (metis option.case(2) option.distinct(1) option.inject)
qed

lemma rwfl_state_fits:
  assumes st: "rwfl_state tname n me pos cont msgs s" and ok: "lmsgs_ok tname n pos cont (msgs @ [m])" and i: "is_insert (fst m)"
  shows "fits s tname (lmsg_args m ! 2) (lmsg_key m) (pos (lmsg_key m))"
proof -
  have ok': "lmsgs_ok tname n pos cont msgs" using ok by (rule lmsgs_ok_snoc)
  have p: "k' \<in> inserted msgs \<and> y = pos k'" if "rwflt.slot s tname k' = Some d" "rwfle_pos_id d = Some y" for k' d y
    using ldescribed_facts(2)[OF rwfl_state_element[OF st] ok', of k' d] that by (simp add: element_before_def split: if_splits)
  have "pos k' \<noteq> pos (lmsg_key m)" if "k' \<in> inserted msgs" "k' \<noteq> lmsg_key m" for k'
    using ok i that by (auto simp: lmsgs_ok_def inserted_snoc inj_on_def)
  moreover have "leid_lt (pos (lmsg_args m ! 2)) (pos (lmsg_key m))" if "lmsg_args m ! 2 \<in> inserted msgs"
    using ok i that by (auto simp: lmsgs_ok_def inserted_snoc)
  moreover have "lmsg_args m ! 2 \<notin> set reserved" "lmsg_args m ! 2 \<noteq> lmsg_key m"
    using ok i by (simp_all add: lmsgs_ok_def lmsg_ok_def)
  ultimately show ?thesis unfolding fits_def using p by metis
qed

lemma rwfl_state_step:
  assumes st: "rwfl_state tname n me pos cont msgs s" and ok: "lmsgs_ok tname n pos cont (msgs @ [m])"
  shows "\<exists>c s' e. rwfl_effect (fst m) (snd m) s = Some (c, s') \<and> rwfl_state tname n me pos cont (msgs @ [m]) s' \<and>
    beside tname s s' \<and> element_before s tname (lmsg_key m) e \<and> list_len s' tname = list_len s tname + len_change (fst m) e"
proof -
  obtain as where inv: "rwflt.list_inv tname s as" using st by (auto simp: rwfl_state_def)
  have ok': "lmsgs_ok tname n pos cont msgs" using ok by (rule lmsgs_ok_snoc)
  have "vc_size (reh_current (rwfle_header e)) = n" if "rwflt.slot s tname k = Some e" for k e
    by (rule ldescribed_facts(1)[OF rwfl_state_element[OF st, of k] ok']) (use that in \<open>simp add: element_before_def\<close>)
  then have n: "clocks_ok n tname s" using st by (simp add: clocks_ok_def rwfl_state_def)
  have m: "lmsg_ok tname n pos m" using ok by (simp add: lmsgs_ok_def)
  let ?k = "lmsg_key m"
  have first: "rwfle_oid e \<noteq> None" if "is_insert (fst m)" "lmsg_args m ! 4 \<noteq> cont ?k" "element_before s tname ?k e" for e
  proof -
    have "?k \<in> inserted msgs" using ok that(1,2) by (auto simp: lmsgs_ok_def contents_first_snoc)
    then show ?thesis using rwfl_state_element[OF st that(3)] by (auto simp: ldescribed_def labelled_def)
  qed
  obtain e c where e: "element_before s tname ?k e" and d: "rwfl_done tname ?k
    (rwfe.step (fst m) (if is_insert (fst m) then placed_as ?k (pos ?k) (cont ?k) e else e))
    (len_change (fst m) e) s c (rwfl_effect (fst m) (snd m) s)"
    using rwfl_effect_done[OF inv n m rwfl_state_fits[OF st ok] first] by blast
  let ?e = "rwfe.step (fst m) (if is_insert (fst m) then placed_as ?k (pos ?k) (cont ?k) e else e)"
  obtain s' as' where s': "rwfl_effect (fst m) (snd m) s = Some (c, s')" "rwflt.list_inv tname s' as'" "hash_at s' tname \<noteq> None"
    "rwflt.slot s' tname = (rwflt.slot s tname)(?k \<mapsto> ?e)" "beside tname s s'" "list_len s' tname = list_len s tname + len_change (fst m) e"
    using d by (auto simp: rwfl_done_def)
  have "case rwflt.slot s' tname k of None \<Rightarrow> lmsg_ops k (msgs @ [m]) = [] | Some e \<Rightarrow> ldescribed n me pos cont (msgs @ [m]) k e" for k
  proof (cases "k = ?k")
    case True
    then show ?thesis unfolding s'(4) using ldescribed_step[OF rwfl_state_element[OF st e] refl] by simp
  next
    case False
    then show ?thesis
      using rwfl_state_slot[OF st, of k] ldescribed_other[of n me pos cont msgs k _ m] unfolding s'(4)
      by (auto simp: lmsg_ops_snoc split: option.splits)
  qed
  then have "rwfl_state tname n me pos cont (msgs @ [m]) s'"
    using st s'(2,3,5) by (auto simp: rwfl_state_def beside_def)
  then show ?thesis using s'(1,5,6) e by blast
qed

lemma rwfl_receive_snoc:
  "rwfl_receive (msgs @ [m]) s = Option.bind (rwfl_receive msgs s) (\<lambda>s. map_option snd (rwfl_effect (fst m) (snd m) s))"
proof (induction msgs arbitrary: s)
  case Nil
  show ?case by (cases m; cases "rwfl_effect (fst m) (snd m) s") auto
next
  case (Cons m' msgs)
  obtain q d where "m' = (q, d)" by fastforce
  with Cons show ?case by (cases "rwfl_effect q d s") auto
qed

lemma rwfl_state_new: "p2p_count s = int n \<Longrightarrow> db s tname = None \<Longrightarrow> rwfl_state tname n (p2p_id s) pos cont [] s"
  using rwflt.list_inv_new[of s tname]
  by (auto simp: rwfl_state_def lmsg_ops_def rwflt.slot_def where_is_def field_def hash_at_def)

lemma rwfl_receive_ok:
  assumes "p2p_count s = int n" "db s tname = None" "lmsgs_ok tname n pos cont msgs"
  shows "\<exists>s'. rwfl_receive msgs s = Some s' \<and> rwfl_state tname n (p2p_id s) pos cont msgs s' \<and> beside tname s s'"
  using assms(3)
proof (induction msgs rule: rev_induct)
  case Nil
  then show ?case using rwfl_state_new[OF assms(1,2)] by simp
next
  case (snoc m msgs)
  obtain s1 where s1: "rwfl_receive msgs s = Some s1" "rwfl_state tname n (p2p_id s) pos cont msgs s1" "beside tname s s1"
    using snoc.IH lmsgs_ok_snoc[OF snoc.prems] by blast
  then show ?case
    using rwfl_state_step[OF s1(2) snoc.prems] beside_trans[OF s1(3)] by (fastforce simp: rwfl_receive_snoc)
qed

end
