(* ===== verification/RwflQueries.thy ===== *)
theory RwflQueries
  imports RwflReplica
begin

text \<open>
  What a replica of the remove-win list answers: the elements in the order of positions with the
  values the operations determine, the same on all replicas that received the same operations;
  and the recorded length, which counts the elements that exist unless an update overtakes the
  insertion it depends on.
\<close>

section \<open>Queries\<close>

lemma ldescribed_show:
  assumes "ldescribed n me pos cont msgs k e" "k \<in> inserted msgs"
  shows "rwfl_show e \<noteq> None"
  using assms by (auto simp: ldescribed_def labelled_def rwfl_show_def)

lemma rwfllist_ok:
  assumes st: "rwfl_state tname n me pos cont msgs s" and ok: "lmsgs_ok tname n pos cont msgs" and ne: "msgs \<noteq> []"
  obtains ks where "rwflq.ordered_keys (rwflt.slot s tname) ks"
    "\<And>q. 1 < length (argv q) \<Longrightarrow> argv q ! 1 = tname \<Longrightarrow>
      rwfllistCommand q s = Some (fold addReply (RArrayLen (list_len s tname) # rwflq.reply_for (rwflt.slot s tname) ks) q, s) \<and>
      rwfllenCommand q s = Some (addReply (RInt (list_len s tname)) q, s)"
proof -
  obtain as where inv: "rwflt.list_inv tname s as" using st by (auto simp: rwfl_state_def)
  have h: "hash_at s tname \<noteq> None" using st ne by (simp add: rwfl_state_def)
  have sh: "(if EXISTS (rwfle_header d) then rwfl_show d else Some []) \<noteq> None"
    if "rwflt.slot s tname k = Some d" "rwfle_pos_id d \<noteq> None" for k d
  proof -
    have d: "ldescribed n me pos cont msgs k d"
      by (rule rwfl_state_element[OF st]) (use that in \<open>simp add: element_before_def\<close>)
    then show ?thesis using ldescribed_show[OF d] ldescribed_facts(2)[OF d ok] that(2) by (auto split: if_splits)
  qed
  obtain hd' ks where ks: "getHead tname s = Some hd'" "rwflq.ordered_keys (rwflt.slot s tname) ks"
    "\<And>c. rwfl_list_loop s hd' c = Some (fold addReply (rwflq.reply_for (rwflt.slot s tname) ks) c)"
    by (rule rwflq.query_ok[OF inv h]) (use sh in blast)+
  have len: "getLen tname s = Some (list_len s tname)" using getLen_list_len[OF rwflt.list_invD(1)[OF inv] h] .
  obtain tab where "db s tname = Some (OHash tab)" using h by (auto simp: hash_at_def split: option.splits robj.splits)
  then show ?thesis
    using that[OF ks(2)] ks(1,3) len
    by (simp add: rwfllistCommand_def rwfllenCommand_def arg_def lookupKeyReadOrReply_def lookupKeyRead_def lookupKey_def)
qed

lemma inserted_ops: "k \<in> inserted msgs \<longleftrightarrow> (\<exists>p \<in> set (lmsg_ops k msgs). is_insert p)"
  by (force simp: inserted_def lmsg_ops_def)

text \<open>What a query shows of an element depends on the operations, not on the replica: nothing when
  no operation counts, else its content and the value of every property.\<close>

definition entry_spec :: "nat \<Rightarrow> (sds \<Rightarrow> sds) \<Rightarrow> sds \<Rightarrow> rwfl_op list \<Rightarrow> rep list" where
  "entry_spec n cont k hs = (let ops = current_ops n hs; v = (\<lambda>p. the (prop_view ops p)) in
     if ops = [] then []
     else [RArrayLen 6, RBulk k, RBulk (cont k), RBulkInt (v (NP font)), RBulkInt (v (NP fsize)), RBulkInt (v (NP color)),
       RBulkInt (bits_value (\<lambda>b. v (BP b) \<noteq> 0))])"

lemma entry_spec_perm:
  assumes m: "mset hs = mset hs'" and u: "adds_unique (current_ops n hs)" "writes_unique (current_ops n hs)"
  shows "entry_spec n cont k hs = entry_spec n cont k hs'"
proof -
  have mo: "mset (current_ops n hs) = mset (current_ops n hs')" using m by (rule current_ops_mset)
  moreover from this have "current_ops n hs = [] \<longleftrightarrow> current_ops n hs' = []" by auto
  ultimately show ?thesis using prop_view_perm[OF mo u] by (simp add: entry_spec_def Let_def)
qed

lemma ldescribed_entry:
  assumes e: "ldescribed n me pos cont msgs k e" and ok: "lmsgs_ok tname n pos cont msgs" and ins: "k \<in> inserted msgs"
    and c: "complete n (lmsg_ops k msgs)"
  shows "(if EXISTS (rwfle_header e) then rwfl_show e else Some []) = Some (entry_spec n cont k (lmsg_ops k msgs))"
proof -
  let ?ops = "current_ops n (lmsg_ops k msgs)"
  obtain junk where j: "e = dress (Some k) (Some (pos k)) (Some (cont k)) None (rwfe.run (lmsg_ops k msgs) (rwfleNew junk (int n) me))"
    using e ins by (auto simp: ldescribed_def labelled_def)
  let ?r = "rwfe.run (lmsg_ops k msgs) (rwfleNew junk (int n) me)"
  have s: "rwfl_shape ?ops ?r" using rwfl_run_shape[OF lmsg_ops_history[OF ok]] .
  have ex: "EXISTS (rwfle_header e) \<longleftrightarrow> ?ops \<noteq> []"
    using s pid_view_NEXIST[of ?ops] by (auto simp: j EXISTS_def rwfl_shape_def)
  show ?thesis
  proof (cases "?ops = []")
    case False
    then have "\<exists>v. prop_view ?ops p = Some v" for p
      using c by (cases "top_add (adds_of ?ops)") (auto simp: complete_def prop_view_def split: option.splits)
    then have v: "prop_view ?ops p = Some (the (prop_view ?ops p))" for p by (metis option.sel)
    have "rwfle_normal e x = the (prop_view ?ops (NP x))" for x
      using s v[of "NP x"] unfolding rwfl_shape_def j dress_simps by blast
    moreover have "rwfle_property e = bits_value (\<lambda>b. the (prop_view ?ops (BP b)) \<noteq> 0)"
    proof (rule is_bits_eqI)
      show "has_bit b (rwfle_property e) = has_bit b (bits_value (\<lambda>b. the (prop_view ?ops (BP b)) \<noteq> 0))" for b
        using s v[of "BP b"] unfolding rwfl_shape_def j dress_simps has_bit_value by blast
    qed (use run_bits in \<open>auto simp: j is_bits_def\<close>)
    ultimately show ?thesis
      using False ex by (simp add: rwfl_show_def entry_spec_def Let_def) (simp add: j)
  qed (use ex in \<open>simp add: entry_spec_def\<close>)
qed

lemma rwfl_list_reply:
  assumes st: "rwfl_state tname n me pos cont msgs s" and ok: "lmsgs_ok tname n pos cont msgs" and ne: "msgs \<noteq> []"
    and c: "\<And>k. k \<in> inserted msgs \<Longrightarrow> complete n (lmsg_ops k msgs)"
  obtains ks where "set ks = inserted msgs" "sorted_wrt (\<lambda>k k'. leid_lt (pos k) (pos k')) ks"
    "\<And>q. 1 < length (argv q) \<Longrightarrow> argv q ! 1 = tname \<Longrightarrow> rwfllistCommand q s =
      Some (fold addReply (RArrayLen (list_len s tname) # concat (map (\<lambda>k. entry_spec n cont k (lmsg_ops k msgs)) ks)) q, s) \<and>
      rwfllenCommand q s = Some (addReply (RInt (list_len s tname)) q, s)"
proof -
  let ?m = "rwflt.slot s tname"
  obtain ks where ks: "rwflq.ordered_keys ?m ks" "\<And>q. 1 < length (argv q) \<Longrightarrow> argv q ! 1 = tname \<Longrightarrow>
      rwfllistCommand q s = Some (fold addReply (RArrayLen (list_len s tname) # rwflq.reply_for ?m ks) q, s) \<and>
      rwfllenCommand q s = Some (addReply (RInt (list_len s tname)) q, s)"
    using rwfllist_ok[OF st ok ne] by blast
  have slot: "\<exists>e. ?m k = Some e \<and> ldescribed n me pos cont msgs k e" if "k \<in> inserted msgs" for k
    using rwfl_state_slot[OF st, of k] lmsg_ops_none[of k msgs] that by (auto split: option.splits)
  have p: "Option.bind (?m k) rwfle_pos_id = (if k \<in> inserted msgs then Some (pos k) else None)" for k
    using rwfl_state_slot[OF st, of k] lmsg_ops_none[of k msgs] ldescribed_facts(2)[where k = k, OF _ ok]
    by (auto split: option.splits)
  have set: "set ks = inserted msgs" using ks(1) by (auto simp: rwflq.ordered_keys_def p split: if_splits)
  have "sorted_wrt (\<lambda>k k'. leid_lt (pos k) (pos k')) ks"
    by (rule sorted_wrt_mono_rel[of ks "\<lambda>k k'. leid_lt (rwflq.pos_at ?m k) (rwflq.pos_at ?m k')"])
      (use ks(1) set in \<open>auto simp: rwflq.ordered_keys_def rwflq.pos_at_def p\<close>)
  moreover have "the (Option.bind (?m k) (\<lambda>e. if EXISTS (rwfle_header e) then rwfl_show e else Some [])) =
    entry_spec n cont k (lmsg_ops k msgs)" if "k \<in> set ks" for k
    using slot[of k] ldescribed_entry[where k = k, OF _ ok] c[of k] that set by fastforce
  then have "rwflq.reply_for ?m ks = concat (map (\<lambda>k. entry_spec n cont k (lmsg_ops k msgs)) ks)"
    unfolding rwflq.reply_for_def by (intro arg_cong[of _ _ concat] map_cong refl)
  ultimately show ?thesis using that[OF set] ks(2) by simp
qed

section \<open>The length of the list\<close>

text \<open>The length counts the elements that exist, as long as no update arrives before the insertion it
  depends on.\<close>

lemma len_change_counts:
  assumes hist: "rwfl_history n (hs @ [p])" and e: "rwfle_header e = rwfle_header (rwfe.run hs (rwfleNew junk (int n) me))"
    and full: "complete n (hs @ [p])"
  shows "len_change p e = of_bool (current_ops n (hs @ [p]) \<noteq> []) - of_bool (current_ops n hs \<noteq> [])"
proof -
  have h: "rwf_history n (hs @ [p])" "rwf_history n hs" "op_ids_ok p" "rwfl_history n hs"
    using hist by (auto simp: rwfl_history_def)
  have cur: "vc_vector (reh_current (rwfle_header e)) = latest n hs"
    using rwfe.current_run[OF h(2), of "rwfleNew junk (int n) me" me] e by (simp add: rwfleNew_def REH_INIT_def)
  have shape: "rwfl_shape (current_ops n hs) (rwfe.run hs (rwfleNew junk (int n) me))" using rwfl_run_shape[OF h(4)] .
  then have pid: "reh_pid (rwfle_header e) = pid_view (current_ops n hs)" and ex: "EXISTS (rwfle_header e) \<longleftrightarrow> current_ops n hs \<noteq> []"
    using pid_view_NEXIST[of "current_ops n hs"] by (auto simp: e EXISTS_def rwfl_shape_def)
  have len: "length (latest n hs) = length (op_vec p)" using h(1) length_latest[OF h(2)] by simp
  show ?thesis
  proof (cases "vle (op_vec p) (latest n hs)")
    case True
    then have rm: "rwfe.removing (op_clock p) e = e" "len_removed (op_clock p) e = 0"
      using cur by (simp_all add: rwfe.removing_def len_removed_def)
    show ?thesis
    proof (cases "op_vec p = latest n hs")
      case True
      note ops = current_ops_same[OF True]
      show ?thesis
        using rm ex ops full h(3) True cur pid by (cases p) (auto simp: addCheck_def Let_def complete_def clock_simps EXISTS_def)
    next
      case False
      then show ?thesis
        using rm current_ops_old[OF True False] cur by (cases p) (auto simp: addCheck_def Let_def clock_simps)
    qed
  next
    case False
    have rm: "rwfle_header (rwfe.removing (op_clock p) e) = REH_RMV_FUNC (rwfle_header e) (op_clock p)"
      "len_removed (op_clock p) e = of_bool (current_ops n hs \<noteq> [])"
      using cur False ex by (simp_all add: rwfe.removing_def len_removed_def rwfl_put_def)
    have eq: "op_vec p = vjoin (latest n hs) (op_vec p) \<longleftrightarrow> vle (latest n hs) (op_vec p)"
      using len vle_iff_vjoin[of "latest n hs" "op_vec p"] by auto
    show ?thesis
      using rm current_ops_new[OF h(1) False] full h(3) eq len cur
      by (cases p) (auto simp: addCheck_def Let_def complete_def clock_simps EXISTS_def REH_RMV_FUNC_def vc_update_join)
  qed
qed

definition shown_keys :: "nat \<Rightarrow> (rwfl_op \<times> client) list \<Rightarrow> sds set" where
  "shown_keys n msgs = {k. current_ops n (lmsg_ops k msgs) \<noteq> []}"

lemma shown_keys_finite: "finite (shown_keys n msgs)"
proof (rule finite_subset)
  show "shown_keys n msgs \<subseteq> lmsg_key ` set msgs"
    by (auto simp: shown_keys_def current_ops_def lmsg_ops_def filter_empty_conv)
qed simp

lemma shown_keys_snoc:
  "int (card (shown_keys n (msgs @ [m]))) = int (card (shown_keys n msgs)) +
    (of_bool (current_ops n (lmsg_ops (lmsg_key m) msgs @ [fst m]) \<noteq> []) - of_bool (current_ops n (lmsg_ops (lmsg_key m) msgs) \<noteq> []))"
proof -
  have "shown_keys n msgs - {lmsg_key m} = shown_keys n (msgs @ [m]) - {lmsg_key m}"
    by (auto simp: shown_keys_def lmsg_ops_snoc)
  from card_change[OF shown_keys_finite shown_keys_finite this] show ?thesis
    by (simp add: shown_keys_def lmsg_ops_snoc)
qed

lemma ldescribed_header:
  "ldescribed n me pos cont msgs k e \<Longrightarrow> \<exists>junk. rwfle_header e = rwfle_header (rwfe.run (lmsg_ops k msgs) (rwfleNew junk (int n) me))"
  by (auto simp: ldescribed_def labelled_def)

lemma rwfl_receive_len:
  assumes "p2p_count s = int n" "db s tname = None" "lmsgs_ok tname n pos cont msgs"
    and "\<And>i k. complete n (lmsg_ops k (take i msgs))"
  shows "\<exists>s'. rwfl_receive msgs s = Some s' \<and> rwfl_state tname n (p2p_id s) pos cont msgs s' \<and>
    list_len s' tname = int (card (shown_keys n msgs))"
  using assms(3,4)
proof (induction msgs rule: rev_induct)
  case Nil
  then show ?case
    using rwfl_state_new[OF assms(1,2)] assms(2)
    by (simp add: list_len_def field_def hash_at_def shown_keys_def lmsg_ops_def current_ops_def)
next
  case (snoc m msgs)
  let ?k = "lmsg_key m"
  have "complete n (lmsg_ops k (take i msgs))" for i k
    using snoc.prems(2)[of k "min i (length msgs)"] by (simp add: min_def split: if_splits)
  then obtain s1 where s1: "rwfl_receive msgs s = Some s1" "rwfl_state tname n (p2p_id s) pos cont msgs s1"
    "list_len s1 tname = int (card (shown_keys n msgs))"
    using snoc.IH lmsgs_ok_snoc[OF snoc.prems(1)] by blast
  obtain c s2 e where s2: "rwfl_effect (fst m) (snd m) s1 = Some (c, s2)" "rwfl_state tname n (p2p_id s) pos cont (msgs @ [m]) s2"
    "element_before s1 tname ?k e" "list_len s2 tname = list_len s1 tname + len_change (fst m) e"
    using rwfl_state_step[OF s1(2) snoc.prems(1)] by blast
  obtain junk where hd: "rwfle_header e = rwfle_header (rwfe.run (lmsg_ops ?k msgs) (rwfleNew junk (int n) (p2p_id s)))"
    using ldescribed_header[OF rwfl_state_element[OF s1(2) s2(3)]] by blast
  have ops: "lmsg_ops ?k (msgs @ [m]) = lmsg_ops ?k msgs @ [fst m]" by (simp add: lmsg_ops_snoc)
  have "complete n (lmsg_ops ?k (msgs @ [m]))" using snoc.prems(2)[of ?k "length (msgs @ [m])"] by simp
  then have "len_change (fst m) e = of_bool (current_ops n (lmsg_ops ?k msgs @ [fst m]) \<noteq> []) - of_bool (current_ops n (lmsg_ops ?k msgs) \<noteq> [])"
    using len_change_counts[OF _ hd] lmsg_ops_history[OF snoc.prems(1), of ?k] unfolding ops by blast
  then show ?case using s1 s2(1,2,4) shown_keys_snoc[of n msgs m] by (simp add: rwfl_receive_snoc)
qed

text \<open>An update that arrives before the insertion it depends on makes the element exist without
  counting it, and the insertion does not count it either.\<close>

lemma vjoin_zeros: "list_all (\<lambda>x. 0 \<le> x) ts \<Longrightarrow> length ts = n \<Longrightarrow> vjoin ts (replicate n 0) = ts"
  by (rule nth_equalityI) (auto simp: list_all_length max_def intro: antisym)

lemma early_update_len:
  assumes st: "rwfl_state tname n me pos cont [m] s" and ok: "lmsgs_ok tname n pos cont [m]"
    and m: "fst m = RUpd t u" "lmsg_key m = k" and t: "list_all (\<lambda>x. 0 \<le> x) (vc_vector t)" and e: "element_before s tname k e"
  shows "len_change (RAdd t v) e = 0"
proof -
  have ops: "lmsg_ops k [m] = [RUpd t u]" using m by (simp add: lmsg_ops_def)
  have n: "vc_size t = n" using ok m by (simp add: lmsgs_ok_def lmsg_ok_def)
  obtain junk where "rwfle_header e = rwfle_header (rwfe.run [RUpd t u] (rwfleNew junk (int n) me))"
    using rwfl_state_element[OF st e] by (auto simp: ldescribed_def labelled_def ops)
  moreover have "rwfl_history n [RUpd t u :: rwfl_op]" using n by (simp add: rwfl_history_def rwf_history_def)
  moreover have l: "latest n [RUpd t u :: rwfl_op] = vc_vector t" using vjoin_zeros[OF t n] by (simp add: latest_def)
  moreover have "current_ops n [RUpd t u :: rwfl_op] = [RUpd t u]" using l by (simp add: current_ops_def)
  ultimately have "reh_pid (rwfle_header e) = PID_WAIT_INNATE" "vc_vector (reh_current (rwfle_header e)) = vc_vector t"
    using rwfl_run_shape[of n "[RUpd t u]" junk me] rwfe.current_run[of n "[RUpd t u]" "rwfleNew junk (int n) me" me]
    by (auto simp: rwfl_shape_def pid_view_def rwfl_history_def rwfleNew_def REH_INIT_def)
  then show ?thesis by (simp add: len_removed_def rwfe.removing_def vle_def EXISTS_def Let_def)
qed

lemma shown_inserted: "complete n (lmsg_ops k msgs) \<Longrightarrow> k \<in> shown_keys n msgs \<Longrightarrow> k \<in> inserted msgs"
proof -
  assume "complete n (lmsg_ops k msgs)" "k \<in> shown_keys n msgs"
  then obtain x where "x \<in> set (adds_of (current_ops n (lmsg_ops k msgs)))"
    by (cases "adds_of (current_ops n (lmsg_ops k msgs))") (auto simp: complete_def shown_keys_def)
  then obtain p where p: "p \<in> set (lmsg_ops k msgs)" "x \<in> set (add_entry p)" by (auto simp: set_adds_of current_ops_def)
  have "is_insert p" using p(2) by (cases p) auto
  then show ?thesis unfolding inserted_ops using p(1) by blast
qed

lemma sorted_wrt_distinct: "(\<And>x. \<not> R x x) \<Longrightarrow> sorted_wrt R xs \<Longrightarrow> distinct xs"
  by (induction xs) auto

lemma concat_map_filter: "(\<And>x. \<not> P x \<Longrightarrow> f x = []) \<Longrightarrow> concat (map f xs) = concat (map f (filter P xs))"
  by (induction xs) auto

text \<open>What a replica lists.\<close>

lemma rwfl_listed:
  assumes "p2p_count s = int n" and "db s tname = None" and "lmsgs_ok tname n pos cont msgs" and "msgs \<noteq> []"
    and "\<And>k. k \<in> inserted msgs \<Longrightarrow> complete n (lmsg_ops k msgs)"
  shows "\<exists>s' ks l. rwfl_receive msgs s = Some s' \<and> set ks = inserted msgs \<and> sorted_wrt (\<lambda>k k'. leid_lt (pos k) (pos k')) ks \<and>
    (\<forall>q. 1 < length (argv q) \<and> argv q ! 1 = tname \<longrightarrow> rwfllistCommand q s' =
      Some (fold addReply (RArrayLen l # concat (map (\<lambda>k. entry_spec n cont k (lmsg_ops k msgs)) ks)) q, s'))"
proof -
  obtain s' where s': "rwfl_receive msgs s = Some s'" "rwfl_state tname n (p2p_id s) pos cont msgs s'"
    using rwfl_receive_ok[OF assms(1-3)] by blast
  obtain ks where "set ks = inserted msgs" "sorted_wrt (\<lambda>k k'. leid_lt (pos k) (pos k')) ks"
    "\<And>q. 1 < length (argv q) \<Longrightarrow> argv q ! 1 = tname \<Longrightarrow> rwfllistCommand q s' =
      Some (fold addReply (RArrayLen (list_len s' tname) # concat (map (\<lambda>k. entry_spec n cont k (lmsg_ops k msgs)) ks)) q, s') \<and>
      rwfllenCommand q s' = Some (addReply (RInt (list_len s' tname)) q, s')"
    by (rule rwfl_list_reply[OF s'(2) assms(3,4)]) (use assms(5) in blast)+
  then show ?thesis using s'(1) by blast
qed

section \<open>An example\<close>

text \<open>Replica 0 of two inserts the element \<open>a\<close> and then changes its font.\<close>

definition demo_clock :: vc where
  "demo_clock = \<lparr>vc_vector = [0, 0], vc_id = 0\<rparr>"

definition demo_insert :: "rwfl_op \<times> client" where
  "demo_insert = (RAdd demo_clock (\<lambda>n. case n of font \<Rightarrow> 1 | fsize \<Rightarrow> 2 | color \<Rightarrow> 3, 5),
     createClient\<lparr>rargv := Some [''rwflinsert'', ''l'', ''null'', ''a'', ''A'', ''1'', ''2'', ''3'', ''5'', ''9,0,0'', ''0,0|0'']\<rparr>)"

definition demo_update :: "rwfl_op \<times> client" where
  "demo_update = (RUpd demo_clock (''font'', \<lparr>lc_x = 1, lc_id = 0\<rparr>, 7),
     createClient\<lparr>rargv := Some [''rwflupdate'', ''l'', ''a'', ''font'', ''7'', ''1,0'', ''0,0|0'']\<rparr>)"

definition demo_server :: "int \<Rightarrow> server" where
  "demo_server me = (initServer [] [] (\<lambda>_. dzero) (\<lambda>_ _. 0))\<lparr>p2p_count := 2, p2p_id := me\<rparr>"

lemma demo_texts:
  "sdsToVC ''0,0|0'' = Some demo_clock" "string2ll ''1'' = Some 1" "string2ll ''2'' = Some 2" "string2ll ''3'' = Some 3"
  "string2ll ''5'' = Some 5" "string2ll ''7'' = Some 7" "sdsToLc ''1,0'' = Some \<lparr>lc_x = 1, lc_id = 0\<rparr>"
  "sdsToLeid ''9,0,0'' = Some [\<lparr>p_pos = 9, p_pid = 0, p_count = 0\<rparr>]"
  by (simp_all add: eval_vc demo_clock_def sdsToLeid_def read_leid.simps after_comma_def sdsToLc_def scan_int_pair_def scan_int_def skip_sign_def lc_new_def)

lemma demo_keys: "lmsg_key demo_insert = ''a''" "lmsg_key demo_update = ''a''"
  by (simp_all add: lmsg_key_def lmsg_args_def rwfl_key_def demo_insert_def demo_update_def)

lemma demo_ops:
  "lmsg_ops k [demo_insert, demo_update] = (if k = ''a'' then [fst demo_insert, fst demo_update] else [])"
  "lmsg_ops k [demo_update, demo_insert] = (if k = ''a'' then [fst demo_update, fst demo_insert] else [])"
  by (simp_all add: lmsg_ops_def demo_keys)

lemma demo_kinds: "is_insert (fst demo_insert)" "\<not> is_insert (fst demo_update)"
  by (simp_all add: demo_insert_def demo_update_def)

lemma demo_inserted: "inserted [demo_insert, demo_update] = {''a''}" "inserted [demo_update, demo_insert] = {''a''}"
  by (auto simp: set_eq_iff inserted_ops demo_ops demo_kinds split: if_splits)

lemma demo_current:
  "current_ops 2 [fst demo_insert, fst demo_update] = [fst demo_insert, fst demo_update]"
  "current_ops 2 [fst demo_update, fst demo_insert] = [fst demo_update, fst demo_insert]"
  by (simp_all add: current_ops_def latest_def demo_insert_def demo_update_def demo_clock_def vjoin_def numeral_2_eq_2)

lemma demo_complete:
  "complete 2 (lmsg_ops k [demo_insert, demo_update])" "complete 2 (lmsg_ops k [demo_update, demo_insert])"
  by (simp_all add: complete_def demo_ops demo_current) (simp_all add: demo_insert_def current_ops_def)

lemma demo_view:
  "prop_view [fst demo_update, fst demo_insert] (NP font) = Some 7"
  "prop_view [fst demo_update, fst demo_insert] (NP fsize) = Some 2"
  "prop_view [fst demo_update, fst demo_insert] (NP color) = Some 3"
  "prop_view [fst demo_update, fst demo_insert] (BP b) = Some (5 AND prop_mask b)"
  by (simp_all add: prop_view_def writes_def writes_to_def demo_update_def demo_insert_def prop_of_name_def eval_string
      demo_clock_def to_int_def)

lemma demo_ok:
  "lmsg_ok ''l'' 2 (\<lambda>_. [\<lparr>p_pos = 9, p_pid = 0, p_count = 0\<rparr>]) demo_insert"
  "lmsg_ok ''l'' 2 (\<lambda>_. [\<lparr>p_pos = 9, p_pid = 0, p_count = 0\<rparr>]) demo_update"
proof -
  have v: "insert_values [''rwflinsert'', ''l'', ''null'', ''a'', ''A'', ''1'', ''2'', ''3'', ''5'', ''9,0,0'', ''0,0|0''] 5 =
    Some (\<lambda>n. case n of font \<Rightarrow> 1 | fsize \<Rightarrow> 2 | color \<Rightarrow> 3, 5)"
    by (simp add: insert_values_def arg_def getLongLongFromObject_def demo_texts)
  show "lmsg_ok ''l'' 2 (\<lambda>_. [\<lparr>p_pos = 9, p_pid = 0, p_count = 0\<rparr>]) demo_insert"
    unfolding lmsg_ok_def demo_keys by (simp add: demo_insert_def lmsg_args_def v demo_texts reserved_def) (simp add: demo_clock_def)
  show "lmsg_ok ''l'' 2 (\<lambda>_. [\<lparr>p_pos = 9, p_pid = 0, p_count = 0\<rparr>]) demo_update"
    unfolding lmsg_ok_def demo_keys
    by (simp add: demo_update_def lmsg_args_def demo_texts reserved_def getLongLongFromObject_def to_int_def) (simp add: demo_clock_def)
qed

lemma demo_msgs_ok:
  "lmsgs_ok ''l'' 2 (\<lambda>_. [\<lparr>p_pos = 9, p_pid = 0, p_count = 0\<rparr>]) (\<lambda>_. ''A'') [demo_insert, demo_update]"
  "lmsgs_ok ''l'' 2 (\<lambda>_. [\<lparr>p_pos = 9, p_pid = 0, p_count = 0\<rparr>]) (\<lambda>_. ''A'') [demo_update, demo_insert]"
  unfolding lmsgs_ok_def demo_inserted using demo_ok
  by (auto simp: contents_first_def demo_insert_def demo_update_def lmsg_args_def less_Suc_eq)

section \<open>Properties\<close>

text \<open>C25: what a replica of the remove-win list shows. After it has received well-formed operations in
  any order it has not failed, and it lists the identifiers that were inserted in the order of their
  positions, each with the content of the first insertion that arrived and with its properties: the
  last update with the current clock decides a property, and where there is none the insertion of
  the largest replica identifier does. Elements whose last operations are removals are left out.
  Well-formed means that all insertions of an identifier carry the same position and different
  identifiers different ones, that an insertion names a predecessor that is another element and, if
  it is in the list, comes before the new one, and that no identifier or predecessor is one of the
  names the table keeps for itself. For every identifier that was inserted, an insertion with the
  current clock must have arrived as soon as any operation with that clock counts.\<close>

theorem rwfl_lists_in_order:
  assumes "p2p_count s = int n" and "db s tname = None" and "lmsgs_ok tname n pos cont msgs" and "msgs \<noteq> []"
    and "\<And>k. k \<in> inserted msgs \<Longrightarrow> complete n (lmsg_ops k msgs)"
  shows "\<exists>s' ks l. rwfl_receive msgs s = Some s' \<and> set ks = inserted msgs \<and> sorted_wrt (\<lambda>k k'. leid_lt (pos k) (pos k')) ks \<and>
    (\<forall>q. 1 < length (argv q) \<and> argv q ! 1 = tname \<longrightarrow> rwfllistCommand q s' =
      Some (fold addReply (RArrayLen l # concat (map (\<lambda>k. entry_spec n cont k (lmsg_ops k msgs)) ks)) q, s'))"
  using rwfl_listed[OF assms] .

theorem rwfl_lists_in_order_witness:
  "\<exists>s l. rwfl_receive [demo_update, demo_insert] (demo_server 1) = Some s \<and>
    rwfllistCommand (createClient\<lparr>argv := [''rwfllist'', ''l'']\<rparr>) s =
      Some (fold addReply [RArrayLen l, RArrayLen 6, RBulk ''a'', RBulk ''A'', RBulkInt 7, RBulkInt 2, RBulkInt 3, RBulkInt 5]
        (createClient\<lparr>argv := [''rwfllist'', ''l'']\<rparr>), s)"
proof -
  have new: "p2p_count (demo_server 1) = int 2" "db (demo_server 1) ''l'' = None" by (simp_all add: demo_server_def initServer_def)
  obtain s ks l where s: "rwfl_receive [demo_update, demo_insert] (demo_server 1) = Some s" "set ks = {''a''}"
    "sorted_wrt (\<lambda>k k'. leid_lt [\<lparr>p_pos = 9, p_pid = 0, p_count = 0\<rparr>] [\<lparr>p_pos = 9, p_pid = 0, p_count = 0\<rparr>]) ks"
    "\<forall>q. 1 < length (argv q) \<and> argv q ! 1 = ''l'' \<longrightarrow> rwfllistCommand q s = Some (fold addReply (RArrayLen l #
      concat (map (\<lambda>k. entry_spec 2 (\<lambda>_. ''A'') k (lmsg_ops k [demo_update, demo_insert])) ks)) q, s)"
    using rwfl_lists_in_order[OF new demo_msgs_ok(2)] demo_complete(2) unfolding demo_inserted by auto
  have "ks = [''a'']" using s(2,3) by (cases ks; cases "tl ks") auto
  moreover have "entry_spec 2 (\<lambda>_. ''A'') ''a'' (lmsg_ops ''a'' [demo_update, demo_insert]) =
    [RArrayLen 6, RBulk ''a'', RBulk ''A'', RBulkInt 7, RBulkInt 2, RBulkInt 3, RBulkInt 5]"
    by (simp add: entry_spec_def demo_ops demo_current Let_def demo_view bits_value_def)
  ultimately show ?thesis using s(1,4) by (intro exI[of _ s] exI[of _ l]) simp
qed

text \<open>C24: replicas of a remove-win list converge. Two replicas that have received the same operations
  on a list, each in its own order, list the same elements with the same contents and properties in
  the same order; only the number the reply starts with may differ. The operations have to be well
  formed as in the theorem before; of all insertions of one identifier one with the same content has
  to arrive first at both replicas; no replica may have issued two insertions of an element with one
  clock or two updates with one Lamport clock; and for every update that counts an insertion with
  its clock has to be among the operations.\<close>

theorem rwfl_replicas_converge:
  assumes n: "p2p_count s1 = int n" "p2p_count s2 = int n" and new: "db s1 tname = None" "db s2 tname = None"
    and ok: "lmsgs_ok tname n pos cont msgs1" "lmsgs_ok tname n pos cont msgs2" and ne: "msgs1 \<noteq> []"
    and same: "\<And>k. mset (lmsg_ops k msgs1) = mset (lmsg_ops k msgs2)"
    and uniq: "\<And>k. adds_unique (current_ops n (lmsg_ops k msgs1))" "\<And>k. writes_unique (current_ops n (lmsg_ops k msgs1))"
    and full: "\<And>k. complete n (lmsg_ops k msgs1)"
  shows "\<exists>s1' s2' l1 l2 rs. rwfl_receive msgs1 s1 = Some s1' \<and> rwfl_receive msgs2 s2 = Some s2' \<and>
    (\<forall>q. 1 < length (argv q) \<and> argv q ! 1 = tname \<longrightarrow>
      rwfllistCommand q s1' = Some (fold addReply (RArrayLen l1 # rs) q, s1') \<and>
      rwfllistCommand q s2' = Some (fold addReply (RArrayLen l2 # rs) q, s2'))"
proof -
  have ops: "set (lmsg_ops k msgs1) = set (lmsg_ops k msgs2)" for k using same by (metis set_mset_mset)
  have ins: "inserted msgs2 = inserted msgs1" by (auto simp: inserted_ops ops)
  have full2: "complete n (lmsg_ops k msgs2)" for k
    using full[of k] current_ops_mset[OF same[of k], of n] adds_of_mset[OF current_ops_mset[OF same[of k], of n]]
    by (auto simp: complete_def)
  have ne2: "msgs2 \<noteq> []"
  proof -
    obtain m where "m \<in> set msgs1" using ne by (cases msgs1) auto
    then have "fst m \<in> set (lmsg_ops (lmsg_key m) msgs1)" by (auto simp: lmsg_ops_def intro!: image_eqI[of _ fst m])
    then show ?thesis using ops[of "lmsg_key m"] by (auto simp: lmsg_ops_def)
  qed
  obtain s1' s2' where st: "rwfl_receive msgs1 s1 = Some s1'" "rwfl_state tname n (p2p_id s1) pos cont msgs1 s1'"
    "rwfl_receive msgs2 s2 = Some s2'" "rwfl_state tname n (p2p_id s2) pos cont msgs2 s2'"
    using rwfl_receive_ok[OF n(1) new(1) ok(1)] rwfl_receive_ok[OF n(2) new(2) ok(2)] by blast
  obtain ks1 where s1: "set ks1 = inserted msgs1" "sorted_wrt (\<lambda>k k'. leid_lt (pos k) (pos k')) ks1"
    "\<And>q. 1 < length (argv q) \<Longrightarrow> argv q ! 1 = tname \<Longrightarrow> rwfllistCommand q s1' =
      Some (fold addReply (RArrayLen (list_len s1' tname) # concat (map (\<lambda>k. entry_spec n cont k (lmsg_ops k msgs1)) ks1)) q, s1')"
    by (rule rwfl_list_reply[OF st(2) ok(1) ne]) (use full in blast)+
  obtain ks2 where s2: "set ks2 = inserted msgs2" "sorted_wrt (\<lambda>k k'. leid_lt (pos k) (pos k')) ks2"
    "\<And>q. 1 < length (argv q) \<Longrightarrow> argv q ! 1 = tname \<Longrightarrow> rwfllistCommand q s2' =
      Some (fold addReply (RArrayLen (list_len s2' tname) # concat (map (\<lambda>k. entry_spec n cont k (lmsg_ops k msgs2)) ks2)) q, s2')"
    by (rule rwfl_list_reply[OF st(4) ok(2) ne2]) (use full2 in blast)+
  have "ks2 = ks1"
    by (rule sorted_wrt_unique[of "\<lambda>k k'. leid_lt (pos k) (pos k')"]) (use s1(1,2) s2(1,2) ins leid_lt_trans in auto)
  moreover have "entry_spec n cont k (lmsg_ops k msgs2) = entry_spec n cont k (lmsg_ops k msgs1)" for k
    using entry_spec_perm[OF same uniq] by simp
  ultimately show ?thesis
    using st(1,3) s1(3) s2(3) by (intro exI[of _ s1', OF exI[of _ s2', OF exI[of _ "list_len s1' tname",
      OF exI[of _ "list_len s2' tname", OF exI[of _ "concat (map (\<lambda>k. entry_spec n cont k (lmsg_ops k msgs1)) ks1)"]]]]]) auto
qed

theorem rwfl_replicas_converge_witness:
  "\<exists>s1 s2 l1 l2 rs. rwfl_receive [demo_insert, demo_update] (demo_server 0) = Some s1 \<and>
    rwfl_receive [demo_update, demo_insert] (demo_server 1) = Some s2 \<and>
    rwfllistCommand (createClient\<lparr>argv := [''rwfllist'', ''l'']\<rparr>) s1 =
      Some (fold addReply (RArrayLen l1 # rs) (createClient\<lparr>argv := [''rwfllist'', ''l'']\<rparr>), s1) \<and>
    rwfllistCommand (createClient\<lparr>argv := [''rwfllist'', ''l'']\<rparr>) s2 =
      Some (fold addReply (RArrayLen l2 # rs) (createClient\<lparr>argv := [''rwfllist'', ''l'']\<rparr>), s2)"
proof -
  have new: "p2p_count (demo_server i) = int 2" "db (demo_server i) ''l'' = None" for i by (simp_all add: demo_server_def initServer_def)
  have same: "mset (lmsg_ops k [demo_insert, demo_update]) = mset (lmsg_ops k [demo_update, demo_insert])" for k
    by (simp add: demo_ops)
  have uniq: "adds_unique (current_ops 2 (lmsg_ops k [demo_insert, demo_update]))"
    "writes_unique (current_ops 2 (lmsg_ops k [demo_insert, demo_update]))" for k
    by (simp_all add: demo_ops demo_current adds_unique_def writes_unique_def writes_to_def)
      (auto simp: demo_insert_def demo_update_def current_ops_def inj_on_def)
  obtain s1 s2 l1 l2 rs where "rwfl_receive [demo_insert, demo_update] (demo_server 0) = Some s1"
    "rwfl_receive [demo_update, demo_insert] (demo_server 1) = Some s2"
    "\<forall>q. 1 < length (argv q) \<and> argv q ! 1 = ''l'' \<longrightarrow>
      rwfllistCommand q s1 = Some (fold addReply (RArrayLen l1 # rs) q, s1) \<and>
      rwfllistCommand q s2 = Some (fold addReply (RArrayLen l2 # rs) q, s2)"
    using rwfl_replicas_converge[OF new(1)[of 0] new(1)[of 1] new(2)[of 0] new(2)[of 1] demo_msgs_ok list.discI[OF refl] same uniq demo_complete(1)]
    by blast
  then show ?thesis by (intro exI[of _ s1, OF exI[of _ s2, OF exI[of _ l1, OF exI[of _ l2, OF exI[of _ rs]]]]]) simp
qed

text \<open>C26: the length of a remove-win list. As long as no update arrives before an insertion with the
  same clock, \<open>rwfllen\<close> replies the number of elements that exist, and the reply of \<open>rwfllist\<close> starts
  with the number of elements that follow.\<close>

theorem rwfl_length_counts:
  assumes "p2p_count s = int n" and "db s tname = None" and ok: "lmsgs_ok tname n pos cont msgs" and ne: "msgs \<noteq> []"
    and full: "\<And>i k. complete n (lmsg_ops k (take i msgs))"
  shows "\<exists>s' ks. rwfl_receive msgs s = Some s' \<and> distinct ks \<and> set ks = {k. current_ops n (lmsg_ops k msgs) \<noteq> []} \<and>
    (\<forall>q. 1 < length (argv q) \<and> argv q ! 1 = tname \<longrightarrow>
      rwfllenCommand q s' = Some (addReply (RInt (int (length ks))) q, s') \<and>
      rwfllistCommand q s' = Some (fold addReply (RArrayLen (int (length ks)) #
        concat (map (\<lambda>k. entry_spec n cont k (lmsg_ops k msgs)) ks)) q, s'))"
proof -
  obtain s' where s': "rwfl_receive msgs s = Some s'" "rwfl_state tname n (p2p_id s) pos cont msgs s'"
    "list_len s' tname = int (card (shown_keys n msgs))"
    using rwfl_receive_len[OF assms(1-3) full] by blast
  have full': "complete n (lmsg_ops k msgs)" for k using full[of k "length msgs"] by simp
  obtain ks where ks: "set ks = inserted msgs" "sorted_wrt (\<lambda>k k'. leid_lt (pos k) (pos k')) ks"
    "\<And>q. 1 < length (argv q) \<Longrightarrow> argv q ! 1 = tname \<Longrightarrow> rwfllistCommand q s' =
      Some (fold addReply (RArrayLen (list_len s' tname) # concat (map (\<lambda>k. entry_spec n cont k (lmsg_ops k msgs)) ks)) q, s') \<and>
      rwfllenCommand q s' = Some (addReply (RInt (list_len s' tname)) q, s')"
    by (rule rwfl_list_reply[OF s'(2) ok ne]) (use full' in blast)+
  let ?ks = "filter (\<lambda>k. current_ops n (lmsg_ops k msgs) \<noteq> []) ks"
  have "distinct ks" using sorted_wrt_distinct[OF _ ks(2)] leid_lt_irrefl by blast
  then have d: "distinct ?ks" by simp
  have "k \<in> inserted msgs" if "k \<in> shown_keys n msgs" for k using shown_inserted[OF full' that] .
  then have set: "set ?ks = shown_keys n msgs" by (auto simp: ks(1) shown_keys_def)
  have "concat (map (\<lambda>k. entry_spec n cont k (lmsg_ops k msgs)) ks) = concat (map (\<lambda>k. entry_spec n cont k (lmsg_ops k msgs)) ?ks)"
    by (rule concat_map_filter) (simp add: entry_spec_def)
  moreover have "list_len s' tname = int (length ?ks)" using s'(3) distinct_card[OF d] set by simp
  ultimately show ?thesis using s'(1) d set ks(3) by (intro exI[of _ s'] exI[of _ ?ks]) (simp add: shown_keys_def)
qed

theorem rwfl_length_counts_witness:
  "\<exists>s. rwfl_receive [demo_insert, demo_update] (demo_server 0) = Some s \<and>
    rwfllenCommand (createClient\<lparr>argv := [''rwfllen'', ''l'']\<rparr>) s =
      Some (addReply (RInt 1) (createClient\<lparr>argv := [''rwfllen'', ''l'']\<rparr>), s)"
proof -
  have new: "p2p_count (demo_server 0) = int 2" "db (demo_server 0) ''l'' = None" by (simp_all add: demo_server_def initServer_def)
  have full: "complete 2 (lmsg_ops k (take i [demo_insert, demo_update]))" for i k
  proof (cases "i = 0 \<or> i = 1")
    case True
    then show ?thesis
      by (auto simp: complete_def lmsg_ops_def demo_keys)
        (auto simp: demo_insert_def current_ops_def latest_def demo_clock_def vjoin_def numeral_2_eq_2)
  next
    case False
    then have "take i [demo_insert, demo_update] = [demo_insert, demo_update]" by (cases i) auto
    then show ?thesis using demo_complete(1) by simp
  qed
  obtain s ks where s: "rwfl_receive [demo_insert, demo_update] (demo_server 0) = Some s" "distinct ks"
    "set ks = {k. current_ops 2 (lmsg_ops k [demo_insert, demo_update]) \<noteq> []}"
    "\<forall>q. 1 < length (argv q) \<and> argv q ! 1 = ''l'' \<longrightarrow>
      rwfllenCommand q s = Some (addReply (RInt (int (length ks))) q, s)"
    using rwfl_length_counts[OF new demo_msgs_ok(1) _ full] by auto
  have "set ks = {''a''}" unfolding s(3) by (auto simp: demo_ops demo_current current_ops_def[of _ "[]"])
  then have "length ks = 1" using distinct_card[OF s(2)] by simp
  then show ?thesis using s(1,4) by (intro exI[of _ s]) simp
qed

text \<open>C27: the length is not always right. When an update arrives before the insertion with the same
  clock, the replica shows the element and still records and replies the length 0.\<close>

theorem rwfl_length_undercounts:
  assumes "p2p_count s = int n" and "db s tname = None" and ok: "lmsgs_ok tname n pos cont [mu, mi]"
    and mu: "fst mu = RUpd t u" "lmsg_key mu = k" and mi: "fst mi = RAdd t v" "lmsg_key mi = k"
    and t: "list_all (\<lambda>x. 0 \<le> x) (vc_vector t)"
  shows "\<exists>s' rs. rwfl_receive [mu, mi] s = Some s' \<and> length rs = 5 \<and>
    (\<forall>q. 1 < length (argv q) \<and> argv q ! 1 = tname \<longrightarrow>
      rwfllenCommand q s' = Some (addReply (RInt 0) q, s') \<and>
      rwfllistCommand q s' = Some (fold addReply (RArrayLen 0 # RArrayLen 6 # RBulk k # rs) q, s'))"
proof -
  have ok1: "lmsgs_ok tname n pos cont ([] @ [mu])" using lmsgs_ok_snoc[of tname n pos cont "[mu]" mi] ok by simp
  have n: "vc_size t = n" using ok mu by (simp add: lmsgs_ok_def lmsg_ok_def)
  obtain c1 s1 e1 where s1: "rwfl_effect (fst mu) (snd mu) s = Some (c1, s1)" "rwfl_state tname n (p2p_id s) pos cont [mu] s1"
    "element_before s tname k e1" "list_len s1 tname = list_len s tname + len_change (fst mu) e1"
    using rwfl_state_step[OF rwfl_state_new[OF assms(1,2)] ok1] mu(2) by auto
  obtain c2 s2 e2 where s2: "rwfl_effect (fst mi) (snd mi) s1 = Some (c2, s2)" "rwfl_state tname n (p2p_id s) pos cont [mu, mi] s2"
    "element_before s1 tname k e2" "list_len s2 tname = list_len s1 tname + len_change (fst mi) e2"
    using rwfl_state_step[OF s1(2), of mi] ok mi(2) by auto
  have "rwflt.slot s tname k = None" using assms(2) by (simp add: rwflt.slot_def where_is_def field_def hash_at_def)
  then have "len_change (fst mu) e1 = 0"
    using s1(3) mu by (auto simp: element_before_def len_removed_def rwfleNew_def REH_INIT_def EXISTS_def)
  moreover have "len_change (fst mi) e2 = 0" using early_update_len[OF s1(2) _ mu t s2(3)] ok1 mi by simp
  moreover have "list_len s tname = 0" using assms(2) by (simp add: list_len_def field_def hash_at_def)
  ultimately have len: "list_len s2 tname = 0" using s1(4) s2(4) by simp
  have ops: "lmsg_ops k' [mu, mi] = (if k' = k then [RUpd t u, RAdd t v] else [])" for k'
    using mu mi by (auto simp: lmsg_ops_def)
  have l: "latest n [RUpd t u, RAdd t v :: rwfl_op] = vc_vector t" using vjoin_zeros[OF t n] by (simp add: latest_def)
  then have cur: "current_ops n [RUpd t u, RAdd t v :: rwfl_op] = [RUpd t u, RAdd t v]" by (simp add: current_ops_def)
  have full: "complete n (lmsg_ops k' [mu, mi])" for k' using cur by (simp add: complete_def ops current_ops_def)
  have ins: "inserted [mu, mi] = {k}" by (auto simp: set_eq_iff inserted_ops ops split: if_splits)
  obtain ks where ks: "set ks = inserted [mu, mi]" "sorted_wrt (\<lambda>k k'. leid_lt (pos k) (pos k')) ks"
    "\<And>q. 1 < length (argv q) \<Longrightarrow> argv q ! 1 = tname \<Longrightarrow> rwfllistCommand q s2 =
      Some (fold addReply (RArrayLen (list_len s2 tname) # concat (map (\<lambda>k. entry_spec n cont k (lmsg_ops k [mu, mi])) ks)) q, s2) \<and>
      rwfllenCommand q s2 = Some (addReply (RInt (list_len s2 tname)) q, s2)"
    by (rule rwfl_list_reply[OF s2(2) ok]) (use full in blast)+
  have "ks = [k]"
    by (rule sorted_wrt_unique[of "\<lambda>k k'. leid_lt (pos k) (pos k')"]) (use ks(1,2) ins leid_lt_trans in auto)
  moreover obtain rs where "entry_spec n cont k (lmsg_ops k [mu, mi]) = RArrayLen 6 # RBulk k # rs" "length rs = 5"
    using cur by (simp add: entry_spec_def ops Let_def)
  moreover have "rwfl_receive [mu, mi] s = Some s2" using s1(1) s2(1) by (cases mu; cases mi) simp
  ultimately show ?thesis using ks(3) len by (intro exI[of _ s2] exI[of _ rs]) simp
qed

theorem rwfl_length_undercounts_witness:
  "\<exists>s. rwfl_receive [demo_update, demo_insert] (demo_server 1) = Some s \<and>
    rwfllenCommand (createClient\<lparr>argv := [''rwfllen'', ''l'']\<rparr>) s =
      Some (addReply (RInt 0) (createClient\<lparr>argv := [''rwfllen'', ''l'']\<rparr>), s)"
proof -
  have new: "p2p_count (demo_server 1) = int 2" "db (demo_server 1) ''l'' = None" by (simp_all add: demo_server_def initServer_def)
  obtain t u v where m: "fst demo_update = RUpd t u" "fst demo_insert = RAdd t v" "list_all (\<lambda>x. 0 \<le> x) (vc_vector t)"
    by (simp add: demo_update_def demo_insert_def demo_clock_def)
  obtain s rs where "rwfl_receive [demo_update, demo_insert] (demo_server 1) = Some s"
    "\<forall>q. 1 < length (argv q) \<and> argv q ! 1 = ''l'' \<longrightarrow> rwfllenCommand q s = Some (addReply (RInt 0) q, s) \<and>
      rwfllistCommand q s = Some (fold addReply (RArrayLen 0 # RArrayLen 6 # RBulk ''a'' # rs) q, s)"
    using rwfl_length_undercounts[OF new demo_msgs_ok(2) m(1) demo_keys(2) m(2) demo_keys(1) m(3)] by auto
  then show ?thesis by (intro exI[of _ s]) simp
qed

section \<open>Contents\<close>











end
